(* ===== verification/Uring_Prelude.thy ===== *)
theory Uring_Prelude
  imports Main "HOL-Library.Word"
begin

unbundle bit_operations_syntax

text \<open>
  Shared vocabulary of the development: the machine integers of Rust, the values a Rust
  computation can end with (a value, a panic, undefined behaviour, a blocked call), \<open>Result\<close>, the arithmetic
  operators whose overflow behaviour depends on the build profile, and the arithmetic of ring
  indices: free-running \<open>u32\<close> counters that are masked when an array slot is accessed.
\<close>

section \<open>Machine integers and results\<close>

type_synonym u8 = "8 word"
type_synonym u16 = "16 word"
type_synonym u32 = "32 word"
type_synonym u64 = "64 word"
type_synonym usize = "64 word"
  \<comment> \<open>the targets of the repository are x86 and x86-64 Linux; pointers are 64 bit here\<close>
type_synonym i32 = "32 word"
  \<comment> \<open>a signed value is its bit pattern and is read with \<open>sint\<close>\<close>
type_synonym i64 = "64 word"

text \<open>
  A Rust function returns, panics, runs into undefined behaviour (in \<open>unsafe\<close> code: an access
  through a dangling or out-of-range pointer), or blocks for ever in a system call. All four are
  values of the model, so that the absence of the last three is a theorem and not a convention.
\<close>

datatype 'a outcome = Done 'a | Panic string | Undefined string | Blocks string

primrec obind :: "'a outcome \<Rightarrow> ('a \<Rightarrow> 'b outcome) \<Rightarrow> 'b outcome" where
  "obind (Done x) f = f x"
| "obind (Panic m) f = Panic m"
| "obind (Undefined m) f = Undefined m"
| "obind (Blocks m) f = Blocks m"

primrec is_done :: "'a outcome \<Rightarrow> bool" where
  "is_done (Done x) = True"
| "is_done (Panic m) = False"
| "is_done (Undefined m) = False"
| "is_done (Blocks m) = False"

text \<open>Rust's \<open>Result<T, E>\<close> and the effect of \<open>Option::expect\<close> and \<open>assert!\<close>.\<close>

datatype ('a, 'e) rresult = Ok 'a | Err 'e

primrec map_err :: "('e \<Rightarrow> 'f) \<Rightarrow> ('a, 'e) rresult \<Rightarrow> ('a, 'f) rresult" where
  "map_err g (Ok x) = Ok x"
| "map_err g (Err e) = Err (g e)"

primrec is_err :: "('a, 'e) rresult \<Rightarrow> bool" where
  "is_err (Ok x) = False"
| "is_err (Err e) = True"

primrec expect :: "string \<Rightarrow> 'a option \<Rightarrow> 'a outcome" where
  "expect msg None = Panic msg"
| "expect msg (Some x) = Done x"

definition rust_assert :: "string \<Rightarrow> bool \<Rightarrow> unit outcome" where
  "rust_assert msg b = (if b then Done () else Panic msg)"

text \<open>
  The operators \<open>+\<close>, \<open>-\<close> and unary minus on integers: with overflow checks (the default of a
  debug build) an overflow panics, without them (release) the result wraps around.
\<close>

datatype profile = Debug | Release

definition rust_add :: "profile \<Rightarrow> 'a::len word \<Rightarrow> 'a word \<Rightarrow> 'a word outcome" where
  "rust_add p a b =
     (if p = Debug \<and> 2 ^ LENGTH('a) \<le> unat a + unat b
      then Panic ''attempt to add with overflow'' else Done (a + b))"

definition rust_sub :: "profile \<Rightarrow> 'a::len word \<Rightarrow> 'a word \<Rightarrow> 'a word outcome" where
  "rust_sub p a b =
     (if p = Debug \<and> a < b
      then Panic ''attempt to subtract with overflow'' else Done (a - b))"

definition rust_neg_i32 :: "profile \<Rightarrow> i32 \<Rightarrow> i32 outcome" where
  "rust_neg_i32 p a =
     (if p = Debug \<and> sint a = - (2 ^ 31)
      then Panic ''attempt to negate with overflow'' else Done (- a))"

text \<open>\<open>is_power_of_two\<close> of the standard library: exactly one bit is set.\<close>

definition is_power_of_two :: "'a::len word \<Rightarrow> bool" where
  "is_power_of_two w \<longleftrightarrow> length (filter (bit w) [0..<LENGTH('a)]) = 1"

named_theorems ring_arith \<open>facts that carry distances between ring counters\<close>
named_theorems outcome_simps \<open>unfolding of outcomes, results and profile-dependent operators\<close>

section \<open>Ring counters\<close>

text \<open>
  \<open>ring_dist a b\<close> is how far the counter \<open>b\<close> is ahead of \<open>a\<close>, modulo the width of the
  counter; \<open>slot m x\<close> is the array index of counter \<open>x\<close> under the mask \<open>m\<close>; \<open>ring_view\<close> reads
  \<open>n\<close> consecutive slots from counter \<open>h\<close>.
\<close>

definition ring_dist :: "'a::len word \<Rightarrow> 'a word \<Rightarrow> nat" where
  "ring_dist a b = unat (b - a)"

definition slot :: "'a::len word \<Rightarrow> 'a word \<Rightarrow> nat" where
  "slot m x = unat (x AND m)"

definition ring_view :: "'e list \<Rightarrow> 'a::len word \<Rightarrow> 'a word \<Rightarrow> nat \<Rightarrow> 'e list" where
  "ring_view xs m h n = map (\<lambda>i. xs ! slot m (h + of_nat i)) [0..<n]"

section \<open>Lemmas on results\<close>

lemmas [outcome_simps] = rust_assert_def rust_add_def rust_sub_def rust_neg_i32_def

lemma obind_Done_iff [simp]:
  "obind x f = Done y \<longleftrightarrow> (\<exists>a. x = Done a \<and> f a = Done y)"
  by (cases x) auto

lemma expect_Done_iff [simp]: "expect msg x = Done y \<longleftrightarrow> x = Some y"
  by (cases x) auto

lemma is_done_iff: "is_done x \<longleftrightarrow> (\<exists>y. x = Done y)"
  by (cases x) auto

lemma rust_assert_Done [simp]: "rust_assert msg b = Done u \<longleftrightarrow> b"
  by (simp add: rust_assert_def)

lemma rust_sub_Release [simp]: "rust_sub Release a b = Done (a - b)"
  by (simp add: rust_sub_def)

section \<open>Lemmas on words and ring counters\<close>

lemma filter_length_1_iff:
  assumes "distinct xs"
  shows "length (filter P xs) = 1 \<longleftrightarrow> (\<exists>!x. x \<in> set xs \<and> P x)"
proof -
  have "length (filter P xs) = card {x \<in> set xs. P x}"
    using assms by (metis distinct_card distinct_filter set_filter)
  also have "card {x \<in> set xs. P x} = 1 \<longleftrightarrow> (\<exists>!x. x \<in> {x \<in> set xs. P x})"
    unfolding card_1_singleton_iff One_nat_def by (simp add: set_eq_iff) metis
  finally show ?thesis by simp
qed

lemma is_power_of_two_iff:
  fixes w :: "'a::len word"
  shows "is_power_of_two w \<longleftrightarrow> (\<exists>k < LENGTH('a). w = 2 ^ k)"
proof -
  have "is_power_of_two w \<longleftrightarrow> (\<exists>!k. k < LENGTH('a) \<and> bit w k)"
    unfolding is_power_of_two_def by (subst filter_length_1_iff) simp_all
  also have "\<dots> \<longleftrightarrow> (\<exists>k < LENGTH('a). w = 2 ^ k)"
  proof
    assume "\<exists>!k. k < LENGTH('a) \<and> bit w k"
    then obtain k where k: "k < LENGTH('a)" "bit w k"
      and u: "\<And>j. j < LENGTH('a) \<Longrightarrow> bit w j \<Longrightarrow> j = k" by blast
    have "w = 2 ^ k"
      by (rule bit_word_eqI) (metis bit_exp_iff possible_bit_word k u)
    with k show "\<exists>k < LENGTH('a). w = 2 ^ k" by blast
  next
    assume "\<exists>k < LENGTH('a). w = 2 ^ k"
    then show "\<exists>!k. k < LENGTH('a) \<and> bit w k"
      by (auto simp: bit_exp_iff)
  qed
  finally show ?thesis .
qed

lemma exp_minus_1_mask: "2 ^ k - 1 = (mask k :: 'a::len word)"
  by (simp add: mask_eq_exp_minus_1)

lemma slot_mask: "slot (mask k) x = unat x mod 2 ^ k"
  by (simp add: slot_def unsigned_take_bit_eq flip: take_bit_eq_mask take_bit_eq_mod)

lemma slot_mask_less: "slot (mask k) x < 2 ^ k"
  by (simp add: slot_mask)

lemma slot_mask_add:
  fixes h :: "'a::len word"
  assumes "k \<le> LENGTH('a)"
  shows "slot (mask k) (h + of_nat i) = (unat h + i) mod 2 ^ k"
proof -
  have "(2::nat) ^ k dvd 2 ^ LENGTH('a)" using assms by (rule le_imp_power_dvd)
  then show ?thesis
    by (simp add: slot_mask unat_word_ariths unsigned_of_nat take_bit_eq_mod mod_mod_cancel mod_simps)
qed

lemma mod_add_inj:
  fixes a i j m :: nat
  assumes "i < m" "j < m" "(a + i) mod m = (a + j) mod m"
  shows "i = j"
proof -
  have "int i mod int m = int j mod int m"
    using assms(3) by (metis of_nat_add of_nat_mod mod_diff_left_eq add_diff_cancel_left')
  with assms(1,2) show ?thesis by simp
qed

lemma slot_inj:
  fixes h :: "'a::len word"
  assumes "k \<le> LENGTH('a)" "i < 2 ^ k" "j < 2 ^ k"
  shows "slot (mask k) (h + of_nat i) = slot (mask k) (h + of_nat j) \<longleftrightarrow> i = j"
  using assms mod_add_inj by (auto simp: slot_mask_add)

lemma slot_mask_0 [simp]: "slot (mask k) (h + of_nat 0) = slot (mask k) h"
  by simp

text \<open>Distances add up along a chain of counters as long as the sum does not wrap.\<close>

lemma ring_dist_self [simp]: "ring_dist a a = 0"
  by (simp add: ring_dist_def)

lemma ring_dist_eq_0_iff [simp]: "ring_dist a b = 0 \<longleftrightarrow> a = b"
  by (auto simp: ring_dist_def unat_eq_0)

lemma ring_dist_less: "ring_dist (a :: 'a::len word) b < 2 ^ LENGTH('a)"
  by (simp add: ring_dist_def)

lemma ring_dist_add: "a + of_nat (ring_dist a b) = b"
  by (simp add: ring_dist_def)

lemma ring_dist_chain:
  fixes a b c :: "'a::len word"
  assumes "ring_dist a b + ring_dist b c < 2 ^ LENGTH('a)"
  shows "ring_dist a c = ring_dist a b + ring_dist b c"
proof -
  have "unat (b - a) + unat (c - b) < 2 ^ LENGTH('a)"
    using assms by (simp add: ring_dist_def)
  then have "unat ((b - a) + (c - b)) = unat (b - a) + unat (c - b)"
    by (rule unat_add_lem [THEN iffD1])
  moreover have "(b - a) + (c - b) = c - a" by simp
  ultimately show ?thesis by (simp add: ring_dist_def)
qed

lemma ring_dist_Suc_right:
  fixes a b :: "'a::len word"
  assumes "Suc (ring_dist a b) < 2 ^ LENGTH('a)"
  shows "ring_dist a (b + 1) = Suc (ring_dist a b)"
proof -
  have b1: "ring_dist b (b + 1) = 1" by (simp add: ring_dist_def)
  with assms have "ring_dist a b + ring_dist b (b + 1) < 2 ^ LENGTH('a)" by simp
  from ring_dist_chain [OF this] b1 show ?thesis by simp
qed

lemma ring_dist_Suc_left:
  fixes a b :: "'a::len word"
  assumes "a \<noteq> b"
  shows "ring_dist a b = Suc (ring_dist (a + 1) b)"
proof -
  have nz: "b - a \<noteq> 0" using assms by simp
  then have "unat (b - a - 1) = unat (b - a) - 1" by (rule unat_minus_one)
  moreover have "b - (a + 1) = b - a - 1" by simp
  ultimately have "unat (b - (a + 1)) = unat (b - a) - 1" by (simp only:)
  moreover have "0 < unat (b - a)" using nz by (simp add: unat_gt_0)
  ultimately show ?thesis unfolding ring_dist_def by linarith
qed

text \<open>The fullness test of both rings: equal slots, different counters.\<close>

lemma xor_mask_eq_0_iff:
  "(x XOR y) AND mask k = 0 \<longleftrightarrow> slot (mask k) x = slot (mask k) (y :: 'a::len word)"
proof -
  have "(x XOR y) AND mask k = 0 \<longleftrightarrow> take_bit k x XOR take_bit k y = 0"
    by (simp only: take_bit_xor flip: take_bit_eq_mask)
  also have "\<dots> \<longleftrightarrow> take_bit k x = take_bit k y"
    by (auto simp: bit_eq_iff bit_xor_iff)
  finally show ?thesis
    by (simp only: slot_def word_unat_eq_iff flip: take_bit_eq_mask)
qed

lemma mod_add_eq_self_iff:
  fixes a d m :: nat
  shows "a mod m = (a + d) mod m \<longleftrightarrow> m dvd d"
  by (metis add_diff_cancel_left' le_add1 mod_eq_dvd_iff_nat)

lemma ring_full_iff:
  fixes h t :: "'a::len word"
  assumes "ring_dist h t \<le> 2 ^ k" "k < LENGTH('a)"
  shows "(h \<noteq> t \<and> (h XOR t) AND mask k = 0) \<longleftrightarrow> ring_dist h t = 2 ^ k"
proof -
  have "slot (mask k) h = slot (mask k) t \<longleftrightarrow> 2 ^ k dvd ring_dist h t"
    using slot_mask_add [of k h "ring_dist h t"] assms(2)
    by (simp add: slot_mask ring_dist_add mod_add_eq_self_iff)
  moreover have "2 ^ k dvd ring_dist h t \<Longrightarrow> h \<noteq> t \<Longrightarrow> ring_dist h t = 2 ^ k"
    using assms(1) by (meson dvd_imp_le le_antisym neq0_conv ring_dist_eq_0_iff)
  moreover have "ring_dist h t = 2 ^ k \<Longrightarrow> h \<noteq> t" by force
  ultimately show ?thesis by (auto simp: xor_mask_eq_0_iff)
qed

text \<open>Writing at the tail and reading at the head of a ring, seen as list operations.\<close>

lemma length_ring_view [simp]: "length (ring_view xs m h n) = n"
  by (simp add: ring_view_def)

lemma ring_view_0 [simp]: "ring_view xs m h 0 = []"
  by (simp add: ring_view_def)

lemma ring_view_push:
  fixes h :: "'a::len word"
  assumes "k \<le> LENGTH('a)" "length xs = 2 ^ k" "n < 2 ^ k"
  shows "ring_view (xs[slot (mask k) (h + of_nat n) := e]) (mask k) h (Suc n) =
    ring_view xs (mask k) h n @ [e]"
proof -
  have "xs[slot (mask k) (h + of_nat n) := e] ! slot (mask k) (h + of_nat i) =
      xs ! slot (mask k) (h + of_nat i)" if "i < n" for i
    using that assms by (subst nth_list_update_neq) (auto simp: slot_inj)
  then show ?thesis
    using assms by (auto simp: ring_view_def slot_mask_less)
qed

lemma ring_view_pop:
  "ring_view xs m h (Suc n) = xs ! slot m h # ring_view xs m (h + 1) n"
proof -
  have "ring_view xs m h (Suc n) =
      xs ! slot m (h + of_nat 0) # map (\<lambda>i. xs ! slot m (h + of_nat (Suc i))) [0..<n]"
    unfolding ring_view_def by (simp only: upt_conv_Cons [of 0 "Suc n"] list.map zero_less_Suc
        map_Suc_upt [symmetric] map_map comp_def)
  then show ?thesis by (simp add: ring_view_def add.assoc)
qed

lemma ring_view_append:
  "ring_view xs m h (a + b) = ring_view xs m h a @ ring_view xs m (h + of_nat a) b"
proof (induction a arbitrary: h)
  case 0
  then show ?case by simp
next
  case (Suc a)
  then show ?case by (simp add: ring_view_pop add.assoc)
qed

lemma take_ring_view: "j \<le> n \<Longrightarrow> take j (ring_view xs m h n) = ring_view xs m h j"
  by (simp add: ring_view_def take_map)

lemma ring_view_scribble:
  fixes h :: "'a::len word"
  assumes "k \<le> LENGTH('a)" "length xs = 2 ^ k" "n < 2 ^ k"
  shows "ring_view (xs[slot (mask k) (h + of_nat n) := e]) (mask k) h n = ring_view xs (mask k) h n"
  using ring_view_push [OF assms, of h e] take_ring_view [of n "Suc n"]
  by (metis append_eq_conv_conj le_SucI length_ring_view order_refl)

lemma exp_less_u32: "k < 32 \<Longrightarrow> (2 :: nat) ^ k < 2 ^ LENGTH(32)"
  using power_strict_increasing [of k 32 "2 :: nat"] by simp

text \<open>The three distances of the invariant add up to the distances the operations look at.\<close>

lemma ring_chain3:
  fixes a b c d :: u32
  assumes "ring_dist a b + ring_dist b c + ring_dist c d \<le> 2 ^ k" "k < 32"
  shows "ring_dist b d = ring_dist b c + ring_dist c d"
    and "ring_dist a d = ring_dist a b + ring_dist b c + ring_dist c d"
proof -
  have lt: "ring_dist a b + ring_dist b c + ring_dist c d < 2 ^ LENGTH(32)"
    using assms exp_less_u32 [OF assms(2)] by linarith
  then show bd: "ring_dist b d = ring_dist b c + ring_dist c d"
    by (intro ring_dist_chain) linarith
  show "ring_dist a d = ring_dist a b + ring_dist b c + ring_dist c d"
    using ring_dist_chain [of a b d] bd lt by linarith
qed

end
