(* ===== verification/Sys_Types.thy ===== *)
theory Sys_Types
  imports Uring_Prelude
begin

text \<open>
  The data of \<open>io-uring-sys/src/lib.rs\<close>: flag sets, op codes, the set-up parameters and ring
  offsets exchanged with \<open>io_uring_setup\<close>, submission and completion entries, and their
  \<open>repr(C)\<close> layout, which the crate pins with \<open>static_assert!\<close>. A \<open>bitflags!\<close> struct is its
  bit pattern. The poll constants come from the \<open>libc\<close> crate and stay a parameter
  (\<open>libc_poll\<close>).
\<close>

section \<open>Flag sets\<close>

definition EnterFlags_GETEVENTS :: u32 where "EnterFlags_GETEVENTS = push_bit 0 1"
definition EnterFlags_SQ_WAKEUP :: u32 where "EnterFlags_SQ_WAKEUP = push_bit 1 1"
definition EnterFlags_ALL :: u32 where "EnterFlags_ALL = NOT 0"
definition EnterFlags_default :: u32 where "EnterFlags_default = 0"

datatype RegisterOpCode = RegisterOpCode (register_op: u32)

definition REGISTER_BUFFERS :: RegisterOpCode where "REGISTER_BUFFERS = RegisterOpCode 0"
definition UNREGISTER_BUFFERS :: RegisterOpCode where "UNREGISTER_BUFFERS = RegisterOpCode 1"
definition REGISTER_FILES :: RegisterOpCode where "REGISTER_FILES = RegisterOpCode 2"
definition UNREGISTER_FILES :: RegisterOpCode where "UNREGISTER_FILES = RegisterOpCode 3"

definition SetupFlags_IOPOLL :: u32 where "SetupFlags_IOPOLL = push_bit 0 1"
definition SetupFlags_SQPOLL :: u32 where "SetupFlags_SQPOLL = push_bit 1 1"
definition SetupFlags_SQ_AFF :: u32 where "SetupFlags_SQ_AFF = push_bit 2 1"
definition SetupFlags_ALL :: u32 where "SetupFlags_ALL = NOT 0"
definition SetupFlags_default :: u32 where "SetupFlags_default = 0"

definition SubmissionQueueFlags_NEED_WAKEUP :: u32 where
  "SubmissionQueueFlags_NEED_WAKEUP = push_bit 0 1"
definition SubmissionQueueFlags_ALL :: u32 where "SubmissionQueueFlags_ALL = NOT 0"

definition SubmissionEntryFlags_FIXED_FILE :: u8 where
  "SubmissionEntryFlags_FIXED_FILE = push_bit 0 1"
definition SubmissionEntryFlags_ALL :: u8 where "SubmissionEntryFlags_ALL = NOT 0"
definition SubmissionEntryFlags_default :: u8 where "SubmissionEntryFlags_default = 0"

definition ReadWriteFlags_HIPRI :: u32 where "ReadWriteFlags_HIPRI = 0x00000001"
definition ReadWriteFlags_DSYNC :: u32 where "ReadWriteFlags_DSYNC = 0x00000002"
definition ReadWriteFlags_SYNC :: u32 where "ReadWriteFlags_SYNC = 0x00000004"
definition ReadWriteFlags_NOWAIT :: u32 where "ReadWriteFlags_NOWAIT = 0x00000008"
definition ReadWriteFlags_APPEND :: u32 where "ReadWriteFlags_APPEND = 0x00000010"
definition ReadWriteFlags_SUPPORTED :: u32 where
  "ReadWriteFlags_SUPPORTED =
     0 OR ReadWriteFlags_HIPRI OR ReadWriteFlags_DSYNC OR ReadWriteFlags_SYNC
       OR ReadWriteFlags_NOWAIT OR ReadWriteFlags_APPEND"
definition ReadWriteFlags_ALL :: u32 where "ReadWriteFlags_ALL = NOT 0"
definition ReadWriteFlags_default :: u32 where "ReadWriteFlags_default = 0"

definition FsyncFlags_default :: u32 where "FsyncFlags_default = 0"
definition FsyncFlags_DATASYNC :: u32 where "FsyncFlags_DATASYNC = push_bit 0 1"
definition FsyncFlags_ALL :: u32 where "FsyncFlags_ALL = NOT 0"

text \<open>The poll bits of the \<open>libc\<close> crate (as \<open>i16\<close> bit patterns; \<open>as u16\<close> keeps the pattern).\<close>

record libc_poll =
  libc_POLLIN :: u16
  libc_POLLOUT :: u16
  libc_POLLPRI :: u16
  libc_POLLERR :: u16
  libc_POLLNVAL :: u16
  libc_POLLRDNORM :: u16
  libc_POLLRDBAND :: u16
  libc_POLLWRNORM :: u16
  libc_POLLWRBAND :: u16
  libc_POLLHUP :: u16

definition PollFlags_IN :: "libc_poll \<Rightarrow> u16" where "PollFlags_IN lc = libc_POLLIN lc"
definition PollFlags_OUT :: "libc_poll \<Rightarrow> u16" where "PollFlags_OUT lc = libc_POLLOUT lc"
definition PollFlags_RDHUP :: u16 where "PollFlags_RDHUP = 0x2000"
definition PollFlags_MSG :: u16 where "PollFlags_MSG = 0x0400"

text \<open>All declared poll flags together; \<open>_ALL = !0\<close> is one of them.\<close>

definition PollFlags_all :: "libc_poll \<Rightarrow> u16" where
  "PollFlags_all lc =
     PollFlags_IN lc OR PollFlags_OUT lc OR libc_POLLPRI lc OR libc_POLLERR lc
       OR libc_POLLNVAL lc OR libc_POLLRDNORM lc OR libc_POLLRDBAND lc OR libc_POLLWRNORM lc
       OR libc_POLLWRBAND lc OR libc_POLLHUP lc OR PollFlags_RDHUP OR PollFlags_MSG OR NOT 0"

section \<open>Set-up parameters and ring offsets\<close>

record SubmissionQueueRingOffsets =
  sqo_head :: u32
  sqo_tail :: u32
  sqo_ring_mask :: u32
  sqo_ring_entries :: u32
  sqo_flags :: u32
  sqo_dropped :: u32
  sqo_array :: u32
  sqo_reserved :: "u32 list"

record CompletionQueueRingOffsets =
  cqo_head :: u32
  cqo_tail :: u32
  cqo_ring_mask :: u32
  cqo_ring_entries :: u32
  cqo_overflow :: u32
  cqo_cqes :: u32
  cqo_reserved :: "u64 list"

record SetupParameters =
  sp_sq_entries :: u32
  sp_cq_entries :: u32
  sp_flags :: u32
  sp_sq_thread_cpu :: u32
  sp_sq_thread_idle :: u32
  sp_reserved :: "u32 list"
  sp_sq_off :: SubmissionQueueRingOffsets
  sp_cq_off :: CompletionQueueRingOffsets

definition SUBMISSION_QUEUE_RING_OFFSET :: i64 where "SUBMISSION_QUEUE_RING_OFFSET = 0"
definition COMPLETION_QUEUE_RING_OFFSET :: i64 where "COMPLETION_QUEUE_RING_OFFSET = 0x8000000"
definition SUBMISSION_QUEUE_ENTRIES_OFFSET :: i64 where
  "SUBMISSION_QUEUE_ENTRIES_OFFSET = 0x10000000"

definition SubmissionQueueRingOffsets_default :: SubmissionQueueRingOffsets where
  "SubmissionQueueRingOffsets_default =
     \<lparr>sqo_head = 0, sqo_tail = 0, sqo_ring_mask = 0, sqo_ring_entries = 0, sqo_flags = 0,
      sqo_dropped = 0, sqo_array = 0, sqo_reserved = replicate 3 0\<rparr>"

definition CompletionQueueRingOffsets_default :: CompletionQueueRingOffsets where
  "CompletionQueueRingOffsets_default =
     \<lparr>cqo_head = 0, cqo_tail = 0, cqo_ring_mask = 0, cqo_ring_entries = 0, cqo_overflow = 0,
      cqo_cqes = 0, cqo_reserved = replicate 2 0\<rparr>"

definition SetupParameters_new :: "u32 \<Rightarrow> SetupParameters" where
  "SetupParameters_new flags =
     \<lparr>sp_sq_entries = 0, sp_cq_entries = 0, sp_flags = flags, sp_sq_thread_cpu = 0,
      sp_sq_thread_idle = 0, sp_reserved = replicate 5 0,
      sp_sq_off = SubmissionQueueRingOffsets_default,
      sp_cq_off = CompletionQueueRingOffsets_default\<rparr>"

section \<open>Operations\<close>

datatype Operation =
  Nop | Readv | Writev | Fsync | ReadFixed | WriteFixed | PollAdd | PollRemove

primrec Operation_as_u8 :: "Operation \<Rightarrow> u8" where
  "Operation_as_u8 Nop = 0"
| "Operation_as_u8 Readv = 1"
| "Operation_as_u8 Writev = 2"
| "Operation_as_u8 Fsync = 3"
| "Operation_as_u8 ReadFixed = 4"
| "Operation_as_u8 WriteFixed = 5"
| "Operation_as_u8 PollAdd = 6"
| "Operation_as_u8 PollRemove = 7"

definition Operation_default :: Operation where "Operation_default = Nop"

datatype RawOperation = RawOperation (raw_op: u8)

definition RawOperation_decode :: "RawOperation \<Rightarrow> Operation option" where
  "RawOperation_decode r =
     (if raw_op r = 0 then Some Nop
      else if raw_op r = 1 then Some Readv
      else if raw_op r = 2 then Some Writev
      else if raw_op r = 3 then Some Fsync
      else if raw_op r = 4 then Some ReadFixed
      else if raw_op r = 5 then Some WriteFixed
      else if raw_op r = 6 then Some PollAdd
      else if raw_op r = 7 then Some PollRemove
      else None)"

definition RawOperation_from :: "Operation \<Rightarrow> RawOperation" where
  "RawOperation_from op = RawOperation (Operation_as_u8 op)"

datatype EncodedIoPriority = EncodedIoPriority (prio_bits: u16)

section \<open>Submission and completion entries\<close>

text \<open>
  The union \<open>SubmissionEntryOperationFlags\<close> records the member that was written last (its
  other bytes are not defined by a union literal). The union \<open>SubmissionEntryExtraData\<close> is
  the two bytes of \<open>fixed.buf_index\<close> and the 22 bytes behind them.
\<close>

datatype SubmissionEntryOperationFlags =
  OpRaw u32 | OpRwFlags u32 | OpFsyncFlags u32 | OpPollEvents u16

text \<open>The four \<open>From\<close> implementations, used as \<open>.into()\<close> when an entry is filled.\<close>

definition OperationFlags_from_u32 :: "u32 \<Rightarrow> SubmissionEntryOperationFlags" where "OperationFlags_from_u32 raw = OpRaw raw"
definition OperationFlags_from_rw :: "u32 \<Rightarrow> SubmissionEntryOperationFlags" where "OperationFlags_from_rw rw_flags = OpRwFlags rw_flags"
definition OperationFlags_from_fsync :: "u32 \<Rightarrow> SubmissionEntryOperationFlags" where "OperationFlags_from_fsync fsync_flags = OpFsyncFlags fsync_flags"
definition OperationFlags_from_poll :: "u16 \<Rightarrow> SubmissionEntryOperationFlags" where "OperationFlags_from_poll poll_events = OpPollEvents poll_events"

record SubmissionEntryExtraData =
  ex_buf_index :: u16
  ex_rest :: "u8 list"

record SubmissionEntry =
  se_opcode :: RawOperation
  se_flags :: u8
  se_ioprio :: EncodedIoPriority
  se_fd :: i32
  se_off :: u64
  se_addr :: u64
  se_len :: u32
  se_op_flags :: SubmissionEntryOperationFlags
  se_user_data :: u64
  se_extra :: SubmissionEntryExtraData

record CompletionEntry =
  ce_user_data :: u64
  ce_res :: i32
  ce_flags :: u32

definition zeroed_entry :: SubmissionEntry where
  "zeroed_entry =
     \<lparr>se_opcode = RawOperation 0, se_flags = 0, se_ioprio = EncodedIoPriority 0, se_fd = 0,
      se_off = 0, se_addr = 0, se_len = 0, se_op_flags = OpRaw 0, se_user_data = 0,
      se_extra = \<lparr>ex_buf_index = 0, ex_rest = replicate 22 0\<rparr>\<rparr>"

section \<open>repr(C) layout\<close>

text \<open>
  Sizes and alignments of \<open>repr(C)\<close> types: fields are placed in order at the next multiple of
  their alignment, and the size is rounded up to the alignment of the whole.
\<close>

datatype ctype = CInt nat | CArray ctype nat | CStruct "ctype list" | CUnion "ctype list"

definition round_up :: "nat \<Rightarrow> nat \<Rightarrow> nat" where
  "round_up a n = (if a = 0 then n else ((n + a - 1) div a) * a)"

fun align_of :: "ctype \<Rightarrow> nat" where
  "align_of (CInt n) = n"
| "align_of (CArray t n) = align_of t"
| "align_of (CStruct ts) = foldr (\<lambda>t m. max (align_of t) m) ts 1"
| "align_of (CUnion ts) = foldr (\<lambda>t m. max (align_of t) m) ts 1"

fun size_of :: "ctype \<Rightarrow> nat" where
  "size_of (CInt n) = n"
| "size_of (CArray t n) = n * size_of t"
| "size_of (CStruct ts) =
     round_up (align_of (CStruct ts))
       (fold (\<lambda>t off. round_up (align_of t) off + size_of t) ts 0)"
| "size_of (CUnion ts) =
     round_up (align_of (CUnion ts)) (foldr (\<lambda>t m. max (size_of t) m) ts 0)"

definition SubmissionQueueRingOffsets_layout :: ctype where
  "SubmissionQueueRingOffsets_layout = CStruct [CInt 4, CInt 4, CInt 4, CInt 4, CInt 4, CInt 4, CInt 4, CArray (CInt 4) 3]"

definition CompletionQueueRingOffsets_layout :: ctype where
  "CompletionQueueRingOffsets_layout = CStruct [CInt 4, CInt 4, CInt 4, CInt 4, CInt 4, CInt 4, CArray (CInt 8) 2]"

definition SetupParameters_layout :: ctype where
  "SetupParameters_layout =
     CStruct [CInt 4, CInt 4, CInt 4, CInt 4, CInt 4, CArray (CInt 4) 5,
       SubmissionQueueRingOffsets_layout, CompletionQueueRingOffsets_layout]"

definition SubmissionEntryOperationFlags_layout :: ctype where
  "SubmissionEntryOperationFlags_layout = CUnion [CInt 4, CInt 4, CInt 4, CInt 2]"

definition SubmissionEntryExtraData_layout :: ctype where
  "SubmissionEntryExtraData_layout = CUnion [CStruct [CInt 2], CArray (CInt 8) 3]"

definition SubmissionEntry_layout :: ctype where
  "SubmissionEntry_layout =
     CStruct [CStruct [CInt 1], CInt 1, CStruct [CInt 2], CInt 4, CInt 8, CInt 8, CInt 4,
       SubmissionEntryOperationFlags_layout, CInt 8, SubmissionEntryExtraData_layout]"

definition CompletionEntry_layout :: ctype where
  "CompletionEntry_layout = CStruct [CInt 8, CInt 4, CInt 4]"

text \<open>
  The macro \<open>static_assert!\<close> conjoins its arguments and declares an array of length
  \<open>(e as usize) - 1\<close>: compilation succeeds (\<open>Some\<close>) exactly when the subtraction does not
  underflow.
\<close>

definition static_assert :: "bool list \<Rightarrow> nat option" where
  "static_assert es = (if fold (\<lambda>e acc. acc \<and> e) es True then Some 0 else None)"

definition layout_assertions :: "bool list" where
  "layout_assertions =
     [size_of SetupParameters_layout = 120,
      size_of SubmissionQueueRingOffsets_layout = 40,
      size_of CompletionQueueRingOffsets_layout = 40,
      size_of SubmissionEntry_layout = 64,
      size_of SubmissionEntryOperationFlags_layout = 4,
      size_of SubmissionEntryExtraData_layout = 24,
      size_of CompletionEntry_layout = 16,
      True]"

section \<open>Order on operations\<close>

text \<open>\<open>derive(PartialOrd, Ord)\<close> compares discriminants.\<close>

instantiation Operation :: linorder
begin

definition less_eq_Operation :: "Operation \<Rightarrow> Operation \<Rightarrow> bool" where
  "less_eq_Operation a b = (Operation_as_u8 a \<le> Operation_as_u8 b)"

definition less_Operation :: "Operation \<Rightarrow> Operation \<Rightarrow> bool" where
  "less_Operation a b = (Operation_as_u8 a < Operation_as_u8 b)"

instance
proof
  fix x y :: Operation
  show "x \<le> y \<Longrightarrow> y \<le> x \<Longrightarrow> x = y"
  proof -
    assume "x \<le> y" "y \<le> x"
    then have "Operation_as_u8 x = Operation_as_u8 y" by (simp add: less_eq_Operation_def)
    then show "x = y" by (cases x; cases y) simp_all
  qed
qed (auto simp: less_eq_Operation_def less_Operation_def)

end

section \<open>Lemmas\<close>

lemmas layout_defs = SubmissionQueueRingOffsets_layout_def CompletionQueueRingOffsets_layout_def
  SetupParameters_layout_def SubmissionEntryOperationFlags_layout_def
  SubmissionEntryExtraData_layout_def SubmissionEntry_layout_def CompletionEntry_layout_def

lemma RawOperation_decode_from: "RawOperation_decode (RawOperation_from op) = Some op"
  by (cases op) (simp_all add: RawOperation_decode_def RawOperation_from_def)

lemma RawOperation_decode_SomeD:
  "RawOperation_decode r = Some op \<Longrightarrow> r = RawOperation_from op"
  by (cases r) (auto simp: RawOperation_decode_def RawOperation_from_def split: if_splits)

lemma RawOperation_decode_None_iff: "RawOperation_decode r = None \<longleftrightarrow> 7 < raw_op r"
proof -
  have "raw_op r \<in> {0, 1, 2, 3, 4, 5, 6, 7} \<longleftrightarrow> raw_op r \<le> 7"
    by (simp add: word_le_nat_alt word_unat_eq_iff) linarith
  then show ?thesis by (auto simp: RawOperation_decode_def split: if_splits)
qed

section \<open>Properties\<close>

text \<open>
  The layout assertions of the crate hold: computed by the \<open>repr(C)\<close> rules from the declared
  fields, the structures and unions shared with the kernel have the sizes that \<open>static_assert!\<close>
  demands, so the crate compiles.
\<close>

theorem layout_static_assert: "static_assert layout_assertions = Some 0"
  by (simp add: static_assert_def layout_assertions_def layout_defs round_up_def del: One_nat_def)

text \<open>
  Op codes: a raw byte decodes to an operation exactly when it is the byte that operation
  encodes to, and exactly the bytes above 7 do not decode.
\<close>

theorem operation_codec:
  "(RawOperation_decode r = Some op \<longleftrightarrow> r = RawOperation_from op) \<and>
   (RawOperation_decode r = None \<longleftrightarrow> 7 < raw_op r)"
  using RawOperation_decode_from RawOperation_decode_SomeD RawOperation_decode_None_iff by blast

end
