(* ===== verification/Sys_Submission.thy ===== *)
theory Sys_Submission
  imports Sys_Types
begin

text \<open>
  \<open>io-uring-sys/src/submission.rs\<close>: I/O priorities and their 16 bit encoding, and the methods
  of \<open>SubmissionEntry\<close> that fill an entry for one operation. A fat pointer (\<open>*const [T]\<close>) is
  its address and its length.
\<close>

section \<open>I/O priorities\<close>

datatype IoPriorityLevel =
  Level0 | Level1 | Level2 | Level3 | Level4 | Level5 | Level6 | Level7

primrec IoPriorityLevel_as_u8 :: "IoPriorityLevel \<Rightarrow> u8" where
  "IoPriorityLevel_as_u8 Level0 = 0"
| "IoPriorityLevel_as_u8 Level1 = 1"
| "IoPriorityLevel_as_u8 Level2 = 2"
| "IoPriorityLevel_as_u8 Level3 = 3"
| "IoPriorityLevel_as_u8 Level4 = 4"
| "IoPriorityLevel_as_u8 Level5 = 5"
| "IoPriorityLevel_as_u8 Level6 = 6"
| "IoPriorityLevel_as_u8 Level7 = 7"

definition IoPriorityLevel_try_from :: "u8 \<Rightarrow> IoPriorityLevel option" where
  "IoPriorityLevel_try_from v =
     (if v = 0 then Some Level0
      else if v = 1 then Some Level1
      else if v = 2 then Some Level2
      else if v = 3 then Some Level3
      else if v = 4 then Some Level4
      else if v = 5 then Some Level5
      else if v = 6 then Some Level6
      else if v = 7 then Some Level7
      else None)"

datatype IoPriority =
  PrioNone | Realtime IoPriorityLevel | BestEffort IoPriorityLevel | Idle

definition IoPriority_try_from :: "EncodedIoPriority \<Rightarrow> IoPriority option" where
  "IoPriority_try_from e =
     (let c = drop_bit 13 (prio_bits e) in
      if c = 0 then Some PrioNone
      else if c = 1 then
        (case IoPriorityLevel_try_from (ucast (prio_bits e)) of
           None \<Rightarrow> None | Some l \<Rightarrow> Some (Realtime l))
      else if c = 2 then
        (case IoPriorityLevel_try_from (ucast (prio_bits e)) of
           None \<Rightarrow> None | Some l \<Rightarrow> Some (BestEffort l))
      else if c = 3 then Some Idle
      else None)"

definition IoPriority_default :: IoPriority where "IoPriority_default = PrioNone"

primrec IoPriority_bits :: "IoPriority \<Rightarrow> u16" where
  "IoPriority_bits PrioNone = push_bit 13 0"
| "IoPriority_bits (Realtime l) = push_bit 13 1 OR ucast (IoPriorityLevel_as_u8 l)"
| "IoPriority_bits (BestEffort l) = push_bit 13 2 OR ucast (IoPriorityLevel_as_u8 l)"
| "IoPriority_bits Idle = push_bit 13 3"

definition IoPriority_into :: "IoPriority \<Rightarrow> EncodedIoPriority" where
  "IoPriority_into p = EncodedIoPriority (IoPriority_bits p)"

text \<open>\<open>derive(PartialOrd, Ord)\<close>: by variant, then by level.\<close>

instantiation IoPriorityLevel :: linorder
begin

definition less_eq_IoPriorityLevel :: "IoPriorityLevel \<Rightarrow> IoPriorityLevel \<Rightarrow> bool" where
  "less_eq_IoPriorityLevel a b = (IoPriorityLevel_as_u8 a \<le> IoPriorityLevel_as_u8 b)"

definition less_IoPriorityLevel :: "IoPriorityLevel \<Rightarrow> IoPriorityLevel \<Rightarrow> bool" where
  "less_IoPriorityLevel a b = (IoPriorityLevel_as_u8 a < IoPriorityLevel_as_u8 b)"

instance
proof
  fix x y :: IoPriorityLevel
  show "x \<le> y \<Longrightarrow> y \<le> x \<Longrightarrow> x = y"
  proof -
    assume "x \<le> y" "y \<le> x"
    then have "IoPriorityLevel_as_u8 x = IoPriorityLevel_as_u8 y"
      by (simp add: less_eq_IoPriorityLevel_def)
    then show "x = y" by (cases x; cases y) simp_all
  qed
qed (auto simp: less_eq_IoPriorityLevel_def less_IoPriorityLevel_def)

end

fun IoPriority_less :: "IoPriority \<Rightarrow> IoPriority \<Rightarrow> bool" where
  "IoPriority_less PrioNone q = (q \<noteq> PrioNone)"
| "IoPriority_less (Realtime l) q =
     (case q of PrioNone \<Rightarrow> False | Realtime l' \<Rightarrow> l < l' | BestEffort _ \<Rightarrow> True | Idle \<Rightarrow> True)"
| "IoPriority_less (BestEffort l) q =
     (case q of PrioNone \<Rightarrow> False | Realtime _ \<Rightarrow> False | BestEffort l' \<Rightarrow> l < l' | Idle \<Rightarrow> True)"
| "IoPriority_less Idle q = False"

section \<open>Filling entries\<close>

datatype FileDescriptor = FD i32 | Fixed u32

record fat_ptr =
  fp_ptr :: u64
  fp_len :: usize

definition SubmissionEntry_clear :: "SubmissionEntry \<Rightarrow> SubmissionEntry" where
  "SubmissionEntry_clear e = zeroed_entry"

text \<open>The \<open>match fd { ... }\<close> block shared by the methods below (the flags were just reset).\<close>

primrec set_target :: "FileDescriptor \<Rightarrow> SubmissionEntry \<Rightarrow> SubmissionEntry" where
  "set_target (FD fd) e = e\<lparr>se_fd := fd\<rparr>"
| "set_target (Fixed ndx) e =
     e\<lparr>se_flags := se_flags e OR SubmissionEntryFlags_FIXED_FILE, se_fd := ndx\<rparr>"

definition set_buf_index :: "u16 \<Rightarrow> SubmissionEntry \<Rightarrow> SubmissionEntry" where
  "set_buf_index i e = e\<lparr>se_extra := (se_extra e)\<lparr>ex_buf_index := i\<rparr>\<rparr>"

definition SubmissionEntry_iov ::
  "SubmissionEntry \<Rightarrow> Operation \<Rightarrow> IoPriority \<Rightarrow> FileDescriptor \<Rightarrow> u64 \<Rightarrow> u32 \<Rightarrow> fat_ptr \<Rightarrow> SubmissionEntry"
where
  "SubmissionEntry_iov e op prio fd offset rwflags iov =
     (let e = e\<lparr>se_opcode := RawOperation_from op\<rparr>;
          e = e\<lparr>se_flags := SubmissionEntryFlags_default\<rparr>;
          e = e\<lparr>se_ioprio := IoPriority_into prio\<rparr>;
          e = set_target fd e;
          e = e\<lparr>se_off := offset\<rparr>;
          e = e\<lparr>se_addr := fp_ptr iov\<rparr>;
          e = e\<lparr>se_len := ucast (fp_len iov)\<rparr>;
          e = e\<lparr>se_op_flags := OperationFlags_from_rw rwflags\<rparr>
      in set_buf_index 0 e)"

definition SubmissionEntry_readv ::
  "SubmissionEntry \<Rightarrow> IoPriority \<Rightarrow> FileDescriptor \<Rightarrow> u64 \<Rightarrow> u32 \<Rightarrow> fat_ptr \<Rightarrow> SubmissionEntry"
where
  "SubmissionEntry_readv e prio fd offset rwflags iov =
     SubmissionEntry_iov e Readv prio fd offset rwflags iov"

definition SubmissionEntry_writev ::
  "SubmissionEntry \<Rightarrow> IoPriority \<Rightarrow> FileDescriptor \<Rightarrow> u64 \<Rightarrow> u32 \<Rightarrow> fat_ptr \<Rightarrow> SubmissionEntry"
where
  "SubmissionEntry_writev e prio fd offset rwflags iov =
     SubmissionEntry_iov e Writev prio fd offset rwflags iov"

definition SubmissionEntry_io_fixed ::
  "SubmissionEntry \<Rightarrow> Operation \<Rightarrow> IoPriority \<Rightarrow> FileDescriptor \<Rightarrow> u64 \<Rightarrow> u32 \<Rightarrow> u16 \<Rightarrow> fat_ptr \<Rightarrow>
    SubmissionEntry"
where
  "SubmissionEntry_io_fixed e op prio fd offset rwflags buf_index buf =
     (let e = e\<lparr>se_opcode := RawOperation_from op\<rparr>;
          e = e\<lparr>se_flags := SubmissionEntryFlags_default\<rparr>;
          e = e\<lparr>se_ioprio := IoPriority_into prio\<rparr>;
          e = set_target fd e;
          e = e\<lparr>se_off := offset\<rparr>;
          e = e\<lparr>se_addr := fp_ptr buf\<rparr>;
          e = e\<lparr>se_len := ucast (fp_len buf)\<rparr>;
          e = e\<lparr>se_op_flags := OperationFlags_from_rw rwflags\<rparr>
      in set_buf_index buf_index e)"

definition SubmissionEntry_read_fixed ::
  "SubmissionEntry \<Rightarrow> IoPriority \<Rightarrow> FileDescriptor \<Rightarrow> u64 \<Rightarrow> u32 \<Rightarrow> u16 \<Rightarrow> fat_ptr \<Rightarrow> SubmissionEntry"
where
  "SubmissionEntry_read_fixed e prio fd offset rwflags buf_index buf =
     SubmissionEntry_io_fixed e ReadFixed prio fd offset rwflags buf_index buf"

definition SubmissionEntry_write_fixed ::
  "SubmissionEntry \<Rightarrow> IoPriority \<Rightarrow> FileDescriptor \<Rightarrow> u64 \<Rightarrow> u32 \<Rightarrow> u16 \<Rightarrow> fat_ptr \<Rightarrow> SubmissionEntry"
where
  "SubmissionEntry_write_fixed e prio fd offset rwflags buf_index buf =
     SubmissionEntry_io_fixed e WriteFixed prio fd offset rwflags buf_index buf"

definition SubmissionEntry_fsync ::
  "SubmissionEntry \<Rightarrow> FileDescriptor \<Rightarrow> u32 \<Rightarrow> u64 \<Rightarrow> u32 \<Rightarrow> SubmissionEntry"
where
  "SubmissionEntry_fsync e fd fsflags offset n =
     (let e = e\<lparr>se_opcode := RawOperation_from Fsync\<rparr>;
          e = e\<lparr>se_flags := SubmissionEntryFlags_default\<rparr>;
          e = e\<lparr>se_ioprio := EncodedIoPriority 0\<rparr>;
          e = set_target fd e;
          e = e\<lparr>se_off := offset\<rparr>;
          e = e\<lparr>se_addr := 0\<rparr>;
          e = e\<lparr>se_len := n\<rparr>;
          e = e\<lparr>se_op_flags := OperationFlags_from_fsync fsflags\<rparr>
      in set_buf_index 0 e)"

definition SubmissionEntry_fsync_full ::
  "SubmissionEntry \<Rightarrow> FileDescriptor \<Rightarrow> u32 \<Rightarrow> SubmissionEntry"
where
  "SubmissionEntry_fsync_full e fd fsflags = SubmissionEntry_fsync e fd fsflags 0 0"

definition SubmissionEntry_poll_add ::
  "SubmissionEntry \<Rightarrow> FileDescriptor \<Rightarrow> u16 \<Rightarrow> SubmissionEntry"
where
  "SubmissionEntry_poll_add e fd pflags =
     (let e = e\<lparr>se_opcode := RawOperation_from PollAdd\<rparr>;
          e = e\<lparr>se_flags := SubmissionEntryFlags_default\<rparr>;
          e = e\<lparr>se_ioprio := EncodedIoPriority 0\<rparr>;
          e = set_target fd e;
          e = e\<lparr>se_off := 0\<rparr>;
          e = e\<lparr>se_addr := 0\<rparr>;
          e = e\<lparr>se_len := 0\<rparr>;
          e = e\<lparr>se_op_flags := OperationFlags_from_poll pflags\<rparr>
      in set_buf_index 0 e)"

definition SubmissionEntry_poll_remove :: "SubmissionEntry \<Rightarrow> u64 \<Rightarrow> SubmissionEntry" where
  "SubmissionEntry_poll_remove e match_user_data =
     (let e = e\<lparr>se_opcode := RawOperation_from PollRemove\<rparr>;
          e = e\<lparr>se_flags := SubmissionEntryFlags_default\<rparr>;
          e = e\<lparr>se_ioprio := EncodedIoPriority 0\<rparr>;
          e = e\<lparr>se_fd := 0\<rparr>;
          e = e\<lparr>se_off := 0\<rparr>;
          e = e\<lparr>se_addr := match_user_data\<rparr>;
          e = e\<lparr>se_len := 0\<rparr>;
          e = e\<lparr>se_op_flags := OperationFlags_from_u32 0\<rparr>
      in set_buf_index 0 e)"

section \<open>Reading an entry back\<close>

text \<open>
  An abstract request per operation, how the library encodes it (\<open>fill_entry\<close> dispatches to the
  method of the operation), and how the documented layout of an entry is read back: the op code
  selects the interpretation, \<open>FIXED_FILE\<close> says whether \<open>fd\<close> is a descriptor or an index into
  the registered files, and the union members are read as the operation writes them.
\<close>

datatype io_request =
  ReqReadv IoPriority FileDescriptor u64 u32 fat_ptr
| ReqWritev IoPriority FileDescriptor u64 u32 fat_ptr
| ReqReadFixed IoPriority FileDescriptor u64 u32 u16 fat_ptr
| ReqWriteFixed IoPriority FileDescriptor u64 u32 u16 fat_ptr
| ReqFsync FileDescriptor u32 u64 u32
| ReqPollAdd FileDescriptor u16
| ReqPollRemove u64

primrec fill_entry :: "SubmissionEntry \<Rightarrow> io_request \<Rightarrow> SubmissionEntry" where
  "fill_entry e (ReqReadv pr fd off fl p) = SubmissionEntry_readv e pr fd off fl p"
| "fill_entry e (ReqWritev pr fd off fl p) = SubmissionEntry_writev e pr fd off fl p"
| "fill_entry e (ReqReadFixed pr fd off fl i p) = SubmissionEntry_read_fixed e pr fd off fl i p"
| "fill_entry e (ReqWriteFixed pr fd off fl i p) = SubmissionEntry_write_fixed e pr fd off fl i p"
| "fill_entry e (ReqFsync fd fl off n) = SubmissionEntry_fsync e fd fl off n"
| "fill_entry e (ReqPollAdd fd fl) = SubmissionEntry_poll_add e fd fl"
| "fill_entry e (ReqPollRemove ud) = SubmissionEntry_poll_remove e ud"

definition entry_target :: "SubmissionEntry \<Rightarrow> FileDescriptor" where
  "entry_target e =
     (if se_flags e AND SubmissionEntryFlags_FIXED_FILE = 0 then FD (se_fd e) else Fixed (se_fd e))"

definition entry_slice :: "SubmissionEntry \<Rightarrow> fat_ptr" where
  "entry_slice e = \<lparr>fp_ptr = se_addr e, fp_len = ucast (se_len e)\<rparr>"

definition decode_entry :: "SubmissionEntry \<Rightarrow> io_request option" where
  "decode_entry e =
     (case (RawOperation_decode (se_opcode e), IoPriority_try_from (se_ioprio e), se_op_flags e) of
        (Some Readv, Some pr, OpRwFlags fl) \<Rightarrow>
          Some (ReqReadv pr (entry_target e) (se_off e) fl (entry_slice e))
      | (Some Writev, Some pr, OpRwFlags fl) \<Rightarrow>
          Some (ReqWritev pr (entry_target e) (se_off e) fl (entry_slice e))
      | (Some ReadFixed, Some pr, OpRwFlags fl) \<Rightarrow>
          Some (ReqReadFixed pr (entry_target e) (se_off e) fl (ex_buf_index (se_extra e)) (entry_slice e))
      | (Some WriteFixed, Some pr, OpRwFlags fl) \<Rightarrow>
          Some (ReqWriteFixed pr (entry_target e) (se_off e) fl (ex_buf_index (se_extra e)) (entry_slice e))
      | (Some Fsync, _, OpFsyncFlags fl) \<Rightarrow>
          Some (ReqFsync (entry_target e) fl (se_off e) (se_len e))
      | (Some PollAdd, _, OpPollEvents fl) \<Rightarrow> Some (ReqPollAdd (entry_target e) fl)
      | (Some PollRemove, _, _) \<Rightarrow> Some (ReqPollRemove (se_addr e))
      | _ \<Rightarrow> None)"

text \<open>The slice lengths that survive the cast \<open>as u32\<close>.\<close>

primrec request_fits :: "io_request \<Rightarrow> bool" where
  "request_fits (ReqReadv pr fd off fl p) = (unat (fp_len p) < 2 ^ 32)"
| "request_fits (ReqWritev pr fd off fl p) = (unat (fp_len p) < 2 ^ 32)"
| "request_fits (ReqReadFixed pr fd off fl i p) = (unat (fp_len p) < 2 ^ 32)"
| "request_fits (ReqWriteFixed pr fd off fl i p) = (unat (fp_len p) < 2 ^ 32)"
| "request_fits (ReqFsync fd fl off n) = True"
| "request_fits (ReqPollAdd fd fl) = True"
| "request_fits (ReqPollRemove ud) = True"

section \<open>Lemmas on priorities\<close>

lemma unat_level_less: "unat (IoPriorityLevel_as_u8 l) < 8"
  by (cases l) simp_all

lemma level_less_simps [simp]:
  "8 \<le> n \<Longrightarrow> unat (IoPriorityLevel_as_u8 l) < n"
  "8 \<le> n \<Longrightarrow> \<not> n < unat (IoPriorityLevel_as_u8 l)"
  using unat_level_less [of l] by linarith+

lemma unat_IoPriority_bits [simp]:
  "unat (IoPriority_bits PrioNone) = 0"
  "unat (IoPriority_bits (Realtime l)) = 8192 + unat (IoPriorityLevel_as_u8 l)"
  "unat (IoPriority_bits (BestEffort l)) = 16384 + unat (IoPriorityLevel_as_u8 l)"
  "unat (IoPriority_bits Idle) = 24576"
  by (simp, (cases l; simp), (cases l; simp), simp)

lemma IoPriority_less_iff_bits: "IoPriority_less p q \<longleftrightarrow> IoPriority_bits p < IoPriority_bits q"
  by (cases p; cases q)
    (simp_all add: word_less_nat_alt less_IoPriorityLevel_def del: IoPriority_bits.simps)

lemma IoPriorityLevel_try_from_as_u8:
  "IoPriorityLevel_try_from (IoPriorityLevel_as_u8 l) = Some l"
  by (cases l) (simp_all add: IoPriorityLevel_try_from_def)

lemma IoPriority_try_from_into: "IoPriority_try_from (IoPriority_into p) = Some p"
proof (cases p)
  case (Realtime l)
  then show ?thesis
    by (cases l) (simp_all add: IoPriority_try_from_def IoPriority_into_def IoPriorityLevel_try_from_def)
next
  case (BestEffort l)
  then show ?thesis
    by (cases l) (simp_all add: IoPriority_try_from_def IoPriority_into_def IoPriorityLevel_try_from_def)
qed (simp_all add: IoPriority_try_from_def IoPriority_into_def)

lemma IoPriority_bits_inj: "IoPriority_bits p = IoPriority_bits q \<Longrightarrow> p = q"
  by (metis IoPriority_into_def IoPriority_try_from_into option.inject)

instantiation IoPriority :: linorder
begin

definition less_eq_IoPriority :: "IoPriority \<Rightarrow> IoPriority \<Rightarrow> bool" where
  "less_eq_IoPriority p q = (p = q \<or> IoPriority_less p q)"

definition less_IoPriority :: "IoPriority \<Rightarrow> IoPriority \<Rightarrow> bool" where
  "less_IoPriority p q = IoPriority_less p q"

instance
  by standard
    (auto simp: less_eq_IoPriority_def less_IoPriority_def IoPriority_less_iff_bits
       intro: less_trans dest: less_asym IoPriority_bits_inj elim: linorder_cases)

end

section \<open>Lemmas on entries\<close>

declare OperationFlags_from_u32_def [simp] OperationFlags_from_rw_def [simp] OperationFlags_from_fsync_def [simp] OperationFlags_from_poll_def [simp]

lemmas fill_defs = SubmissionEntry_readv_def SubmissionEntry_writev_def
  SubmissionEntry_read_fixed_def SubmissionEntry_write_fixed_def SubmissionEntry_iov_def
  SubmissionEntry_io_fixed_def SubmissionEntry_fsync_def SubmissionEntry_fsync_full_def
  SubmissionEntry_poll_add_def SubmissionEntry_poll_remove_def set_buf_index_def Let_def

lemmas entry_flag_defs = SubmissionEntryFlags_FIXED_FILE_def SubmissionEntryFlags_default_def

lemma set_target_simps [simp]:
  "se_opcode (set_target fd e) = se_opcode e"
  "se_ioprio (set_target fd e) = se_ioprio e"
  "se_off (set_target fd e) = se_off e"
  "se_addr (set_target fd e) = se_addr e"
  "se_len (set_target fd e) = se_len e"
  "se_op_flags (set_target fd e) = se_op_flags e"
  "se_user_data (set_target fd e) = se_user_data e"
  "se_extra (set_target fd e) = se_extra e"
  by (cases fd; simp)+

lemma set_target_fields [simp]:
  "se_fd (set_target fd e) = (case fd of FD n \<Rightarrow> n | Fixed i \<Rightarrow> i)"
  "se_flags (set_target fd e) =
     (case fd of FD n \<Rightarrow> se_flags e | Fixed i \<Rightarrow> se_flags e OR SubmissionEntryFlags_FIXED_FILE)"
  by (cases fd; simp)+

lemma ucast_ucast_len: "unat (n :: u64) < 2 ^ 32 \<Longrightarrow> (ucast (ucast n :: u32) :: u64) = n"
  by (simp add: word_unat_eq_iff unsigned_ucast_eq take_bit_eq_mod unat_mod)

lemma fill_entry_user_data: "se_user_data (fill_entry e r) = se_user_data e"
  by (cases r) (simp_all add: fill_defs)

lemma fill_entry_rest: "ex_rest (se_extra (fill_entry e r)) = ex_rest (se_extra e)"
  by (cases r) (simp_all add: fill_defs)

lemma extra_update_cong:
  "ex_rest x = ex_rest (y :: SubmissionEntryExtraData) \<Longrightarrow> x\<lparr>ex_buf_index := i\<rparr> = y\<lparr>ex_buf_index := i\<rparr>"
  by (cases x; cases y) simp

lemma fill_entry_cong:
  assumes "se_user_data e = se_user_data e'" "ex_rest (se_extra e) = ex_rest (se_extra e')"
  shows "fill_entry e r = fill_entry e' r"
  using assms by (cases r; intro SubmissionEntry.equality)
    (simp_all add: fill_defs extra_update_cong [of "se_extra e" "se_extra e'"] split: FileDescriptor.splits)

lemma decode_fill_entry:
  assumes "request_fits r"
  shows "decode_entry (fill_entry e r) = Some r"
  using assms
  by (cases r)
    (simp_all add: decode_entry_def fill_defs RawOperation_decode_from IoPriority_try_from_into
       entry_target_def entry_slice_def entry_flag_defs ucast_ucast_len split: FileDescriptor.splits)

section \<open>Properties\<close>

lemma IoPriorityLevel_try_from_None_iff: "IoPriorityLevel_try_from v = None \<longleftrightarrow> 7 < v"
proof -
  have "v \<in> {0, 1, 2, 3, 4, 5, 6, 7} \<longleftrightarrow> v \<le> 7"
    by (simp add: word_le_nat_alt word_unat_eq_iff) linarith
  then show ?thesis by (auto simp: IoPriorityLevel_try_from_def split: if_splits)
qed

lemma priority_class_cases:
  fixes c :: u16
  shows "c \<notin> {0, 1, 2, 3} \<longleftrightarrow> 3 < c"
proof -
  have "c \<in> {0, 1, 2, 3} \<longleftrightarrow> c \<le> 3"
    by (simp add: word_le_nat_alt word_unat_eq_iff) linarith
  then show ?thesis by (simp add: not_le)
qed

text \<open>
  Encoding of I/O priorities. Every priority survives \<open>into\<close> followed by \<open>try_from\<close>; decoding
  fails exactly on a class above 3 and, for the real-time and best-effort classes, on a low byte
  above 7. Bits 8 to 12 of an encoded priority never influence the decoded value.
\<close>

theorem io_priority_codec:
  "IoPriority_try_from (IoPriority_into p) = Some p \<and>
   (IoPriority_try_from e = None \<longleftrightarrow>
      3 < drop_bit 13 (prio_bits e) \<or>
      drop_bit 13 (prio_bits e) \<in> {1, 2} \<and> 7 < (ucast (prio_bits e) :: u8)) \<and>
   IoPriority_try_from (EncodedIoPriority (x OR (junk AND 0x1F00))) =
     IoPriority_try_from (EncodedIoPriority x)"
proof (intro conjI)
  show "IoPriority_try_from (IoPriority_into p) = Some p"
    by (rule IoPriority_try_from_into)
  show "(IoPriority_try_from e = None) =
      (3 < drop_bit 13 (prio_bits e) \<or>
       drop_bit 13 (prio_bits e) \<in> {1, 2} \<and> 7 < (ucast (prio_bits e) :: u8))"
    unfolding priority_class_cases [symmetric]
    by (auto simp: IoPriority_try_from_def Let_def split: option.split
        simp flip: IoPriorityLevel_try_from_None_iff)
  have "drop_bit 13 (x OR (junk AND 0x1F00)) = drop_bit 13 x" by simp
  moreover have "(ucast (x OR (junk AND 0x1F00)) :: u8) = ucast x"
  proof -
    have z: "(0x1F00 :: u8) = 0" by simp
    have "(ucast (x OR (junk AND 0x1F00)) :: u8) = ucast x OR (ucast junk AND 0x1F00)"
      by (simp add: unsigned_or_eq unsigned_and_eq)
    then show ?thesis by (simp only: z and_zero_eq or.right_neutral)
    qed
  ultimately show "IoPriority_try_from (EncodedIoPriority (x OR (junk AND 0x1F00))) =
      IoPriority_try_from (EncodedIoPriority x)"
    by (simp only: IoPriority_try_from_def EncodedIoPriority.sel)
qed

text \<open>
  The derived order on priorities (none, then real-time by level, then best-effort by level,
  then idle) is the numeric order of their encodings.
\<close>

theorem io_priority_order: "p < q \<longleftrightarrow> prio_bits (IoPriority_into p) < prio_bits (IoPriority_into q)"
  by (simp add: less_IoPriority_def IoPriority_into_def IoPriority_less_iff_bits)

text \<open>
  C26. Filling and reading back a submission entry. Whatever the slot held before, an entry filled
  for a request reads back as that request (operation, priority, descriptor or registered index,
  offset, flags, slice, buffer index) provided the slice length fits the 32 bit \<open>len\<close> field; the
  \<open>user_data\<close> of the slot is untouched, and filling a cleared slot leaves nothing of its old
  contents.
\<close>

theorem submission_entry_roundtrip:
  assumes "request_fits r"
  shows "decode_entry (fill_entry e r) = Some r \<and>
    se_user_data (fill_entry e r) = se_user_data e \<and>
    fill_entry (SubmissionEntry_clear e) r = fill_entry (SubmissionEntry_clear e') r"
  using assms by (simp add: decode_fill_entry fill_entry_user_data SubmissionEntry_clear_def)

theorem submission_entry_roundtrip_witness:
  "request_fits (ReqReadv Idle (Fixed 3) 512 ReadWriteFlags_HIPRI \<lparr>fp_ptr = 0x1000, fp_len = 2\<rparr>) \<and>
   decode_entry (fill_entry zeroed_entry
     (ReqReadv Idle (Fixed 3) 512 ReadWriteFlags_HIPRI \<lparr>fp_ptr = 0x1000, fp_len = 2\<rparr>)) =
   Some (ReqReadv Idle (Fixed 3) 512 ReadWriteFlags_HIPRI \<lparr>fp_ptr = 0x1000, fp_len = 2\<rparr>)"
  using submission_entry_roundtrip
    [of "ReqReadv Idle (Fixed 3) 512 ReadWriteFlags_HIPRI \<lparr>fp_ptr = 0x1000, fp_len = 2\<rparr>" zeroed_entry zeroed_entry]
  by simp

end
