(* ===== verification/Ring_Spec.thy ===== *)
theory Ring_Spec
  imports Uring_Prelude
begin

text \<open>
  What the two rings promise. A ring carries entries from a producer to a consumer; either side
  takes steps in any order. \<open>transport_run\<close> records the entries the producer put in (\<open>sent\<close>) and
  the entries the consumer took out (\<open>recv\<close>) along an interleaving of such steps. The locale
  \<open>ring_transport\<close> states the laws of one step of either side; from them it follows that entries
  come out exactly once, unchanged, in the order they went in, and that the ring never holds more
  than its capacity. The submission queue (user space produces, the kernel consumes) and the
  completion queue (the kernel produces, user space consumes) are both interpretations.
\<close>

inductive transport_run ::
  "('q \<Rightarrow> 'a list \<Rightarrow> 'q \<Rightarrow> bool) \<Rightarrow> ('q \<Rightarrow> 'a list \<Rightarrow> 'q \<Rightarrow> bool) \<Rightarrow> 'q \<Rightarrow> 'a list \<Rightarrow> 'a list \<Rightarrow> 'q \<Rightarrow> bool"
  for P C
where
  run_start: "transport_run P C q [] [] q"
| run_produce: "transport_run P C q sent recv q' \<Longrightarrow> P q' xs q'' \<Longrightarrow>
    transport_run P C q (sent @ xs) recv q''"
| run_consume: "transport_run P C q sent recv q' \<Longrightarrow> C q' xs q'' \<Longrightarrow>
    transport_run P C q sent (recv @ xs) q''"

lemma transport_run_producer:
  "P q xs q' \<Longrightarrow> transport_run P C q xs [] q'"
  using run_produce [OF run_start] by simp

lemma transport_run_consumer:
  assumes "C q xs q'"
  shows "transport_run P C q [] xs q'"
proof -
  have "transport_run P C q [] ([] @ xs) q'"
    by (rule run_consume) (rule run_start, rule assms)
  then show ?thesis by simp
qed

lemma transport_run_trans:
  assumes "transport_run P C q1 s2 r2 q2" "transport_run P C q0 s1 r1 q1"
  shows "transport_run P C q0 (s1 @ s2) (r1 @ r2) q2"
  using assms
  by (induction rule: transport_run.induct)
    (auto simp flip: append_assoc intro: transport_run.intros)

locale ring_transport =
  fixes inv :: "'q \<Rightarrow> bool"
    and contents :: "'q \<Rightarrow> 'a list"
    and capacity :: "'q \<Rightarrow> nat"
    and producer :: "'q \<Rightarrow> 'a list \<Rightarrow> 'q \<Rightarrow> bool"
    and consumer :: "'q \<Rightarrow> 'a list \<Rightarrow> 'q \<Rightarrow> bool"
  assumes bounded: "inv q \<Longrightarrow> length (contents q) \<le> capacity q"
    and produce_inv: "inv q \<Longrightarrow> producer q xs q' \<Longrightarrow> inv q'"
    and produce_contents: "inv q \<Longrightarrow> producer q xs q' \<Longrightarrow> contents q' = contents q @ xs"
    and produce_capacity: "inv q \<Longrightarrow> producer q xs q' \<Longrightarrow> capacity q' = capacity q"
    and consume_inv: "inv q \<Longrightarrow> consumer q xs q' \<Longrightarrow> inv q'"
    and consume_contents: "inv q \<Longrightarrow> consumer q xs q' \<Longrightarrow> contents q = xs @ contents q'"
    and consume_capacity: "inv q \<Longrightarrow> consumer q xs q' \<Longrightarrow> capacity q' = capacity q"
begin

lemma run_invariant:
  assumes "transport_run producer consumer q sent recv q'" "inv q"
  shows "inv q' \<and> capacity q' = capacity q"
  using assms
  by (induction rule: transport_run.induct)
    (auto dest: produce_inv consume_inv produce_capacity consume_capacity)

lemma run_fifo:
  assumes "transport_run producer consumer q sent recv q'" "inv q"
  shows "contents q @ sent = recv @ contents q'"
  using assms
proof (induction rule: transport_run.induct)
  case (run_produce q sent recv q' xs q'')
  then have "inv q'" by (blast dest: run_invariant)
  with run_produce show ?case by (simp add: produce_contents flip: append_assoc)
next
  case (run_consume q sent recv q' xs q'')
  then have "inv q'" by (blast dest: run_invariant)
  with run_consume show ?case by (simp add: consume_contents)
qed simp

lemma run_exactly_once:
  assumes "transport_run producer consumer q sent recv q'" "inv q" "contents q = []"
  shows "sent = recv @ contents q' \<and> length (contents q') \<le> capacity q"
  using run_fifo [OF assms(1,2)] run_invariant [OF assms(1,2)] bounded [of q'] assms(3) by simp

end

end
