(* ===== verification/Submission_Queue.thy ===== *)
theory Submission_Queue
  imports Ring_Spec Sys_Submission
begin

text \<open>
  The submission queue of \<open>io-uring/src/lib.rs\<close>. The record holds the fields of the Rust struct
  together with the shared memory its pointers designate: \<open>k_head\<close> (written by the kernel),
  \<open>k_tail\<close>, \<open>k_flags\<close>, \<open>k_dropped\<close>, the index array and the array of entries. Every operation
  makes at most one access to a shared counter, so an interleaving with the kernel is a sequence
  of whole operations and kernel steps.
\<close>

section \<open>State and operations\<close>

record SubmissionQueue =
  sq_k_head :: u32
  sq_cached_head :: u32
  sq_k_tail :: u32
  sq_local_tail :: u32
  sq_ring_mask :: u32
  sq_k_flags :: u32
  sq_k_dropped :: u32
  sq_k_array :: "u32 list"
  sq_sces :: "SubmissionEntry list"

definition sq_flush_tail :: "SubmissionQueue \<Rightarrow> SubmissionQueue" where
  "sq_flush_tail q = q\<lparr>sq_k_tail := sq_local_tail q\<rparr>"

definition sq_refresh_head :: "SubmissionQueue \<Rightarrow> SubmissionQueue \<times> u32" where
  "sq_refresh_head q =
     (let q' = q\<lparr>sq_cached_head := sq_k_head q\<rparr> in (q', sq_cached_head q'))"

definition sq_head :: "SubmissionQueue \<Rightarrow> SubmissionQueue \<times> u32" where
  "sq_head q =
     (let q' = (if sq_cached_head q \<noteq> sq_local_tail q \<and>
                   (sq_cached_head q XOR sq_local_tail q) AND sq_ring_mask q = 0
                then fst (sq_refresh_head q) else q)
      in (q', sq_cached_head q'))"

definition sq_is_full :: "SubmissionQueue \<Rightarrow> SubmissionQueue \<times> bool" where
  "sq_is_full q =
     (let (q', head) = sq_head q in
      (q', head \<noteq> sq_local_tail q' \<and>
           (sq_cached_head q' XOR sq_local_tail q') AND sq_ring_mask q' = 0))"

text \<open>\<open>from_bits_truncate\<close> of the \<open>bitflags\<close> crate is the parameter \<open>bf_truncate\<close> (all flags, bits).\<close>

definition sq_flags :: "(u32 \<Rightarrow> u32 \<Rightarrow> u32) \<Rightarrow> SubmissionQueue \<Rightarrow> u32" where
  "sq_flags bf_truncate q =
     bf_truncate (SubmissionQueueFlags_NEED_WAKEUP OR SubmissionQueueFlags_ALL) (sq_k_flags q)"

definition sq_dropped :: "SubmissionQueue \<Rightarrow> u32" where
  "sq_dropped q = sq_k_dropped q"

definition sq_has_pending_submissions :: "SubmissionQueue \<Rightarrow> SubmissionQueue \<times> bool" where
  "sq_has_pending_submissions q =
     (let (q', head) = sq_refresh_head q in (q', head \<noteq> sq_local_tail q'))"

definition sq_pending_submissions ::
  "profile \<Rightarrow> SubmissionQueue \<Rightarrow> (SubmissionQueue \<times> u32) outcome"
where
  "sq_pending_submissions p q =
     (let (q', head) = sq_refresh_head q in
      obind (rust_sub p (sq_local_tail q) head) (\<lambda>n. Done (q', n)))"

datatype 'e SubmissionError = QueueFull | FillError 'e

text \<open>Its \<open>Display\<close>, given that of the inner error, and \<open>Error::source\<close>.\<close>

definition SubmissionError_fmt :: "('e \<Rightarrow> string) \<Rightarrow> 'e SubmissionError \<Rightarrow> string" where
  "SubmissionError_fmt fmt e = (case e of
       QueueFull \<Rightarrow> ''submission error: queue full'' | FillError e \<Rightarrow> ''submission error: '' @ fmt e)"

definition SubmissionError_source :: "'e SubmissionError \<Rightarrow> 'e option" where
  "SubmissionError_source e = (case e of QueueFull \<Rightarrow> None | FillError e \<Rightarrow> Some e)"

text \<open>
  \<open>BulkSubmission::submit_with\<close>. The closure gets the slot as \<open>&mut SubmissionEntry\<close> and may act
  on state of its caller (\<open>'s\<close>); it returns the state, the entry it leaves behind and its
  \<open>Result\<close>, or panics. The slot is reached through a raw pointer: an index outside the mapped
  entries is undefined behaviour.
\<close>

type_synonym ('s, 'e) filler = "'s \<Rightarrow> SubmissionEntry \<Rightarrow> ('s \<times> SubmissionEntry \<times> (unit, 'e) rresult) outcome"

definition bulk_is_full :: "SubmissionQueue \<Rightarrow> SubmissionQueue \<times> bool" where
  "bulk_is_full q = sq_is_full q"

definition bulk_submit_with ::
  "SubmissionQueue \<Rightarrow> ('s, 'e) filler \<Rightarrow> 's \<Rightarrow> (SubmissionQueue \<times> 's \<times> (unit, 'e SubmissionError) rresult) outcome"
where
  "bulk_submit_with q f s =
     (let (q, full) = bulk_is_full q in
      if full then Done (q, s, Err QueueFull)
      else
        let ndx = sq_local_tail q;
            i = unat (ndx AND sq_ring_mask q) in
        if length (sq_sces q) \<le> i then Undefined ''submission entry out of bounds''
        else
          let entry = SubmissionEntry_clear (sq_sces q ! i) in
          obind (f s entry) (\<lambda>(s, entry, r).
            let q = q\<lparr>sq_sces := (sq_sces q)[i := entry]\<rparr> in
            case r of
              Err e \<Rightarrow> Done (q, s, Err (FillError e))
            | Ok _ \<Rightarrow> Done (q\<lparr>sq_local_tail := ndx + 1\<rparr>, s, Ok ())))"

text \<open>Dropping a \<open>BulkSubmission\<close> publishes the staged entries.\<close>

definition bulk_drop :: "SubmissionQueue \<Rightarrow> SubmissionQueue" where
  "bulk_drop q = sq_flush_tail q"

text \<open>The statement \<open>queue.bulk().submit_with(f)\<close>: the temporary is dropped on every path.\<close>

definition sq_submit_one ::
  "SubmissionQueue \<Rightarrow> ('s, 'e) filler \<Rightarrow> 's \<Rightarrow> (SubmissionQueue \<times> 's \<times> (unit, 'e SubmissionError) rresult) outcome"
where
  "sq_submit_one q f s =
     obind (bulk_submit_with q f s) (\<lambda>(q, s, r). Done (bulk_drop q, s, r))"

section \<open>Invariant and abstraction\<close>

text \<open>
  The counters stand in the order cached head, head, published tail, local tail, and together span
  at most the ring size, a power of two below \<open>2 ^ 32\<close>. The index array is the identity.
\<close>

definition ring_size :: "u32 \<Rightarrow> nat" where
  "ring_size m = Suc (unat m)"

definition sq_wf :: "SubmissionQueue \<Rightarrow> bool" where
  "sq_wf q \<longleftrightarrow>
     (\<exists>k<32. sq_ring_mask q = mask k \<and> length (sq_sces q) = 2 ^ k \<and>
        ring_dist (sq_cached_head q) (sq_k_head q) + ring_dist (sq_k_head q) (sq_k_tail q) +
          ring_dist (sq_k_tail q) (sq_local_tail q) \<le> 2 ^ k) \<and>
     sq_k_array q = map of_nat [0..<length (sq_sces q)]"

text \<open>
  The entry the kernel finds for counter \<open>x\<close>: through the index array. \<open>sq_contents\<close> lists the
  entries between head and local tail, \<open>sq_published\<close> those the kernel may already take.
\<close>

definition sq_entry_at :: "SubmissionQueue \<Rightarrow> u32 \<Rightarrow> SubmissionEntry" where
  "sq_entry_at q x = sq_sces q ! unat (sq_k_array q ! slot (sq_ring_mask q) x)"

definition sq_contents :: "SubmissionQueue \<Rightarrow> SubmissionEntry list" where
  "sq_contents q =
     map (\<lambda>i. sq_entry_at q (sq_k_head q + of_nat i)) [0..<ring_dist (sq_k_head q) (sq_local_tail q)]"

definition sq_published :: "SubmissionQueue \<Rightarrow> SubmissionEntry list" where
  "sq_published q = take (ring_dist (sq_k_head q) (sq_k_tail q)) (sq_contents q)"

definition sq_capacity :: "SubmissionQueue \<Rightarrow> nat" where
  "sq_capacity q = length (sq_sces q)"

text \<open>The effect of staging an entry at the local tail, and of a closure that fails after writing.\<close>

definition sq_scribble :: "SubmissionQueue \<Rightarrow> SubmissionEntry \<Rightarrow> SubmissionQueue" where
  "sq_scribble q e = q\<lparr>sq_sces := (sq_sces q)[slot (sq_ring_mask q) (sq_local_tail q) := e]\<rparr>"

definition sq_stage :: "SubmissionQueue \<Rightarrow> SubmissionEntry \<Rightarrow> SubmissionQueue" where
  "sq_stage q e = (sq_scribble q e)\<lparr>sq_local_tail := sq_local_tail q + 1\<rparr>"

section \<open>Abstract specification\<close>

text \<open>
  A bounded queue in two parts: entries the consumer may take and entries staged behind them.
  \<open>sq_abs\<close> reads a submission queue as such a queue.
\<close>

record spec_queue =
  spec_published :: "SubmissionEntry list"
  spec_staged :: "SubmissionEntry list"
  spec_capacity :: nat

definition spec_full :: "spec_queue \<Rightarrow> bool" where
  "spec_full a \<longleftrightarrow> length (spec_published a) + length (spec_staged a) = spec_capacity a"

definition spec_submit :: "spec_queue \<Rightarrow> ('s, 'e) filler \<Rightarrow> 's \<Rightarrow>
    (spec_queue \<times> 's \<times> (unit, 'e SubmissionError) rresult) outcome" where
  "spec_submit a f s =
     (if spec_full a then Done (a, s, Err QueueFull)
      else obind (f s zeroed_entry) (\<lambda>(s, e, r). case r of
             Ok _ \<Rightarrow> Done (a\<lparr>spec_staged := spec_staged a @ [e]\<rparr>, s, Ok ())
           | Err x \<Rightarrow> Done (a, s, Err (FillError x))))"

definition spec_publish :: "spec_queue \<Rightarrow> spec_queue" where
  "spec_publish a = a\<lparr>spec_published := spec_published a @ spec_staged a, spec_staged := []\<rparr>"

definition sq_abs :: "SubmissionQueue \<Rightarrow> spec_queue" where
  "sq_abs q = \<lparr>spec_published = sq_published q,
     spec_staged = drop (ring_dist (sq_k_head q) (sq_k_tail q)) (sq_contents q),
     spec_capacity = sq_capacity q\<rparr>"

section \<open>Interleaving with the kernel\<close>

text \<open>
  The kernel's side of the protocol, as the comments of \<open>SubmissionQueueRingOffsets\<close> state it:
  it takes the entry the index array designates at \<open>head\<close> while \<open>head\<close> has not reached the
  published tail and then increments \<open>head\<close>; an index out of bounds is dropped and counted; it
  may change the flags at any time. The list is what the kernel got to see.
\<close>

inductive sq_kernel_step :: "SubmissionQueue \<Rightarrow> SubmissionEntry list \<Rightarrow> SubmissionQueue \<Rightarrow> bool" where
  kernel_take: "sq_k_head q \<noteq> sq_k_tail q \<Longrightarrow>
    unat (sq_k_array q ! slot (sq_ring_mask q) (sq_k_head q)) < length (sq_sces q) \<Longrightarrow>
    sq_kernel_step q [sq_entry_at q (sq_k_head q)] (q\<lparr>sq_k_head := sq_k_head q + 1\<rparr>)"
| kernel_drop_invalid: "sq_k_head q \<noteq> sq_k_tail q \<Longrightarrow>
    length (sq_sces q) \<le> unat (sq_k_array q ! slot (sq_ring_mask q) (sq_k_head q)) \<Longrightarrow>
    sq_kernel_step q [] (q\<lparr>sq_k_head := sq_k_head q + 1, sq_k_dropped := sq_k_dropped q + 1\<rparr>)"
| kernel_set_flags: "sq_kernel_step q [] (q\<lparr>sq_k_flags := f\<rparr>)"

text \<open>The user's side: any operation of the queue; the list is what was submitted.\<close>

inductive sq_user_step :: "SubmissionQueue \<Rightarrow> SubmissionEntry list \<Rightarrow> SubmissionQueue \<Rightarrow> bool" where
  user_submit: "bulk_submit_with q (\<lambda>s _. Done (s, e, Ok ())) () =
      Done (q', (), (Ok () :: (unit, unit SubmissionError) rresult)) \<Longrightarrow> sq_user_step q [e] q'"
| user_submit_full: "bulk_submit_with q (\<lambda>s _. Done (s, e, Ok ())) () =
      Done (q', (), (Err x :: (unit, unit SubmissionError) rresult)) \<Longrightarrow> sq_user_step q [] q'"
| user_submit_failing: "bulk_submit_with q (\<lambda>s _. Done (s, e, Err ())) () = Done (q', (), r) \<Longrightarrow>
    sq_user_step q [] q'"
| user_publish: "sq_user_step q [] (bulk_drop q)"
| user_is_full: "sq_user_step q [] (fst (sq_is_full q))"
| user_has_pending: "sq_user_step q [] (fst (sq_has_pending_submissions q))"
| user_pending: "sq_pending_submissions p q = Done (q', n) \<Longrightarrow> sq_user_step q [] q'"

text \<open>A queue in which nothing is staged or pending, with all counters at \<open>c\<close>.\<close>

definition sq_idle_at :: "SubmissionQueue \<Rightarrow> u32 \<Rightarrow> bool" where
  "sq_idle_at q c \<longleftrightarrow> sq_wf q \<and> sq_k_head q = c \<and> sq_k_tail q = c \<and> sq_local_tail q = c"

text \<open>A concrete queue of two slots whose counters are about to wrap, and a closure that fills an
  entry for a poll; both serve as example inputs.\<close>

definition sample_sq :: SubmissionQueue where
  "sample_sq = \<lparr>sq_k_head = - 1, sq_cached_head = - 1, sq_k_tail = - 1, sq_local_tail = - 1,
     sq_ring_mask = 1, sq_k_flags = 0, sq_k_dropped = 0, sq_k_array = [0, 1],
     sq_sces = [zeroed_entry, zeroed_entry]\<rparr>"

definition sample_filler :: "(nat, unit) filler" where
  "sample_filler s e = Done (s, SubmissionEntry_poll_add e (FD 5) 1, Ok ())"

section \<open>Lemmas\<close>

lemmas sq_op_defs = sq_flush_tail_def sq_refresh_head_def sq_head_def sq_is_full_def
  sq_has_pending_submissions_def sq_pending_submissions_def bulk_is_full_def bulk_drop_def Let_def

lemma sq_wfE:
  assumes "sq_wf q"
  obtains k where "k < 32" "sq_ring_mask q = mask k" "length (sq_sces q) = 2 ^ k"
    "ring_dist (sq_cached_head q) (sq_k_head q) + ring_dist (sq_k_head q) (sq_k_tail q) +
       ring_dist (sq_k_tail q) (sq_local_tail q) \<le> 2 ^ k"
    "sq_k_array q = map of_nat [0..<2 ^ k]"
  using assms unfolding sq_wf_def by metis

lemma sq_index_identity:
  assumes "sq_wf q"
  shows "unat (sq_k_array q ! slot (sq_ring_mask q) x) = slot (sq_ring_mask q) x"
proof -
  obtain k where k: "k < 32" "sq_ring_mask q = mask k" "sq_k_array q = map of_nat [0..<2 ^ k]"
    using assms by (rule sq_wfE)
  have s: "slot (mask k) x < 2 ^ k" by (rule slot_mask_less)
  then have "slot (mask k) x < 2 ^ 32" using exp_less_u32 [OF k(1)] by simp
  with k s show ?thesis by (simp add: unsigned_of_nat take_bit_nat_eq_self)
qed


lemma sq_entry_at_eq: "sq_wf q \<Longrightarrow> sq_entry_at q x = sq_sces q ! slot (sq_ring_mask q) x"
  by (simp add: sq_entry_at_def sq_index_identity)

lemma sq_contents_eq:
  assumes "sq_wf q"
  shows "sq_contents q = ring_view (sq_sces q) (sq_ring_mask q) (sq_k_head q)
    (ring_dist (sq_k_head q) (sq_local_tail q))"
  using assms by (simp add: sq_contents_def ring_view_def sq_entry_at_eq)

lemma length_sq_contents: "length (sq_contents q) = ring_dist (sq_k_head q) (sq_local_tail q)"
  by (simp add: sq_contents_def)

lemma sq_contents_bounded: "sq_wf q \<Longrightarrow> length (sq_contents q) \<le> sq_capacity q"
proof (erule sq_wfE)
  fix k
  assume k: "k < 32" "length (sq_sces q) = 2 ^ k"
    and d: "ring_dist (sq_cached_head q) (sq_k_head q) + ring_dist (sq_k_head q) (sq_k_tail q) +
       ring_dist (sq_k_tail q) (sq_local_tail q) \<le> 2 ^ k"
  from ring_chain3 [OF d k(1)] d k(2) show ?thesis
    by (simp add: length_sq_contents sq_capacity_def)
qed

text \<open>The cached head may only be replaced by the current head: nothing observable changes.\<close>

lemma sq_refresh_wf: "sq_wf q \<Longrightarrow> sq_wf (q\<lparr>sq_cached_head := sq_k_head q\<rparr>)"
  by (auto simp: sq_wf_def)

lemma sq_cached_update_simps [simp]:
  "sq_contents (q\<lparr>sq_cached_head := c\<rparr>) = sq_contents q"
  "sq_published (q\<lparr>sq_cached_head := c\<rparr>) = sq_published q"
  "sq_capacity (q\<lparr>sq_cached_head := c\<rparr>) = sq_capacity q"
  by (simp_all add: sq_contents_def sq_published_def sq_capacity_def sq_entry_at_def)

lemma sq_is_full_state:
  "fst (sq_is_full q) = q \<or> fst (sq_is_full q) = q\<lparr>sq_cached_head := sq_k_head q\<rparr>"
  by (simp add: sq_op_defs)

lemma sq_is_full_frame:
  assumes "sq_is_full q = (q', b)"
  shows "sq_contents q' = sq_contents q" "sq_published q' = sq_published q"
    "sq_capacity q' = sq_capacity q" "sq_k_head q' = sq_k_head q" "sq_k_tail q' = sq_k_tail q"
    "sq_local_tail q' = sq_local_tail q" "sq_ring_mask q' = sq_ring_mask q"
    "sq_sces q' = sq_sces q" "sq_k_array q' = sq_k_array q"
    "sq_k_flags q' = sq_k_flags q" "sq_k_dropped q' = sq_k_dropped q"
  using sq_is_full_state [of q] assms by auto

lemma sq_is_full_wf: "sq_wf q \<Longrightarrow> sq_is_full q = (q', b) \<Longrightarrow> sq_wf q'"
  using sq_is_full_state [of q] sq_refresh_wf by auto

lemma sq_is_full_eq:
  "sq_is_full q =
     (if sq_cached_head q \<noteq> sq_local_tail q \<and>
         (sq_cached_head q XOR sq_local_tail q) AND sq_ring_mask q = 0
      then (q\<lparr>sq_cached_head := sq_k_head q\<rparr>,
            sq_k_head q \<noteq> sq_local_tail q \<and>
            (sq_k_head q XOR sq_local_tail q) AND sq_ring_mask q = 0)
      else (q, False))"
proof (cases "sq_cached_head q \<noteq> sq_local_tail q \<and>
    (sq_cached_head q XOR sq_local_tail q) AND sq_ring_mask q = 0")
  case True
  then have "sq_head q = (q\<lparr>sq_cached_head := sq_k_head q\<rparr>, sq_k_head q)"
    by (simp add: sq_head_def sq_refresh_head_def)
  with True show ?thesis by (simp add: sq_is_full_def)
next
  case False
  then have "sq_head q = (q, sq_cached_head q)"
    by (simp only: sq_head_def if_False Let_def)
  with False show ?thesis by (auto simp: sq_is_full_def)
qed

lemma sq_is_full_exact:
  assumes "sq_wf q" "sq_is_full q = (q', b)"
  shows "b \<longleftrightarrow> length (sq_contents q) = sq_capacity q"
proof -
  obtain k where k: "k < 32" "sq_ring_mask q = mask k" "length (sq_sces q) = 2 ^ k"
    and d: "ring_dist (sq_cached_head q) (sq_k_head q) + ring_dist (sq_k_head q) (sq_k_tail q) +
       ring_dist (sq_k_tail q) (sq_local_tail q) \<le> 2 ^ k"
    using assms(1) by (rule sq_wfE)
  let ?c = "sq_cached_head q" and ?h = "sq_k_head q" and ?t = "sq_local_tail q"
  have k': "k < LENGTH(32)" using k(1) by simp
  note ct = ring_chain3 [OF d k(1)]
  have full_c: "(?c \<noteq> ?t \<and> (?c XOR ?t) AND mask k = 0) \<longleftrightarrow> ring_dist ?c ?t = 2 ^ k"
    by (rule ring_full_iff) (use ct d k' in simp_all)
  have full_h: "(?h \<noteq> ?t \<and> (?h XOR ?t) AND mask k = 0) \<longleftrightarrow> ring_dist ?h ?t = 2 ^ k"
    by (rule ring_full_iff) (use ct d k' in simp_all)
  have b: "b \<longleftrightarrow> (if ring_dist ?c ?t = 2 ^ k then ring_dist ?h ?t = 2 ^ k else False)"
    using assms(2) unfolding sq_is_full_eq k(2) full_c full_h by (simp split: if_splits)
  have "ring_dist ?c ?t \<noteq> 2 ^ k \<Longrightarrow> ring_dist ?h ?t \<noteq> 2 ^ k" using ct d by linarith
  with b have "b \<longleftrightarrow> ring_dist ?h ?t = 2 ^ k" by (simp split: if_splits)
  then show ?thesis by (simp add: length_sq_contents sq_capacity_def k)
qed

lemma sq_slot_in_range: "sq_wf q \<Longrightarrow> slot (sq_ring_mask q) x < length (sq_sces q)"
  by (erule sq_wfE) (simp add: slot_mask_less)

lemma sq_not_full_room:
  assumes "sq_wf q" "sq_is_full q = (q', False)"
  shows "ring_dist (sq_cached_head q') (sq_local_tail q') < sq_capacity q'"
proof -
  have wf': "sq_wf q'" using assms by (rule sq_is_full_wf)
  then obtain k where k: "k < 32" "sq_ring_mask q' = mask k" "length (sq_sces q') = 2 ^ k"
    and d: "ring_dist (sq_cached_head q') (sq_k_head q') + ring_dist (sq_k_head q') (sq_k_tail q') +
       ring_dist (sq_k_tail q') (sq_local_tail q') \<le> 2 ^ k"
    by (rule sq_wfE)
  have le: "ring_dist (sq_cached_head q') (sq_local_tail q') \<le> 2 ^ k"
    using ring_chain3(2) [OF d k(1)] d by simp
  have "\<not> (sq_cached_head q' \<noteq> sq_local_tail q' \<and>
      (sq_cached_head q' XOR sq_local_tail q') AND sq_ring_mask q' = 0)"
    using assms(2) unfolding sq_is_full_eq by (auto split: if_splits)
  then have "ring_dist (sq_cached_head q') (sq_local_tail q') \<noteq> 2 ^ k"
    using ring_full_iff [OF le] k(1,2) by simp
  with le k(3) show ?thesis by (simp add: sq_capacity_def)
qed

lemma sq_scribble_wf: "sq_wf q \<Longrightarrow> sq_wf (sq_scribble q e)"
  by (simp add: sq_wf_def sq_scribble_def)

text \<open>Both effects on the abstract contents; room in the ring is what protects the old entries.\<close>

lemma sq_stage_contents:
  assumes wf: "sq_wf q" and room: "ring_dist (sq_cached_head q) (sq_local_tail q) < sq_capacity q"
  shows "sq_wf (sq_stage q e)" "sq_contents (sq_stage q e) = sq_contents q @ [e]"
    "sq_contents (sq_scribble q e) = sq_contents q"
    "sq_published (sq_stage q e) = sq_published q"
proof -
  obtain k where k: "k < 32" "sq_ring_mask q = mask k" "length (sq_sces q) = 2 ^ k"
    and d: "ring_dist (sq_cached_head q) (sq_k_head q) + ring_dist (sq_k_head q) (sq_k_tail q) +
       ring_dist (sq_k_tail q) (sq_local_tail q) \<le> 2 ^ k"
    and arr: "sq_k_array q = map of_nat [0..<2 ^ k]"
    using wf by (rule sq_wfE)
  note ch = ring_chain3 [OF d k(1)]
  have room': "ring_dist (sq_cached_head q) (sq_local_tail q) < 2 ^ k"
    using room k by (simp add: sq_capacity_def)
  have lim: "(2 :: nat) ^ k < 2 ^ LENGTH(32)" by (rule exp_less_u32 [OF k(1)])
  have step_kt: "ring_dist (sq_k_tail q) (sq_local_tail q + 1) =
      Suc (ring_dist (sq_k_tail q) (sq_local_tail q))"
    by (rule ring_dist_Suc_right) (use ch room' lim in linarith)
  have step_h: "ring_dist (sq_k_head q) (sq_local_tail q + 1) =
      Suc (ring_dist (sq_k_head q) (sq_local_tail q))"
    by (rule ring_dist_Suc_right) (use ch room' lim in linarith)
  show wf': "sq_wf (sq_stage q e)"
    unfolding sq_wf_def using k arr step_kt ch room'
    by (auto simp: sq_stage_def sq_scribble_def intro!: exI [of _ k])
  have n: "ring_dist (sq_k_head q) (sq_local_tail q) < 2 ^ k" using ch room' by linarith
  have tail: "sq_local_tail q = sq_k_head q + of_nat (ring_dist (sq_k_head q) (sq_local_tail q))"
    by (simp add: ring_dist_add)
  have k': "k \<le> LENGTH(32)" using k(1) by simp
  show stage: "sq_contents (sq_stage q e) = sq_contents q @ [e]"
    using ring_view_push [OF k' k(3) n, of "sq_k_head q" e] step_h k(2)
    by (simp add: sq_contents_eq wf wf') (simp add: sq_stage_def sq_scribble_def ring_dist_add)
  show "sq_contents (sq_scribble q e) = sq_contents q"
    using ring_view_scribble [OF k' k(3) n, of "sq_k_head q" e] k(2)
    by (simp add: sq_contents_eq wf sq_scribble_wf) (simp add: sq_scribble_def ring_dist_add)
  show "sq_published (sq_stage q e) = sq_published q"
    using ch by (simp add: sq_published_def stage length_sq_contents) (simp add: sq_stage_def sq_scribble_def)
qed

lemma sq_stage_frame [simp]:
  "sq_k_head (sq_stage q e) = sq_k_head q" "sq_k_tail (sq_stage q e) = sq_k_tail q"
  "sq_local_tail (sq_stage q e) = sq_local_tail q + 1" "sq_capacity (sq_stage q e) = sq_capacity q"
  "sq_k_dropped (sq_stage q e) = sq_k_dropped q"
  "sq_k_head (sq_scribble q e) = sq_k_head q" "sq_k_tail (sq_scribble q e) = sq_k_tail q"
  "sq_local_tail (sq_scribble q e) = sq_local_tail q" "sq_capacity (sq_scribble q e) = sq_capacity q"
  "sq_k_dropped (sq_scribble q e) = sq_k_dropped q"
  by (simp_all add: sq_stage_def sq_scribble_def sq_capacity_def)

text \<open>\<open>submit_with\<close> in terms of the two effects.\<close>

lemma bulk_submit_with_eq:
  assumes "sq_wf q" "sq_is_full q = (q', b)"
  shows "bulk_submit_with q f s =
    (if b then Done (q', s, Err QueueFull)
     else obind (f s zeroed_entry) (\<lambda>(s, e, r). case r of
            Err x \<Rightarrow> Done (sq_scribble q' e, s, Err (FillError x))
          | Ok _ \<Rightarrow> Done (sq_stage q' e, s, Ok ())))"
proof -
  have "\<not> length (sq_sces q') \<le> unat (sq_local_tail q' AND sq_ring_mask q')"
    using sq_slot_in_range [OF sq_is_full_wf [OF assms], of "sq_local_tail q'"]
    by (simp add: slot_def)
  with assms(2) show ?thesis
    by (cases "f s zeroed_entry")
      (auto simp: bulk_submit_with_def bulk_is_full_def SubmissionEntry_clear_def Let_def
        sq_stage_def sq_scribble_def slot_def split: rresult.split)
qed

lemma sq_published_length: "sq_wf q \<Longrightarrow>
    length (sq_published q) = ring_dist (sq_k_head q) (sq_k_tail q)"
proof (erule sq_wfE)
  fix k
  assume k: "k < 32"
    and d: "ring_dist (sq_cached_head q) (sq_k_head q) + ring_dist (sq_k_head q) (sq_k_tail q) +
       ring_dist (sq_k_tail q) (sq_local_tail q) \<le> 2 ^ k"
  from ring_chain3(1) [OF d k] show ?thesis
    by (simp add: sq_published_def length_sq_contents)
qed

lemma sq_published_append: "sq_contents q =
    sq_published q @ drop (ring_dist (sq_k_head q) (sq_k_tail q)) (sq_contents q)"
  by (simp add: sq_published_def)

lemma spec_full_abs: "spec_full (sq_abs q) \<longleftrightarrow> length (sq_contents q) = sq_capacity q"
proof -
  have "length (sq_contents q) = length (sq_published q) +
      length (drop (ring_dist (sq_k_head q) (sq_k_tail q)) (sq_contents q))"
    by (subst sq_published_append) (simp only: length_append)
  then show ?thesis by (simp add: spec_full_def sq_abs_def)
qed

lemma sq_is_full_abs: "sq_is_full q = (q', b) \<Longrightarrow> sq_abs q' = sq_abs q"
  by (simp add: sq_abs_def sq_is_full_frame)

lemma sq_stage_abs:
  assumes "sq_wf q" "ring_dist (sq_cached_head q) (sq_local_tail q) < sq_capacity q"
  shows "sq_abs (sq_stage q e) = (sq_abs q)\<lparr>spec_staged := spec_staged (sq_abs q) @ [e]\<rparr>"
    and "sq_abs (sq_scribble q e) = sq_abs q"
proof -
  have "ring_dist (sq_k_head q) (sq_k_tail q) \<le> length (sq_contents q)"
    using sq_published_length [OF assms(1)] by (simp add: sq_published_def)
  then show "sq_abs (sq_stage q e) = (sq_abs q)\<lparr>spec_staged := spec_staged (sq_abs q) @ [e]\<rparr>"
    using sq_stage_contents [OF assms, of e] by (simp add: sq_abs_def)
  show "sq_abs (sq_scribble q e) = sq_abs q"
    using sq_stage_contents(3) [OF assms, of e] by (simp add: sq_abs_def sq_published_def)
qed

lemma bulk_submit_wf:
  assumes "sq_wf q" "bulk_submit_with q f s = Done (q', s', r)"
  shows "sq_wf q'"
proof -
  obtain q1 b where full: "sq_is_full q = (q1, b)" by fastforce
  have wf1: "sq_wf q1" by (rule sq_is_full_wf [OF assms(1) full])
  show ?thesis
  proof (cases b)
    case True
    with assms(2) wf1 show ?thesis by (simp add: bulk_submit_with_eq [OF assms(1) full])
  next
    case False
    with full have room: "ring_dist (sq_cached_head q1) (sq_local_tail q1) < sq_capacity q1"
      using sq_not_full_room [OF assms(1)] by simp
    from False assms(2) show ?thesis
      by (cases "f s zeroed_entry") (auto simp: bulk_submit_with_eq [OF assms(1) full] sq_scribble_wf wf1
          sq_stage_contents(1) [OF wf1 room] split: rresult.splits)
  qed
qed

lemma bulk_submit_abs:
  assumes "sq_wf q"
  shows "map_outcome (\<lambda>(q, s, r). (sq_abs q, s, r)) (bulk_submit_with q f s) = spec_submit (sq_abs q) f s"
proof -
  obtain q1 b where full: "sq_is_full q = (q1, b)" by fastforce
  have wf1: "sq_wf q1" by (rule sq_is_full_wf [OF assms full])
  have b: "b \<longleftrightarrow> spec_full (sq_abs q)"
    using sq_is_full_exact [OF assms full] by (simp add: spec_full_abs)
  show ?thesis
  proof (cases b)
    case True
    with b show ?thesis
      by (simp add: bulk_submit_with_eq [OF assms full] spec_submit_def
          sq_is_full_abs [OF full])
  next
    case False
    with full have room: "ring_dist (sq_cached_head q1) (sq_local_tail q1) < sq_capacity q1"
      using sq_not_full_room [OF assms] by simp
    show ?thesis
      using False b
      by (cases "f s zeroed_entry")
        (auto simp: bulk_submit_with_eq [OF assms full] spec_submit_def
          sq_is_full_abs [OF full] sq_stage_abs [OF wf1 room] split: rresult.splits)
  qed
qed

lemma bulk_drop_abs:
  assumes "sq_wf q"
  shows "sq_wf (bulk_drop q)" "sq_abs (bulk_drop q) = spec_publish (sq_abs q)"
    "sq_contents (bulk_drop q) = sq_contents q" "sq_capacity (bulk_drop q) = sq_capacity q"
proof -
  obtain k where k: "k < 32"
    and d: "ring_dist (sq_cached_head q) (sq_k_head q) + ring_dist (sq_k_head q) (sq_k_tail q) +
       ring_dist (sq_k_tail q) (sq_local_tail q) \<le> 2 ^ k"
    using assms by (rule sq_wfE)
  show "sq_wf (bulk_drop q)"
    using assms ring_chain3(1) [OF d k] unfolding sq_wf_def
    by (auto simp: bulk_drop_def sq_flush_tail_def add.assoc)
  show same: "sq_contents (bulk_drop q) = sq_contents q" "sq_capacity (bulk_drop q) = sq_capacity q"
    by (simp_all add: bulk_drop_def sq_flush_tail_def sq_contents_def sq_entry_at_def sq_capacity_def)
  show "sq_abs (bulk_drop q) = spec_publish (sq_abs q)"
    using same sq_published_append [of q]
    by (simp add: sq_abs_def spec_publish_def sq_published_def bulk_drop_def sq_flush_tail_def
        length_sq_contents)
qed

section \<open>Laws of the two sides\<close>

inductive_cases sq_kernel_stepE: "sq_kernel_step q xs q'"
inductive_cases sq_user_stepE: "sq_user_step q xs q'"

lemma sq_index_valid: "sq_wf q \<Longrightarrow> unat (sq_k_array q ! slot (sq_ring_mask q) x) < length (sq_sces q)"
  by (simp add: sq_index_identity sq_slot_in_range)

lemma sq_take_laws:
  assumes wf: "sq_wf q" and ne: "sq_k_head q \<noteq> sq_k_tail q"
  defines "q' \<equiv> q\<lparr>sq_k_head := sq_k_head q + 1\<rparr>"
  shows "sq_wf q'" "sq_contents q = sq_entry_at q (sq_k_head q) # sq_contents q'"
proof -
  obtain k where k: "k < 32" "sq_ring_mask q = mask k" "length (sq_sces q) = 2 ^ k"
    and d: "ring_dist (sq_cached_head q) (sq_k_head q) + ring_dist (sq_k_head q) (sq_k_tail q) +
       ring_dist (sq_k_tail q) (sq_local_tail q) \<le> 2 ^ k"
    and arr: "sq_k_array q = map of_nat [0..<2 ^ k]"
    using wf by (rule sq_wfE)
  note ch = ring_chain3 [OF d k(1)]
  have lim: "(2 :: nat) ^ k < 2 ^ LENGTH(32)" by (rule exp_less_u32 [OF k(1)])
  have kt: "ring_dist (sq_k_head q) (sq_k_tail q) = Suc (ring_dist (sq_k_head q + 1) (sq_k_tail q))"
    using ne by (rule ring_dist_Suc_left)
  have "sq_k_head q \<noteq> sq_local_tail q"
    using ne ch by (metis add_is_0 ring_dist_eq_0_iff)
  then have lt: "ring_dist (sq_k_head q) (sq_local_tail q) = Suc (ring_dist (sq_k_head q + 1) (sq_local_tail q))"
    by (rule ring_dist_Suc_left)
  have c: "ring_dist (sq_cached_head q) (sq_k_head q + 1) = Suc (ring_dist (sq_cached_head q) (sq_k_head q))"
    by (rule ring_dist_Suc_right) (use d kt lim in linarith)
  show wf': "sq_wf q'"
    unfolding sq_wf_def q'_def using k arr c kt d by (auto intro!: exI [of _ k])
  show "sq_contents q = sq_entry_at q (sq_k_head q) # sq_contents q'"
    unfolding sq_contents_eq [OF wf] sq_contents_eq [OF wf'] sq_entry_at_eq [OF wf]
    by (simp add: q'_def lt ring_view_pop)
qed

lemma sq_kernel_step_laws:
  assumes "sq_wf q" "sq_kernel_step q xs q'"
  shows "sq_wf q' \<and> sq_contents q = xs @ sq_contents q' \<and> sq_capacity q' = sq_capacity q \<and>
    sq_k_dropped q' = sq_k_dropped q"
  using assms(2)
proof (cases rule: sq_kernel_step.cases)
  case kernel_take
  with sq_take_laws [OF assms(1)] show ?thesis by (simp add: sq_capacity_def)
next
  case kernel_drop_invalid
  with sq_index_valid [OF assms(1)] show ?thesis by (simp add: not_less [symmetric])
next
  case (kernel_set_flags f)
  with assms(1) show ?thesis
    by (simp add: sq_wf_def sq_contents_def sq_entry_at_def sq_capacity_def)
qed

lemma sq_pending_Done:
  "sq_pending_submissions p q = Done (q', n) \<Longrightarrow> q' = q\<lparr>sq_cached_head := sq_k_head q\<rparr>"
  by (auto simp: sq_op_defs)

lemma bulk_submit_contents:
  assumes wf: "sq_wf q" and sub: "bulk_submit_with q f s = Done (q', s', r)"
  shows "sq_contents q' = sq_contents q @ (case (r, f s zeroed_entry) of
      (Ok _, Done (_, e, _)) \<Rightarrow> [e] | _ \<Rightarrow> [])"
    and "sq_capacity q' = sq_capacity q" and "sq_k_dropped q' = sq_k_dropped q"
proof -
  obtain q1 b where full: "sq_is_full q = (q1, b)" by fastforce
  have wf1: "sq_wf q1" by (rule sq_is_full_wf [OF wf full])
  note fr = sq_is_full_frame [OF full]
  have "sq_contents q' = sq_contents q @ (case (r, f s zeroed_entry) of
      (Ok _, Done (_, e, _)) \<Rightarrow> [e] | _ \<Rightarrow> []) \<and> sq_capacity q' = sq_capacity q \<and>
      sq_k_dropped q' = sq_k_dropped q"
  proof (cases b)
    case True
    with sub fr show ?thesis by (auto simp: bulk_submit_with_eq [OF wf full])
  next
    case False
    with full have room: "ring_dist (sq_cached_head q1) (sq_local_tail q1) < sq_capacity q1"
      using sq_not_full_room [OF wf] by simp
    from False sub show ?thesis
      by (cases "f s zeroed_entry")
        (auto simp: bulk_submit_with_eq [OF wf full] sq_stage_contents [OF wf1 room] fr
          split: rresult.splits)
  qed
  then show "sq_contents q' = sq_contents q @ (case (r, f s zeroed_entry) of
      (Ok _, Done (_, e, _)) \<Rightarrow> [e] | _ \<Rightarrow> [])"
    "sq_capacity q' = sq_capacity q" "sq_k_dropped q' = sq_k_dropped q" by blast+
qed

lemma sq_user_step_laws:
  assumes wf: "sq_wf q" and step: "sq_user_step q xs q'"
  shows "sq_wf q' \<and> sq_contents q' = sq_contents q @ xs \<and> sq_capacity q' = sq_capacity q \<and>
    sq_k_dropped q' = sq_k_dropped q"
  using step
proof (cases rule: sq_user_step.cases)
  case (user_submit e)
  with bulk_submit_wf [OF wf user_submit(2)] bulk_submit_contents [OF wf user_submit(2)]
  show ?thesis by simp
next
  case (user_submit_full e x)
  with bulk_submit_wf [OF wf user_submit_full(2)] bulk_submit_contents [OF wf user_submit_full(2)]
  show ?thesis by simp
next
  case (user_submit_failing e r)
  have "r \<noteq> Ok ()"
    using user_submit_failing(2) wf by (cases "sq_is_full q") (auto simp: bulk_submit_with_eq split: if_splits)
  then obtain x where "r = Err x" by (cases r) auto
  with bulk_submit_wf [OF wf user_submit_failing(2)] bulk_submit_contents [OF wf user_submit_failing(2)]
    user_submit_failing(1)
  show ?thesis by simp
next
  case user_publish
  with bulk_drop_abs [OF wf] show ?thesis by (simp add: bulk_drop_def sq_flush_tail_def)
next
  case user_is_full
  with wf show ?thesis
    by (cases "sq_is_full q") (simp add: sq_is_full_wf sq_is_full_frame)
next
  case user_has_pending
  with sq_refresh_wf [OF wf] show ?thesis by (simp add: sq_op_defs)
next
  case (user_pending p n)
  with sq_refresh_wf [OF wf] show ?thesis by (auto dest: sq_pending_Done)
qed

interpretation sq: ring_transport sq_wf sq_contents sq_capacity sq_user_step sq_kernel_step
proof unfold_locales
  show "length (sq_contents q) \<le> sq_capacity q" if "sq_wf q" for q
    using that by (rule sq_contents_bounded)
qed (use sq_user_step_laws sq_kernel_step_laws in blast)+

section \<open>Counters wrap around\<close>

text \<open>One entry travels through the ring; every counter moves on by one.\<close>

lemma sq_idle_contents: "sq_idle_at q c \<Longrightarrow> sq_contents q = []"
  by (simp add: sq_idle_at_def sq_contents_def)

lemma sq_idle_submit:
  assumes "sq_idle_at q c"
  shows "\<exists>q'. sq_user_step q [e] q' \<and> sq_wf q' \<and> sq_k_head q' = c \<and> sq_k_tail q' = c \<and>
    sq_local_tail q' = c + 1"
proof -
  have wf: "sq_wf q" using assms by (simp add: sq_idle_at_def)
  obtain q1 b where full: "sq_is_full q = (q1, b)" by fastforce
  have "sq_capacity q \<noteq> 0" using wf by (auto elim!: sq_wfE simp: sq_capacity_def)
  with sq_is_full_exact [OF wf full] sq_idle_contents [OF assms] have "\<not> b" by simp
  then have sub: "bulk_submit_with q (\<lambda>s _. Done (s, e, Ok ())) () =
      Done (sq_stage q1 e, (), (Ok () :: (unit, unit SubmissionError) rresult))"
    by (simp add: bulk_submit_with_eq [OF wf full])
  show ?thesis
    using user_submit [OF sub] bulk_submit_wf [OF wf sub] sq_is_full_frame [OF full] assms
    by (auto simp: sq_idle_at_def)
qed

lemma sq_cycle:
  assumes "sq_idle_at q c"
  shows "\<exists>q'. transport_run sq_user_step sq_kernel_step q [e] [e] q' \<and> sq_idle_at q' (c + 1)"
proof -
  obtain q1 where q1: "sq_user_step q [e] q1" "sq_wf q1" "sq_k_head q1 = c" "sq_k_tail q1 = c"
      "sq_local_tail q1 = c + 1"
    using sq_idle_submit [OF assms] by blast
  let ?q2 = "bulk_drop q1"
  have q2: "sq_wf ?q2" "sq_k_head ?q2 = c" "sq_k_tail ?q2 = c + 1" "sq_local_tail ?q2 = c + 1"
    using q1 bulk_drop_abs [OF q1(2)] by (simp_all add: bulk_drop_def sq_flush_tail_def)
  let ?q3 = "?q2\<lparr>sq_k_head := sq_k_head ?q2 + 1\<rparr>"
  have ne: "sq_k_head ?q2 \<noteq> sq_k_tail ?q2" using q2 by simp
  have take: "sq_kernel_step ?q2 [sq_entry_at ?q2 c] ?q3"
    using kernel_take [OF ne sq_index_valid [OF q2(1)]] q2(2) by simp
  have run: "transport_run sq_user_step sq_kernel_step q ([e] @ []) ([] @ [sq_entry_at ?q2 c]) ?q3"
    by (intro run_consume [OF run_produce [OF transport_run_producer]]) (use q1(1) take user_publish in auto)
  have idle: "sq_idle_at ?q3 (c + 1)"
    using sq_take_laws(1) [OF q2(1) ne] q2 by (simp add: sq_idle_at_def)
  have "sq_wf q" using assms by (simp add: sq_idle_at_def)
  then have "[e] = [sq_entry_at ?q2 c]"
    using sq.run_fifo [OF run] sq_idle_contents [OF assms] sq_idle_contents [OF idle] by simp
  with run idle show ?thesis by auto
qed

lemma sq_cycles:
  assumes "sq_idle_at q c"
  shows "\<exists>q' xs. transport_run sq_user_step sq_kernel_step q xs xs q' \<and> sq_idle_at q' (c + of_nat n)"
proof (induction n)
  case 0
  then show ?case using assms run_start by force
next
  case (Suc n)
  then obtain q1 xs where q1: "transport_run sq_user_step sq_kernel_step q xs xs q1"
      "sq_idle_at q1 (c + of_nat n)" by blast
  from sq_cycle [OF q1(2)] obtain q2 where q2:
      "transport_run sq_user_step sq_kernel_step q1 [zeroed_entry] [zeroed_entry] q2"
      "sq_idle_at q2 (c + of_nat n + 1)" by blast
  from transport_run_trans [OF q2(1) q1(1)] q2(2) show ?case by (auto simp: algebra_simps)
qed

section \<open>Properties\<close>

lemma sample_sq_wf: "sq_wf sample_sq"
proof -
  have "(1 :: u32) = mask 1" by (simp add: mask_eq_exp_minus_1)
  moreover have "[0, 1] = map of_nat [0..<2 :: nat]" by (simp add: numeral_2_eq_2)
  ultimately show ?thesis unfolding sq_wf_def sample_sq_def by (auto intro!: exI [of _ 1])
qed

lemma sample_sq_idle: "sq_idle_at sample_sq (- 1)"
  unfolding sq_idle_at_def using sample_sq_wf by (simp add: sample_sq_def)

text \<open>
  C4. \<open>BulkSubmission::submit_with\<close> implements a bounded queue, on every branch. On a well-formed
  queue it reports \<open>QueueFull\<close> (and never calls the closure) exactly when the ring is full;
  otherwise the closure gets an all-zero entry, and its entry is appended when it succeeds, while a
  failure of the closure leaves the queue as it was. The slot is always inside the mapped entries,
  so undefined behaviour and panics can only come from the closure. Dropping the
  \<open>BulkSubmission\<close> publishes all staged entries. Well-formedness is kept.
\<close>

theorem submit_with_refines_bounded_queue:
  assumes "sq_wf q"
  shows "map_outcome (\<lambda>(q', s', r). (sq_abs q', s', r)) (bulk_submit_with q f s) =
      spec_submit (sq_abs q) f s \<and>
    (\<forall>q' s' r. bulk_submit_with q f s = Done (q', s', r) \<longrightarrow> sq_wf q') \<and>
    sq_abs (bulk_drop q) = spec_publish (sq_abs q) \<and> sq_wf (bulk_drop q)"
  using bulk_submit_abs [OF assms, of f s] bulk_submit_wf [OF assms, of f s] bulk_drop_abs [OF assms]
  by blast

theorem submit_with_refines_bounded_queue_witness:
  "sq_wf sample_sq \<and>
   map_outcome (\<lambda>(q', s', r). (sq_abs q', s', r)) (bulk_submit_with sample_sq sample_filler 0) =
   spec_submit (sq_abs sample_sq) sample_filler 0"
  using submit_with_refines_bounded_queue [OF sample_sq_wf, of sample_filler 0] sample_sq_wf by blast

text \<open>
  \<open>is_full\<close> is exact. Although it works on a cached copy of the kernel's head and refreshes it
  only when the cache suggests a full ring, the answer is whether the ring is full with respect to
  the kernel's current head; the queue contents and the published entries are untouched.
\<close>

theorem is_full_exact:
  assumes "sq_wf q"
  shows "snd (sq_is_full q) = (length (sq_contents q) = sq_capacity q) \<and>
    sq_contents (fst (sq_is_full q)) = sq_contents q \<and>
    sq_published (fst (sq_is_full q)) = sq_published q \<and> sq_wf (fst (sq_is_full q))"
  using assms
  by (cases "sq_is_full q") (simp add: sq_is_full_exact sq_is_full_frame sq_is_full_wf)

theorem is_full_exact_witness:
  "sq_wf sample_sq \<and> snd (sq_is_full sample_sq) = (length (sq_contents sample_sq) = sq_capacity sample_sq)"
  using is_full_exact [OF sample_sq_wf] sample_sq_wf by simp

text \<open>
  C7. The submission ring delivers exactly once, in order, and never overflows. Along any
  interleaving of user operations (submissions that succeed, meet a full ring or fail in the
  closure, publishing, and all queries) with kernel steps, starting from an empty well-formed
  queue, the entries the kernel took followed by the entries still in the ring are exactly the
  submitted entries in submission order, at most the ring size are in the ring, and the queue stays
  well-formed, also across the wrap-around of the 32 bit counters.
\<close>

theorem submission_ring_fifo:
  assumes "transport_run sq_user_step sq_kernel_step q sent recv q'" "sq_wf q" "sq_contents q = []"
  shows "sent = recv @ sq_contents q' \<and> length (sq_contents q') \<le> sq_capacity q \<and> sq_wf q'"
  using sq.run_exactly_once [OF assms] sq.run_invariant [OF assms(1,2)] by blast

theorem submission_ring_fifo_witness:
  "\<exists>q'. transport_run sq_user_step sq_kernel_step sample_sq [zeroed_entry] [zeroed_entry] q' \<and>
     [zeroed_entry] = [zeroed_entry] @ sq_contents q' \<and> sq_wf q'"
proof -
  from sq_cycle [OF sample_sq_idle, of zeroed_entry] obtain q' where
    run: "transport_run sq_user_step sq_kernel_step sample_sq [zeroed_entry] [zeroed_entry] q'" by blast
  from submission_ring_fifo [OF run sample_sq_wf sq_idle_contents [OF sample_sq_idle]] run show ?thesis by blast
qed

text \<open>
  The kernel never drops a submission for an invalid index: the index array set up once as the
  identity keeps every index in bounds, so along any interleaving the \<open>dropped\<close> counter that
  \<open>SubmissionQueue::dropped\<close> reports does not move.
\<close>

theorem submission_never_dropped:
  assumes "transport_run sq_user_step sq_kernel_step q sent recv q'" "sq_wf q"
  shows "sq_dropped q' = sq_dropped q"
  using assms
proof (induction rule: transport_run.induct)
  case (run_produce q sent recv q' xs q'')
  then have "sq_wf q'" using sq.run_invariant by blast
  with run_produce sq_user_step_laws show ?case by (simp add: sq_dropped_def)
next
  case (run_consume q sent recv q' xs q'')
  then have "sq_wf q'" using sq.run_invariant by blast
  with run_consume sq_kernel_step_laws show ?case by (simp add: sq_dropped_def)
qed simp

theorem submission_never_dropped_witness:
  "\<exists>q'. transport_run sq_user_step sq_kernel_step sample_sq [zeroed_entry] [zeroed_entry] q' \<and>
     sq_dropped q' = 0"
proof -
  from sq_cycle [OF sample_sq_idle, of zeroed_entry] obtain q' where
    run: "transport_run sq_user_step sq_kernel_step sample_sq [zeroed_entry] [zeroed_entry] q'" by blast
  from submission_never_dropped [OF run sample_sq_wf] run show ?thesis
    by (auto simp: sq_dropped_def sample_sq_def)
qed

text \<open>
  \<open>pending_submissions\<close> counts the entries the kernel has not taken yet, and
  \<open>has_pending_submissions\<close> says whether there are any. Without overflow checks this holds in every
  well-formed state; with overflow checks the plain subtraction panics exactly in the states where
  the local tail has wrapped around and the head has not.
\<close>

theorem pending_submissions_count:
  assumes "sq_wf q"
  shows "sq_pending_submissions Release q =
      Done (q\<lparr>sq_cached_head := sq_k_head q\<rparr>, of_nat (length (sq_contents q))) \<and>
    sq_pending_submissions Debug q =
      (if sq_local_tail q < sq_k_head q then Panic ''attempt to subtract with overflow''
       else sq_pending_submissions Release q) \<and>
    snd (sq_has_pending_submissions q) = (sq_contents q \<noteq> [])"
proof -
  have "sq_local_tail q - sq_k_head q = of_nat (length (sq_contents q))"
    by (simp add: length_sq_contents ring_dist_def)
  moreover have "sq_contents q \<noteq> [] \<longleftrightarrow> sq_k_head q \<noteq> sq_local_tail q"
    by (metis length_0_conv length_sq_contents ring_dist_eq_0_iff)
  ultimately show ?thesis by (simp add: sq_op_defs rust_sub_def)
qed

theorem pending_submissions_count_witness:
  "sq_wf sample_sq \<and> sq_pending_submissions Release sample_sq =
     Done (sample_sq\<lparr>sq_cached_head := sq_k_head sample_sq\<rparr>, of_nat (length (sq_contents sample_sq)))"
  using pending_submissions_count [OF sample_sq_wf] sample_sq_wf by simp

text \<open>
  C31. That panic is reachable. From any idle well-formed queue (all counters equal, as after
  set-up), there is a run in which every entry is submitted, published and taken one at a time and
  after which one further submission makes \<open>pending_submissions\<close> panic in a build with overflow
  checks, although exactly one entry is pending.
\<close>

theorem pending_submissions_panic_reachable:
  assumes "sq_idle_at q c"
  shows "\<exists>sent recv q'. transport_run sq_user_step sq_kernel_step q sent recv q' \<and> sq_wf q' \<and>
    length (sq_contents q') = 1 \<and>
    sq_pending_submissions Debug q' = Panic ''attempt to subtract with overflow''"
proof -
  have "c + of_nat (unat (- 1 - c)) = - 1" by simp
  then obtain q1 xs where q1: "transport_run sq_user_step sq_kernel_step q xs xs q1" "sq_idle_at q1 (- 1)"
    using sq_cycles [OF assms, of "unat (- 1 - c)"] by metis
  obtain q2 where q2: "sq_user_step q1 [zeroed_entry] q2" "sq_wf q2" "sq_k_head q2 = - 1"
      "sq_local_tail q2 = - 1 + 1"
    using sq_idle_submit [OF q1(2)] by blast
  have "sq_pending_submissions Debug q2 = Panic ''attempt to subtract with overflow''"
    using q2(3,4) by (simp add: sq_op_defs rust_sub_def word_gt_0)
  moreover have "length (sq_contents q2) = 1"
    using q2(3,4) by (simp add: length_sq_contents ring_dist_def)
  ultimately show ?thesis using run_produce [OF q1(1) q2(1)] q2(2) by blast
qed

theorem pending_submissions_panic_reachable_witness:
  "sq_idle_at sample_sq (- 1) \<and>
   (\<exists>sent recv q'. transport_run sq_user_step sq_kernel_step sample_sq sent recv q' \<and>
     sq_pending_submissions Debug q' = Panic ''attempt to subtract with overflow'')"
  using pending_submissions_panic_reachable [OF sample_sq_idle] sample_sq_idle by blast

end
