(* ===== verification/Completion_Queue.thy ===== *)
theory Completion_Queue
  imports Ring_Spec Sys_Types "HOL-Library.Sublist"
begin

text \<open>
  The completion queue of \<open>io-uring/src/lib.rs\<close>, with the shared memory behind its pointers:
  \<open>k_head\<close> (written back by user space), \<open>k_tail\<close> and \<open>k_overflow\<close> (written by the kernel) and
  the array of completion entries. The iterator \<open>BulkCompletion\<close> advances a local head and writes it
  back when it is dropped. A \<open>for\<close> loop over the queue runs concurrently with the kernel: the
  argument \<open>sched\<close> of \<open>cq_for_each\<close> lists what the kernel posts before each call of \<open>next\<close>.
\<close>

section \<open>State and operations\<close>

record CompletionQueue =
  cq_k_head :: u32
  cq_local_head :: u32
  cq_k_tail :: u32
  cq_cached_tail :: u32
  cq_ring_mask :: u32
  cq_k_overflow :: u32
  cq_cqes :: "CompletionEntry list"

definition cq_flush_head :: "CompletionQueue \<Rightarrow> CompletionQueue" where
  "cq_flush_head q = q\<lparr>cq_k_head := cq_local_head q\<rparr>"

definition cq_refresh_tail :: "CompletionQueue \<Rightarrow> CompletionQueue \<times> u32" where
  "cq_refresh_tail q =
     (let q' = q\<lparr>cq_cached_tail := cq_k_tail q\<rparr> in (q', cq_cached_tail q'))"

definition cq_is_empty :: "CompletionQueue \<Rightarrow> CompletionQueue \<times> bool" where
  "cq_is_empty q =
     (if cq_cached_tail q = cq_local_head q then
        let q' = fst (cq_refresh_tail q) in (q', cq_cached_tail q' = cq_local_head q')
      else (q, False))"

definition cq_overflow :: "CompletionQueue \<Rightarrow> u32" where
  "cq_overflow q = cq_k_overflow q"

text \<open>\<open>BulkCompletion::next\<close>; the entry is read through a raw pointer.\<close>

definition bulk_next :: "CompletionQueue \<Rightarrow> (CompletionQueue \<times> CompletionEntry option) outcome" where
  "bulk_next q =
     (let (q, empty) = cq_is_empty q in
      if empty then Done (q, None)
      else
        let ndx = cq_local_head q;
            i = unat (ndx AND cq_ring_mask q) in
        if length (cq_cqes q) \<le> i then Undefined ''completion entry out of bounds''
        else Done (q\<lparr>cq_local_head := ndx + 1\<rparr>, Some (cq_cqes q ! i)))"

definition bulk_completion_drop :: "CompletionQueue \<Rightarrow> CompletionQueue" where
  "bulk_completion_drop q = cq_flush_head q"

section \<open>The kernel's side\<close>

definition cq_capacity :: "CompletionQueue \<Rightarrow> nat" where
  "cq_capacity q = length (cq_cqes q)"

text \<open>
  As the comments of \<open>CompletionQueueRingOffsets\<close> state it: the kernel fills the entry at its tail
  and increments the tail, unless the ring is full with respect to the head user space has written
  back; then it counts an overflow and the event is lost.
\<close>

definition cq_kernel_full :: "CompletionQueue \<Rightarrow> bool" where
  "cq_kernel_full q \<longleftrightarrow> ring_dist (cq_k_head q) (cq_k_tail q) = cq_capacity q"

definition cq_post :: "CompletionEntry \<Rightarrow> CompletionQueue \<Rightarrow> CompletionQueue" where
  "cq_post e q =
     (if cq_kernel_full q then q\<lparr>cq_k_overflow := cq_k_overflow q + 1\<rparr>
      else q\<lparr>cq_cqes := (cq_cqes q)[slot (cq_ring_mask q) (cq_k_tail q) := e],
             cq_k_tail := cq_k_tail q + 1\<rparr>)"

text \<open>The entries of a batch that find room, and the queue after the batch.\<close>

primrec cq_post_all :: "CompletionEntry list \<Rightarrow> CompletionQueue \<Rightarrow> CompletionQueue" where
  "cq_post_all [] q = q"
| "cq_post_all (e # es) q = cq_post_all es (cq_post e q)"

primrec cq_accepted :: "CompletionEntry list \<Rightarrow> CompletionQueue \<Rightarrow> CompletionEntry list" where
  "cq_accepted [] q = []"
| "cq_accepted (e # es) q = (if cq_kernel_full q then [] else [e]) @ cq_accepted es (cq_post e q)"

inductive cq_kernel_step :: "CompletionQueue \<Rightarrow> CompletionEntry list \<Rightarrow> CompletionQueue \<Rightarrow> bool" where
  kernel_post: "\<not> cq_kernel_full q \<Longrightarrow> cq_kernel_step q [e] (cq_post e q)"
| kernel_overflow: "cq_kernel_full q \<Longrightarrow> cq_kernel_step q [] (cq_post e q)"

inductive cq_user_step :: "CompletionQueue \<Rightarrow> CompletionEntry list \<Rightarrow> CompletionQueue \<Rightarrow> bool" where
  user_next: "bulk_next q = Done (q', Some e) \<Longrightarrow> cq_user_step q [e] q'"
| user_next_none: "bulk_next q = Done (q', None) \<Longrightarrow> cq_user_step q [] q'"
| user_drop: "cq_user_step q [] (bulk_completion_drop q)"

section \<open>Iterating over the queue\<close>

function cq_for_each ::
  "CompletionEntry list list \<Rightarrow> (CompletionEntry \<Rightarrow> 's \<Rightarrow> 's outcome) \<Rightarrow> 's \<Rightarrow> CompletionQueue \<Rightarrow>
    ('s \<times> CompletionQueue \<times> CompletionEntry list list) outcome"
where
  "cq_for_each sched body s q =
     (case bulk_next (cq_post_all (case sched of [] \<Rightarrow> [] | b # _ \<Rightarrow> b) q) of
        Done (q', None) \<Rightarrow> Done (s, bulk_completion_drop q', tl sched)
      | Done (q', Some e) \<Rightarrow>
          (case body e s of
             Done s' \<Rightarrow> cq_for_each (tl sched) body s' q'
           | Panic m \<Rightarrow> Panic m
           | Undefined m \<Rightarrow> Undefined m
           | Blocks m \<Rightarrow> Blocks m)
      | Panic m \<Rightarrow> Panic m
      | Undefined m \<Rightarrow> Undefined m
      | Blocks m \<Rightarrow> Blocks m)"
  by pat_completeness auto
termination
proof (relation "measures [\<lambda>(sched, body, s, q). length sched,
    \<lambda>(sched, body, s, q). of_bool (cq_cached_tail q \<noteq> cq_k_tail q),
    \<lambda>(sched, body, s, q). ring_dist (cq_local_head q) (cq_cached_tail q)]", goal_cases)
  case 1
  then show ?case by simp
next
  case (2 sched body s q x q' o' e s')
  show ?case
  proof (cases sched)
    case Nil
    with 2 have nx: "bulk_next q = Done (q', Some e)" by simp
    have "ring_dist a b = Suc (ring_dist (a + 1) b)" if "a \<noteq> b" for a b :: u32
      using that by (rule ring_dist_Suc_left)
    with nx show ?thesis
      by (auto simp: Nil bulk_next_def cq_is_empty_def cq_refresh_tail_def Let_def split: if_splits)
  qed simp
qed

declare cq_for_each.simps [simp del]

text \<open>The fold a \<open>for\<close> loop over a list of entries amounts to.\<close>

primrec ofold :: "('a \<Rightarrow> 's \<Rightarrow> 's outcome) \<Rightarrow> 'a list \<Rightarrow> 's \<Rightarrow> 's outcome" where
  "ofold body [] s = Done s"
| "ofold body (e # es) s = obind (body e s) (ofold body es)"

section \<open>Invariant and abstraction\<close>

definition cq_wf :: "CompletionQueue \<Rightarrow> bool" where
  "cq_wf q \<longleftrightarrow>
     (\<exists>k<32. cq_ring_mask q = mask k \<and> length (cq_cqes q) = 2 ^ k \<and>
        ring_dist (cq_k_head q) (cq_local_head q) + ring_dist (cq_local_head q) (cq_cached_tail q) +
          ring_dist (cq_cached_tail q) (cq_k_tail q) \<le> 2 ^ k)"

definition cq_contents :: "CompletionQueue \<Rightarrow> CompletionEntry list" where
  "cq_contents q = ring_view (cq_cqes q) (cq_ring_mask q) (cq_local_head q)
     (ring_dist (cq_local_head q) (cq_k_tail q))"

definition sample_cq :: CompletionQueue where
  "sample_cq = \<lparr>cq_k_head = - 1, cq_local_head = - 1, cq_k_tail = 1, cq_cached_tail = - 1,
     cq_ring_mask = 1, cq_k_overflow = 0,
     cq_cqes = [\<lparr>ce_user_data = 3, ce_res = 1, ce_flags = 0\<rparr>, \<lparr>ce_user_data = 1, ce_res = 1, ce_flags = 0\<rparr>]\<rparr>"

section \<open>Lemmas\<close>

lemma cq_wfE:
  assumes "cq_wf q"
  obtains k where "k < 32" "cq_ring_mask q = mask k" "length (cq_cqes q) = 2 ^ k"
    "ring_dist (cq_k_head q) (cq_local_head q) + ring_dist (cq_local_head q) (cq_cached_tail q) +
       ring_dist (cq_cached_tail q) (cq_k_tail q) \<le> 2 ^ k"
  using assms unfolding cq_wf_def by blast

lemma length_cq_contents: "length (cq_contents q) = ring_dist (cq_local_head q) (cq_k_tail q)"
  by (simp add: cq_contents_def)

lemma cq_contents_empty_iff: "cq_contents q = [] \<longleftrightarrow> cq_local_head q = cq_k_tail q"
  by (metis length_0_conv length_cq_contents ring_dist_eq_0_iff)

lemma cq_contents_bounded: "cq_wf q \<Longrightarrow> length (cq_contents q) \<le> cq_capacity q"
proof (erule cq_wfE)
  fix k
  assume k: "k < 32" "length (cq_cqes q) = 2 ^ k"
    and d: "ring_dist (cq_k_head q) (cq_local_head q) + ring_dist (cq_local_head q) (cq_cached_tail q) +
       ring_dist (cq_cached_tail q) (cq_k_tail q) \<le> 2 ^ k"
  from ring_chain3(1) [OF d k(1)] d k(2) show ?thesis
    by (simp add: length_cq_contents cq_capacity_def)
qed

lemma cq_is_empty_laws:
  assumes "cq_wf q" "cq_is_empty q = (q', b)"
  shows "cq_wf q'" "cq_contents q' = cq_contents q" "b \<longleftrightarrow> cq_contents q = []"
    "cq_capacity q' = cq_capacity q" "cq_local_head q' = cq_local_head q"
    "\<not> b \<longrightarrow> cq_local_head q' \<noteq> cq_cached_tail q'"
proof -
  obtain k where k: "k < 32"
    and d: "ring_dist (cq_k_head q) (cq_local_head q) + ring_dist (cq_local_head q) (cq_cached_tail q) +
       ring_dist (cq_cached_tail q) (cq_k_tail q) \<le> 2 ^ k"
    using assms(1) by (rule cq_wfE)
  have same: "q' = q \<or> q' = q\<lparr>cq_cached_tail := cq_k_tail q\<rparr>"
    using assms(2) by (auto simp: cq_is_empty_def cq_refresh_tail_def Let_def split: if_splits)
  then show "cq_wf q'"
    using assms(1) ring_chain3(1) [OF d k] by (auto simp: cq_wf_def add.assoc)
  show "cq_contents q' = cq_contents q" "cq_capacity q' = cq_capacity q"
    "cq_local_head q' = cq_local_head q"
    using same by (auto simp: cq_contents_def cq_capacity_def)
  show "\<not> b \<longrightarrow> cq_local_head q' \<noteq> cq_cached_tail q'"
    using assms(2) by (auto simp: cq_is_empty_def cq_refresh_tail_def Let_def split: if_splits)
  have "cq_local_head q \<noteq> cq_cached_tail q \<Longrightarrow> cq_local_head q \<noteq> cq_k_tail q"
    using ring_chain3(1) [OF d k] by (metis add_is_0 ring_dist_eq_0_iff)
  then show "b \<longleftrightarrow> cq_contents q = []"
    using assms(2) unfolding cq_contents_empty_iff
    by (auto simp: cq_is_empty_def cq_refresh_tail_def Let_def split: if_splits)
qed

lemma cq_slot_in_range: "cq_wf q \<Longrightarrow> unat (x AND cq_ring_mask q) < length (cq_cqes q)"
  by (erule cq_wfE) (simp add: slot_mask_less flip: slot_def)

lemma bulk_next_eq:
  assumes "cq_wf q" "cq_is_empty q = (q', b)"
  shows "bulk_next q =
    (if b then Done (q', None)
     else Done (q'\<lparr>cq_local_head := cq_local_head q' + 1\<rparr>,
            Some (cq_cqes q' ! slot (cq_ring_mask q') (cq_local_head q'))))"
  using assms cq_slot_in_range [OF cq_is_empty_laws(1) [OF assms], of "cq_local_head q'"]
  by (simp add: bulk_next_def slot_def Let_def)

lemma cq_advance_laws:
  assumes wf: "cq_wf q" and ne: "cq_local_head q \<noteq> cq_cached_tail q"
  defines "q' \<equiv> q\<lparr>cq_local_head := cq_local_head q + 1\<rparr>"
  shows "cq_wf q'"
    and "cq_contents q = cq_cqes q ! slot (cq_ring_mask q) (cq_local_head q) # cq_contents q'"
proof -
  obtain k where k: "k < 32" "cq_ring_mask q = mask k" "length (cq_cqes q) = 2 ^ k"
    and d: "ring_dist (cq_k_head q) (cq_local_head q) + ring_dist (cq_local_head q) (cq_cached_tail q) +
       ring_dist (cq_cached_tail q) (cq_k_tail q) \<le> 2 ^ k"
    using wf by (rule cq_wfE)
  note ch = ring_chain3 [OF d k(1)]
  have lim: "(2 :: nat) ^ k < 2 ^ LENGTH(32)" by (rule exp_less_u32 [OF k(1)])
  have ct: "ring_dist (cq_local_head q) (cq_cached_tail q) =
      Suc (ring_dist (cq_local_head q + 1) (cq_cached_tail q))"
    using ne by (rule ring_dist_Suc_left)
  have "cq_local_head q \<noteq> cq_k_tail q" using ne ch by (metis add_is_0 ring_dist_eq_0_iff)
  then have kt: "ring_dist (cq_local_head q) (cq_k_tail q) = Suc (ring_dist (cq_local_head q + 1) (cq_k_tail q))"
    by (rule ring_dist_Suc_left)
  have h: "ring_dist (cq_k_head q) (cq_local_head q + 1) = Suc (ring_dist (cq_k_head q) (cq_local_head q))"
    by (rule ring_dist_Suc_right) (use d ct lim in linarith)
  show "cq_wf q'"
    unfolding cq_wf_def q'_def using k h ct d by (auto intro!: exI [of _ k])
  show "cq_contents q = cq_cqes q ! slot (cq_ring_mask q) (cq_local_head q) # cq_contents q'"
    by (simp add: cq_contents_def q'_def kt ring_view_pop)
qed

lemma bulk_next_laws:
  assumes "cq_wf q"
  obtains q' where "cq_contents q = []" "bulk_next q = Done (q', None)" "cq_wf q'"
      "cq_contents q' = []" "cq_capacity q' = cq_capacity q"
    | q' e where "bulk_next q = Done (q', Some e)" "cq_wf q'" "cq_contents q = e # cq_contents q'"
      "cq_capacity q' = cq_capacity q"
proof -
  obtain q1 b where emp: "cq_is_empty q = (q1, b)" by fastforce
  note laws = cq_is_empty_laws [OF assms emp]
  show thesis
  proof (cases b)
    case True
    then show thesis
      using that(1) [of q1] bulk_next_eq [OF assms emp] laws by simp
  next
    case False
    with laws have ne: "cq_local_head q1 \<noteq> cq_cached_tail q1" by blast
    note adv = cq_advance_laws [OF laws(1) ne]
    show thesis
      using that(2) bulk_next_eq [OF assms emp] False adv laws by (simp add: cq_capacity_def)
  qed
qed

lemma cq_drop_laws:
  assumes "cq_wf q"
  shows "cq_wf (bulk_completion_drop q)" "cq_contents (bulk_completion_drop q) = cq_contents q"
    "cq_capacity (bulk_completion_drop q) = cq_capacity q"
    "cq_k_head (bulk_completion_drop q) = cq_local_head q"
    "cq_local_head (bulk_completion_drop q) = cq_local_head q"
  using assms by (auto simp: bulk_completion_drop_def cq_flush_head_def cq_wf_def cq_contents_def
      cq_capacity_def intro: le_trans [rotated])

text \<open>The slot the kernel writes is never one that user space still has to read.\<close>

lemma cq_post_laws:
  assumes wf: "cq_wf q"
  shows "cq_wf (cq_post e q)" "cq_capacity (cq_post e q) = cq_capacity q"
    "cq_contents (cq_post e q) = cq_contents q @ (if cq_kernel_full q then [] else [e])"
    "cq_k_overflow (cq_post e q) = (if cq_kernel_full q then cq_k_overflow q + 1 else cq_k_overflow q)"
proof -
  obtain k where k: "k < 32" "cq_ring_mask q = mask k" "length (cq_cqes q) = 2 ^ k"
    and d: "ring_dist (cq_k_head q) (cq_local_head q) + ring_dist (cq_local_head q) (cq_cached_tail q) +
       ring_dist (cq_cached_tail q) (cq_k_tail q) \<le> 2 ^ k"
    using wf by (rule cq_wfE)
  note ch = ring_chain3 [OF d k(1)]
  have lim: "(2 :: nat) ^ k < 2 ^ LENGTH(32)" by (rule exp_less_u32 [OF k(1)])
  have "cq_wf (cq_post e q) \<and>
      cq_contents (cq_post e q) = cq_contents q @ (if cq_kernel_full q then [] else [e])"
  proof (cases "cq_kernel_full q")
    case True
    with wf show ?thesis by (simp add: cq_post_def cq_wf_def cq_contents_def)
  next
    case False
    then have room: "ring_dist (cq_k_head q) (cq_k_tail q) < 2 ^ k"
      using ch d k(3) by (simp add: cq_kernel_full_def cq_capacity_def)
    have c: "ring_dist (cq_cached_tail q) (cq_k_tail q + 1) = Suc (ring_dist (cq_cached_tail q) (cq_k_tail q))"
      by (rule ring_dist_Suc_right) (use ch room lim in linarith)
    have l: "ring_dist (cq_local_head q) (cq_k_tail q + 1) = Suc (ring_dist (cq_local_head q) (cq_k_tail q))"
      by (rule ring_dist_Suc_right) (use ch room lim in linarith)
    have n: "ring_dist (cq_local_head q) (cq_k_tail q) < 2 ^ k" using ch room by linarith
    have wf': "cq_wf (cq_post e q)"
      unfolding cq_wf_def using False k c ch room by (auto simp: cq_post_def intro!: exI [of _ k])
    have "cq_contents (cq_post e q) = cq_contents q @ [e]"
      using ring_view_push [of k "cq_cqes q" _ "cq_local_head q" e, OF _ k(3) n] False k l
      by (simp add: cq_contents_def cq_post_def ring_dist_add)
    with False wf' show ?thesis by simp
  qed
  then show "cq_wf (cq_post e q)"
    "cq_contents (cq_post e q) = cq_contents q @ (if cq_kernel_full q then [] else [e])" by auto
  show "cq_capacity (cq_post e q) = cq_capacity q"
    "cq_k_overflow (cq_post e q) = (if cq_kernel_full q then cq_k_overflow q + 1 else cq_k_overflow q)"
    by (auto simp: cq_post_def cq_capacity_def)
qed

lemma cq_post_all_laws:
  assumes "cq_wf q"
  shows "cq_wf (cq_post_all es q) \<and> cq_capacity (cq_post_all es q) = cq_capacity q \<and>
    cq_contents (cq_post_all es q) = cq_contents q @ cq_accepted es q"
  using assms by (induction es arbitrary: q) (simp_all add: cq_post_laws)

lemma cq_accepted_subseq: "subseq (cq_accepted es q) es"
  by (induction es arbitrary: q) auto

inductive_cases cq_kernel_stepE: "cq_kernel_step q xs q'"
inductive_cases cq_user_stepE: "cq_user_step q xs q'"

lemma cq_kernel_step_laws:
  assumes "cq_wf q" "cq_kernel_step q xs q'"
  shows "cq_wf q' \<and> cq_contents q' = cq_contents q @ xs \<and> cq_capacity q' = cq_capacity q"
  using assms(2) by cases (simp_all add: cq_post_laws [OF assms(1)])

lemma cq_user_step_laws:
  assumes wf: "cq_wf q" and "cq_user_step q xs q'"
  shows "cq_wf q' \<and> cq_contents q = xs @ cq_contents q' \<and> cq_capacity q' = cq_capacity q"
  using assms(2)
proof cases
  case (user_next e)
  then show ?thesis by (cases rule: bulk_next_laws [OF wf]) simp_all
next
  case user_next_none
  then show ?thesis by (cases rule: bulk_next_laws [OF wf]) simp_all
next
  case user_drop
  then show ?thesis by (simp add: cq_drop_laws [OF wf])
qed

interpretation cq: ring_transport cq_wf cq_contents cq_capacity cq_kernel_step cq_user_step
proof unfold_locales
  show "length (cq_contents q) \<le> cq_capacity q" if "cq_wf q" for q
    using that by (rule cq_contents_bounded)
qed (use cq_user_step_laws cq_kernel_step_laws in blast)+

section \<open>The loop over the queue\<close>

text \<open>
  The entries the loop delivers, the queue it leaves and the rest of the schedule do not depend on
  the body: the loop is a fold over these entries.
\<close>

lemma cq_for_each_fold_step:
  assumes wf: "cq_wf q"
    and IH: "\<And>q'. cq_wf q' \<Longrightarrow> cq_capacity q' = cq_capacity q \<Longrightarrow>
      (sched = [] \<longrightarrow> length (cq_contents q') < length (cq_contents q)) \<Longrightarrow>
      \<exists>sent q'' rest. cq_wf q'' \<and> cq_contents q'' = [] \<and> cq_k_head q'' = cq_local_head q'' \<and>
        cq_capacity q'' = cq_capacity q' \<and> subseq sent (concat (tl sched)) \<and>
        (\<forall>body (s :: 's). cq_for_each (tl sched) body s q' =
           map_outcome (\<lambda>s'. (s', q'', rest)) (ofold body (cq_contents q' @ sent) s))"
  shows "\<exists>sent q'' rest. cq_wf q'' \<and> cq_contents q'' = [] \<and> cq_k_head q'' = cq_local_head q'' \<and>
    cq_capacity q'' = cq_capacity q \<and> subseq sent (concat sched) \<and>
    (\<forall>body (s :: 's). cq_for_each sched body s q =
       map_outcome (\<lambda>s'. (s', q'', rest)) (ofold body (cq_contents q @ sent) s))"
proof -
  let ?batch = "case sched of [] \<Rightarrow> [] | b # _ \<Rightarrow> b"
  let ?q = "cq_post_all ?batch q"
  have post: "cq_wf ?q" "cq_capacity ?q = cq_capacity q" "cq_contents ?q = cq_contents q @ cq_accepted ?batch q"
    using cq_post_all_laws [OF wf] by auto
  show ?thesis
  proof (cases rule: bulk_next_laws [OF post(1)])
    case (1 q')
    then have "cq_contents q = []" using post(3) by simp
    with 1 post(2) cq_drop_laws [OF 1(3)] show ?thesis
      by (intro exI [of _ "[]"] exI [of _ "bulk_completion_drop q'"] exI [of _ "tl sched"])
        (simp add: cq_for_each.simps [of sched])
  next
    case (2 q' e)
    have less: "sched = [] \<longrightarrow> length (cq_contents q') < length (cq_contents q)"
      using 2(3) post(3) by (metis append_Nil2 cq_accepted.simps(1) length_Cons lessI list.simps(4))
    from IH [OF 2(2) _ less] 2(4) post(2) obtain sent q'' rest where
      q'': "cq_wf q''" "cq_contents q'' = []" "cq_k_head q'' = cq_local_head q''"
        "cq_capacity q'' = cq_capacity q" "subseq sent (concat (tl sched))"
      and loop: "\<And>body s :: 's. cq_for_each (tl sched) body s q' =
           map_outcome (\<lambda>s'. (s', q'', rest)) (ofold body (cq_contents q' @ sent) s)"
      by auto
    have es: "cq_contents q @ cq_accepted ?batch q @ sent = e # cq_contents q' @ sent"
      using 2(3) post(3) by simp
    have "cq_for_each sched body s q =
        map_outcome (\<lambda>s'. (s', q'', rest)) (ofold body (cq_contents q @ cq_accepted ?batch q @ sent) s)"
      for body and s :: 's
      unfolding es by (cases "body e s") (simp_all add: cq_for_each.simps [of sched] 2(1) loop)
    moreover have "subseq (cq_accepted ?batch q @ sent) (concat sched)"
      using q''(5) cq_accepted_subseq by (cases sched) (auto intro: list_emb_append_mono)
    ultimately show ?thesis
      using q'' by (intro exI [of _ "cq_accepted ?batch q @ sent"] exI [of _ q''] exI [of _ rest]) auto
  qed
qed

lemma cq_for_each_fold_quiet:
  assumes "cq_wf q"
  shows "\<exists>sent q' rest. cq_wf q' \<and> cq_contents q' = [] \<and> cq_k_head q' = cq_local_head q' \<and>
    cq_capacity q' = cq_capacity q \<and> subseq sent (concat []) \<and>
    (\<forall>body (s :: 's). cq_for_each [] body s q =
       map_outcome (\<lambda>s'. (s', q', rest)) (ofold body (cq_contents q @ sent) s))"
  using assms
proof (induction "length (cq_contents q)" arbitrary: q rule: less_induct)
  case (less qx)
  show ?case
  proof (rule cq_for_each_fold_step [OF less(2)])
    fix q' assume "cq_wf q'" "[] = ([] :: CompletionEntry list list) \<longrightarrow> length (cq_contents q') < length (cq_contents qx)"
    with less(1) [of q'] show "\<exists>sent q'' rest. cq_wf q'' \<and> cq_contents q'' = [] \<and>
        cq_k_head q'' = cq_local_head q'' \<and> cq_capacity q'' = cq_capacity q' \<and>
        subseq sent (concat (tl [])) \<and>
        (\<forall>body (s :: 's). cq_for_each (tl []) body s q' =
           map_outcome (\<lambda>s'. (s', q'', rest)) (ofold body (cq_contents q' @ sent) s))"
      by simp
  qed
qed

lemma cq_for_each_fold:
  assumes "cq_wf q"
  shows "\<exists>sent q' rest. cq_wf q' \<and> cq_contents q' = [] \<and> cq_k_head q' = cq_local_head q' \<and>
    cq_capacity q' = cq_capacity q \<and> subseq sent (concat sched) \<and>
    (\<forall>body (s :: 's). cq_for_each sched body s q =
       map_outcome (\<lambda>s'. (s', q', rest)) (ofold body (cq_contents q @ sent) s))"
  using assms
proof (induction sched arbitrary: q)
  case Nil
  then show ?case by (rule cq_for_each_fold_quiet)
next
  case (Cons b sched)
  show ?case
  proof (rule cq_for_each_fold_step [OF Cons(2)])
    fix q' assume "cq_wf q'"
    from Cons(1) [OF this] obtain sent q'' rest where
      "cq_wf q''" "cq_contents q'' = []" "cq_k_head q'' = cq_local_head q''"
      "cq_capacity q'' = cq_capacity q'" "subseq sent (concat sched)"
      "\<And>body (s :: 's). cq_for_each sched body s q' =
         map_outcome (\<lambda>s'. (s', q'', rest)) (ofold body (cq_contents q' @ sent) s)"
      by (elim exE conjE) (rule that, auto)
    then show "\<exists>sent q'' rest. cq_wf q'' \<and> cq_contents q'' = [] \<and>
        cq_k_head q'' = cq_local_head q'' \<and> cq_capacity q'' = cq_capacity q' \<and>
        subseq sent (concat (tl (b # sched))) \<and>
        (\<forall>body (s :: 's). cq_for_each (tl (b # sched)) body s q' =
           map_outcome (\<lambda>s'. (s', q'', rest)) (ofold body (cq_contents q' @ sent) s))"
      by (intro exI [of _ sent] exI [of _ q''] exI [of _ rest]) simp
  qed
qed

section \<open>Properties\<close>

lemma sample_cq_wf: "cq_wf sample_cq"
proof -
  have "(1 :: u32) = mask 1" by (simp add: mask_eq_exp_minus_1)
  then show ?thesis unfolding cq_wf_def sample_cq_def by (auto simp: ring_dist_def intro!: exI [of _ 1])
qed

text \<open>
  C9. The completion ring delivers exactly once, in order. Along any interleaving of kernel posts
  with the iterator's \<open>next\<close> and its drop, the completions user space received followed by those
  still in the ring are the completions that were in the ring at the start followed by those the
  kernel posted (a post into a full ring is counted as overflow and not delivered); the ring never
  holds more than its size and stays well-formed.
\<close>

theorem completion_ring_fifo:
  assumes "transport_run cq_kernel_step cq_user_step q sent recv q'" "cq_wf q"
  shows "cq_contents q @ sent = recv @ cq_contents q' \<and> length (cq_contents q') \<le> cq_capacity q \<and> cq_wf q'"
  using cq.run_fifo [OF assms] cq.run_invariant [OF assms] cq.bounded by metis

theorem completion_ring_fifo_witness:
  "\<exists>e q'. transport_run cq_kernel_step cq_user_step sample_cq [] [e] q' \<and>
     cq_contents sample_cq @ [] = [e] @ cq_contents q' \<and> cq_wf q'"
proof (cases rule: bulk_next_laws [OF sample_cq_wf])
  case (1 q')
  then have False by (simp add: cq_contents_empty_iff sample_cq_def)
  then show ?thesis ..
next
  case (2 q' e)
  have run: "transport_run cq_kernel_step cq_user_step sample_cq [] [e] q'"
    by (rule transport_run_consumer, rule user_next) (rule 2(1))
  with completion_ring_fifo [OF run sample_cq_wf] show ?thesis by auto
qed

text \<open>
  C24. A \<open>for\<close> loop over the completion queue, with the kernel posting concurrently according to any
  finite schedule, terminates and is a fold of its body over the completions that were in the ring
  followed by posted completions (a subsequence of the schedule: a post into a full ring is lost),
  each once and in order; without concurrent posts it is a fold over exactly the ring contents. When the body neither panics nor fails, the loop leaves the
  ring empty, its head written back for the kernel, and the queue well-formed; the raw reads never
  leave the mapped entries.
\<close>

theorem completion_loop_is_fold:
  assumes "cq_wf q"
  shows "\<exists>sent q' rest. cq_wf q' \<and> cq_contents q' = [] \<and> cq_k_head q' = cq_local_head q' \<and>
    cq_capacity q' = cq_capacity q \<and> subseq sent (concat sched) \<and>
    (\<forall>body (s :: 's). cq_for_each sched body s q =
       map_outcome (\<lambda>s'. (s', q', rest)) (ofold body (cq_contents q @ sent) s))"
  using assms by (rule cq_for_each_fold)

theorem completion_loop_is_fold_witness:
  "cq_wf sample_cq \<and>
   (\<exists>q' rest. cq_contents q' = [] \<and>
      cq_for_each [] (\<lambda>e n. Done (Suc n)) (0::nat) sample_cq =
        map_outcome (\<lambda>s'. (s', q', rest)) (ofold (\<lambda>e n. Done (Suc n)) (cq_contents sample_cq) 0))"
proof -
  obtain sent q' rest where "cq_contents q' = []" and sent: "subseq sent (concat [])"
    and "\<forall>body (s :: nat). cq_for_each [] body s sample_cq =
       map_outcome (\<lambda>s'. (s', q', rest)) (ofold body (cq_contents sample_cq @ sent) s)"
    using completion_loop_is_fold [OF sample_cq_wf, of "[]"] by (elim exE conjE)
  moreover from sent have "sent = []" by (simp add: subseq_conv_nths)
  ultimately show ?thesis using sample_cq_wf by (intro conjI exI [of _ q'] exI [of _ rest]) simp_all
qed

end
