(* ===== verification/Store_Buffer.thy ===== *)
theory Store_Buffer
  imports Uring_Prelude
begin

text \<open>
  Atomic stores with memory orderings. A thread's stores go to a buffer of its own and reach the
  shared memory later and one by one; the thread itself sees them at once, other threads only then. Two
  stores to one location keep their order; a store with release ordering reaches memory only after all
  stores before it; a sequentially consistent store waits until the buffer is empty and is
  performed in memory. Other stores may overtake each other, so this is weaker than the total store order of x86, where
  buffers are drained in order, and has all of its behaviours.
\<close>

section \<open>Stores and buffers\<close>

datatype ordering = Relaxed | OrdRelease | OrdAcquire | OrdAcqRel | SeqCst

definition releases :: "ordering \<Rightarrow> bool" where
  "releases ord \<longleftrightarrow> ord = OrdRelease \<or> ord = OrdAcqRel \<or> ord = SeqCst"

definition buffer_store :: "('st \<Rightarrow> 'm \<Rightarrow> 'm) \<Rightarrow> ordering \<Rightarrow> 'st \<Rightarrow> (ordering \<times> 'st) list \<times> 'm \<Rightarrow> ((ordering \<times> 'st) list \<times> 'm) option" where
  "buffer_store ap ord st bm =
     (if ord = SeqCst then (if fst bm = [] then Some ([], ap st (snd bm)) else None)
      else Some (fst bm @ [(ord, st)], snd bm))"

text \<open>What the thread itself sees.\<close>

definition buffer_view :: "('st \<Rightarrow> 'm \<Rightarrow> 'm) \<Rightarrow> (ordering \<times> 'st) list \<Rightarrow> 'm \<Rightarrow> 'm" where
  "buffer_view ap buf m = fold (\<lambda>x. ap (snd x)) buf m"

text \<open>The store at position \<open>i\<close> may reach memory now; then it does.\<close>

definition can_drain :: "('st \<Rightarrow> 'l) \<Rightarrow> (ordering \<times> 'st) list \<Rightarrow> nat \<Rightarrow> bool" where
  "can_drain loc buf i \<longleftrightarrow> i < length buf \<and> (releases (fst (buf ! i)) \<longrightarrow> i = 0) \<and>
     (\<forall>x \<in> set (take i buf). loc (snd x) \<noteq> loc (snd (buf ! i)))"

definition drain_at :: "('st \<Rightarrow> 'm \<Rightarrow> 'm) \<Rightarrow> nat \<Rightarrow> (ordering \<times> 'st) list \<times> 'm \<Rightarrow> (ordering \<times> 'st) list \<times> 'm" where
  "drain_at ap i bm = (take i (fst bm) @ drop (Suc i) (fst bm), ap (snd (fst bm ! i)) (snd bm))"

section \<open>The interface\<close>

text \<open>
  The law of a memory: stores to different locations commute. Then draining in any permitted order
  is invisible to the thread that made the stores.
\<close>

locale store_buffer =
  fixes ap :: "'st \<Rightarrow> 'm \<Rightarrow> 'm" and loc :: "'st \<Rightarrow> 'l"
  assumes store_commute: "loc a \<noteq> loc b \<Longrightarrow> ap a (ap b m) = ap b (ap a m)"
begin

lemma view_late:
  "\<forall>x \<in> set xs. loc (snd x) \<noteq> loc st \<Longrightarrow> ap st (buffer_view ap xs m) = buffer_view ap xs (ap st m)"
  by (induction xs arbitrary: m) (auto simp: buffer_view_def store_commute)

lemma view_drain:
  assumes "can_drain loc buf i"
  shows "buffer_view ap (fst (drain_at ap i (buf, m))) (snd (drain_at ap i (buf, m))) = buffer_view ap buf m"
proof -
  have i: "i < length buf" "\<forall>x \<in> set (take i buf). loc (snd x) \<noteq> loc (snd (buf ! i))"
    using assms by (simp_all add: can_drain_def)
  have "buffer_view ap buf m = buffer_view ap (take i buf @ buf ! i # drop (Suc i) buf) m"
    using id_take_nth_drop [OF i(1)] by simp
  also have "\<dots> = buffer_view ap (drop (Suc i) buf) (ap (snd (buf ! i)) (buffer_view ap (take i buf) m))"
    by (simp add: buffer_view_def)
  also have "\<dots> = buffer_view ap (take i buf @ drop (Suc i) buf) (ap (snd (buf ! i)) m)"
    by (simp add: view_late [OF i(2)]) (simp add: buffer_view_def)
  finally show ?thesis by (simp add: drain_at_def)
qed

lemma view_store:
  "buffer_store ap ord st (buf, m) = Some (buf', m') \<Longrightarrow> buffer_view ap buf' m' = ap st (buffer_view ap buf m)"
  by (auto simp: buffer_store_def buffer_view_def split: if_splits)

end

section \<open>Lemmas\<close>

lemma drain_at_buffer: "drain_at ap i (buf, m) = (buf', m') \<Longrightarrow> set buf' \<subseteq> set buf"
  by (auto simp: drain_at_def dest: in_set_takeD in_set_dropD)

lemma buffer_view_Nil [simp]: "buffer_view ap [] m = m"
  by (simp add: buffer_view_def)

lemma buffer_store_SeqCst:
  "buffer_store ap SeqCst st (buf, m) = Some (buf', m') \<longleftrightarrow> buf = [] \<and> buf' = [] \<and> m' = ap st m"
  by (auto simp: buffer_store_def)

end
