(* ===== verification/Ring_Weak.thy ===== *)
theory Ring_Weak
  imports Submission_Queue Store_Buffer
begin

text \<open>
  The submission queue with the memory orderings of its stores. The entries and the published tail are
  written through the store buffer of the submitting thread (\<open>Store_Buffer\<close>), so that the kernel may see
  them late and in another order; \<open>flush_tail\<close> stores the tail with release ordering. The cached head and the local tail are fields of
  the Rust struct that only the submitting thread accesses. The operations are those of
  \<open>Submission_Queue\<close>, run on what the thread sees; their stores are added to the buffer.
\<close>

section \<open>Stores and steps\<close>

datatype ring_store = StTail u32 | StEntry nat SubmissionEntry

datatype ring_loc = LocTail | LocEntry nat

primrec sq_store :: "ring_store \<Rightarrow> SubmissionQueue \<Rightarrow> SubmissionQueue" where
  "sq_store (StTail v) q = q\<lparr>sq_k_tail := v\<rparr>"
| "sq_store (StEntry i e) q = q\<lparr>sq_sces := (sq_sces q)[i := e]\<rparr>"

primrec store_loc :: "ring_store \<Rightarrow> ring_loc" where
  "store_loc (StTail v) = LocTail"
| "store_loc (StEntry i e) = LocEntry i"

record wring =
  wr_mem :: SubmissionQueue
  wr_buf :: "(ordering \<times> ring_store) list"

definition wr_view :: "wring \<Rightarrow> SubmissionQueue" where
  "wr_view r = buffer_view sq_store (wr_buf r) (wr_mem r)"

text \<open>Assigning the thread's own fields; no store to shared memory.\<close>

definition wr_assign :: "SubmissionQueue \<Rightarrow> wring \<Rightarrow> wring" where
  "wr_assign v r = r\<lparr>wr_mem := (wr_mem r)\<lparr>sq_cached_head := sq_cached_head v, sq_local_tail := sq_local_tail v\<rparr>\<rparr>"

text \<open>\<open>submit_with\<close>: the entry is written with plain stores, unless the ring is full.\<close>

definition wr_submit_with :: "wring \<Rightarrow> ('s, 'e) filler \<Rightarrow> 's \<Rightarrow> (wring \<times> 's \<times> (unit, 'e SubmissionError) rresult) outcome" where
  "wr_submit_with r f s =
     (let v = wr_view r; i = slot (sq_ring_mask v) (sq_local_tail v) in
      obind (bulk_submit_with v f s) (\<lambda>(v', s, res).
        let r' = wr_assign v' r in
        Done (if snd (sq_is_full v) then r' else r'\<lparr>wr_buf := wr_buf r @ [(Relaxed, StEntry i (sq_sces v' ! i))]\<rparr>, s, res)))"

text \<open>\<open>flush_tail\<close>, with the ordering of its store.\<close>

definition wr_flush_tail :: "ordering \<Rightarrow> wring \<Rightarrow> wring option" where
  "wr_flush_tail ord r = map_option (\<lambda>(buf, m). r\<lparr>wr_buf := buf, wr_mem := m\<rparr>)
     (buffer_store sq_store ord (StTail (sq_local_tail (wr_view r))) (wr_buf r, wr_mem r))"

definition flush_order :: ordering where
  "flush_order = OrdRelease"

inductive wr_user_step :: "ordering \<Rightarrow> wring \<Rightarrow> SubmissionEntry list \<Rightarrow> wring \<Rightarrow> bool" for ord where
  wr_submit: "wr_submit_with r (\<lambda>s _. Done (s, e, Ok ())) () =
      Done (r', (), (Ok () :: (unit, unit SubmissionError) rresult)) \<Longrightarrow> wr_user_step ord r [e] r'"
| wr_submit_full: "wr_submit_with r (\<lambda>s _. Done (s, e, Ok ())) () =
      Done (r', (), (Err x :: (unit, unit SubmissionError) rresult)) \<Longrightarrow> wr_user_step ord r [] r'"
| wr_submit_failing: "wr_submit_with r (\<lambda>s _. Done (s, e, Err ())) () = Done (r', (), res) \<Longrightarrow> wr_user_step ord r [] r'"
| wr_publish: "wr_flush_tail ord r = Some r' \<Longrightarrow> wr_user_step ord r [] r'"
| wr_is_full: "wr_user_step ord r [] (wr_assign (fst (sq_is_full (wr_view r))) r)"
| wr_has_pending: "wr_user_step ord r [] (wr_assign (fst (sq_has_pending_submissions (wr_view r))) r)"
| wr_pending: "sq_pending_submissions p (wr_view r) = Done (v', n) \<Longrightarrow> wr_user_step ord r [] (wr_assign v' r)"
| wr_drain: "can_drain store_loc (wr_buf r) i \<Longrightarrow> drain_at sq_store i (wr_buf r, wr_mem r) = (buf, m) \<Longrightarrow>
    wr_user_step ord r [] (r\<lparr>wr_buf := buf, wr_mem := m\<rparr>)"

text \<open>The kernel sees memory only.\<close>

inductive wr_kernel_step :: "wring \<Rightarrow> SubmissionEntry list \<Rightarrow> wring \<Rightarrow> bool" where
  wr_kernel: "sq_kernel_step (wr_mem r) xs m \<Longrightarrow> wr_kernel_step r xs (r\<lparr>wr_mem := m\<rparr>)"

section \<open>Invariant\<close>

text \<open>
  \<open>fenced m h n buf\<close>: with \<open>n\<close> entries from the head \<open>h\<close> on published in memory, no store of the buffer writes to an
  entry that is published by then, published tails only grow, and each is a release.
\<close>

fun fenced :: "u32 \<Rightarrow> u32 \<Rightarrow> nat \<Rightarrow> (ordering \<times> ring_store) list \<Rightarrow> bool" where
  "fenced m h n [] \<longleftrightarrow> True"
| "fenced m h n ((ord, StTail v) # buf) \<longleftrightarrow> releases ord \<and> n \<le> ring_dist h v \<and> fenced m h (ring_dist h v) buf"
| "fenced m h n ((ord, StEntry i e) # buf) \<longleftrightarrow> (\<forall>j<n. i \<noteq> slot m (h + of_nat j)) \<and> fenced m h n buf"

text \<open>The published tail once all stores of the buffer have arrived.\<close>

fun last_tail :: "u32 \<Rightarrow> (ordering \<times> ring_store) list \<Rightarrow> u32" where
  "last_tail t [] = t"
| "last_tail t ((ord, StTail v) # buf) = last_tail v buf"
| "last_tail t ((ord, StEntry i e) # buf) = last_tail t buf"

definition wr_fenced :: "wring \<Rightarrow> bool" where
  "wr_fenced r \<longleftrightarrow> fenced (sq_ring_mask (wr_mem r)) (sq_k_head (wr_mem r))
     (ring_dist (sq_k_head (wr_mem r)) (sq_k_tail (wr_mem r))) (wr_buf r)"

definition wr_inv :: "wring \<Rightarrow> bool" where
  "wr_inv r \<longleftrightarrow> sq_wf (wr_view r) \<and> wr_fenced r"

text \<open>No store to an entry the kernel may read is in flight.\<close>

definition settled :: "wring \<Rightarrow> bool" where
  "settled r \<longleftrightarrow> (\<forall>j < ring_dist (sq_k_head (wr_mem r)) (sq_k_tail (wr_mem r)). \<forall>x \<in> set (wr_buf r).
     store_loc (snd x) \<noteq> LocEntry (slot (sq_ring_mask (wr_mem r)) (sq_k_head (wr_mem r) + of_nat j)))"

definition wr_contents :: "wring \<Rightarrow> SubmissionEntry list" where
  "wr_contents r = sq_contents (wr_view r)"

definition wr_capacity :: "wring \<Rightarrow> nat" where
  "wr_capacity r = sq_capacity (wr_view r)"

definition sample_wring :: wring where
  "sample_wring = \<lparr>wr_mem = sample_sq, wr_buf = []\<rparr>"

section \<open>Lemmas on the buffer\<close>

interpretation ring: store_buffer sq_store store_loc
proof unfold_locales
  show "sq_store a (sq_store b m) = sq_store b (sq_store a m)" if "store_loc a \<noteq> store_loc b" for a b m
    using that by (cases a; cases b) (simp_all add: list_update_swap)
qed

text \<open>The buffer holds tails and entries; all other fields of the view are those in memory.\<close>

lemma sq_store_frame [simp]:
  "sq_k_head (sq_store st q) = sq_k_head q" "sq_cached_head (sq_store st q) = sq_cached_head q"
  "sq_local_tail (sq_store st q) = sq_local_tail q" "sq_ring_mask (sq_store st q) = sq_ring_mask q"
  "sq_k_array (sq_store st q) = sq_k_array q" "length (sq_sces (sq_store st q)) = length (sq_sces q)"
  by (cases st; simp)+

lemma view_frame [simp]:
  "sq_k_head (buffer_view sq_store buf q) = sq_k_head q" "sq_cached_head (buffer_view sq_store buf q) = sq_cached_head q"
  "sq_local_tail (buffer_view sq_store buf q) = sq_local_tail q" "sq_ring_mask (buffer_view sq_store buf q) = sq_ring_mask q"
  "sq_k_array (buffer_view sq_store buf q) = sq_k_array q" "length (sq_sces (buffer_view sq_store buf q)) = length (sq_sces q)"
  by (induction buf arbitrary: q) (simp_all add: buffer_view_def)

lemma sq_store_update:
  "sq_store st (q\<lparr>sq_cached_head := c, sq_local_tail := l\<rparr>) = (sq_store st q)\<lparr>sq_cached_head := c, sq_local_tail := l\<rparr>"
  "sq_store st (q\<lparr>sq_k_head := c\<rparr>) = (sq_store st q)\<lparr>sq_k_head := c\<rparr>"
  "sq_store st (q\<lparr>sq_k_head := c, sq_k_dropped := l\<rparr>) = (sq_store st q)\<lparr>sq_k_head := c, sq_k_dropped := l\<rparr>"
  "sq_store st (q\<lparr>sq_k_flags := c\<rparr>) = (sq_store st q)\<lparr>sq_k_flags := c\<rparr>"
  by (cases st; simp)+

lemma view_update:
  "buffer_view sq_store buf (q\<lparr>sq_cached_head := c, sq_local_tail := l\<rparr>) = (buffer_view sq_store buf q)\<lparr>sq_cached_head := c, sq_local_tail := l\<rparr>"
  "buffer_view sq_store buf (q\<lparr>sq_k_head := c\<rparr>) = (buffer_view sq_store buf q)\<lparr>sq_k_head := c\<rparr>"
  "buffer_view sq_store buf (q\<lparr>sq_k_head := c, sq_k_dropped := l\<rparr>) = (buffer_view sq_store buf q)\<lparr>sq_k_head := c, sq_k_dropped := l\<rparr>"
  "buffer_view sq_store buf (q\<lparr>sq_k_flags := c\<rparr>) = (buffer_view sq_store buf q)\<lparr>sq_k_flags := c\<rparr>"
  by (induction buf arbitrary: q) (simp_all add: buffer_view_def sq_store_update)

lemma buffer_view_append: "buffer_view ap (xs @ ys) m = buffer_view ap ys (buffer_view ap xs m)"
  by (simp add: buffer_view_def)

lemma buffer_view_Cons: "buffer_view ap (x # xs) m = buffer_view ap xs (ap (snd x) m)"
  by (simp add: buffer_view_def)

lemma wr_view_assign: "wr_view (wr_assign v r) = (wr_view r)\<lparr>sq_cached_head := sq_cached_head v, sq_local_tail := sq_local_tail v\<rparr>"
  by (simp add: wr_view_def wr_assign_def view_update)

section \<open>Lemmas on fences\<close>

lemma fenced_mono: "fenced m h n buf \<Longrightarrow> n' \<le> n \<Longrightarrow> fenced m h n' buf"
  by (induction m h n buf arbitrary: n' rule: fenced.induct) auto

lemma view_tail: "sq_k_tail (buffer_view sq_store buf q) = last_tail (sq_k_tail q) buf"
proof (induction buf arbitrary: q)
  case (Cons x buf)
  then show ?case by (cases "(sq_k_tail q, x # buf)" rule: last_tail.cases) (simp_all add: buffer_view_Cons)
qed simp

lemma fenced_append:
  "fenced m h (ring_dist h t) (buf @ ys) \<longleftrightarrow> fenced m h (ring_dist h t) buf \<and> fenced m h (ring_dist h (last_tail t buf)) ys"
  by (induction t buf rule: last_tail.induct) auto

lemma fenced_last_tail: "fenced m h (ring_dist h t) buf \<Longrightarrow> ring_dist h t \<le> ring_dist h (last_tail t buf)"
  by (induction t buf rule: last_tail.induct) auto

lemma fenced_not_entry:
  "fenced m h n buf \<Longrightarrow> j < n \<Longrightarrow> x \<in> set buf \<Longrightarrow> store_loc (snd x) \<noteq> LocEntry (slot m (h + of_nat j))"
  by (induction m h n buf rule: fenced.induct) auto

lemma fenced_remove: "fenced m h n (xs @ (ord, StEntry i e) # ys) \<Longrightarrow> fenced m h n (xs @ ys)"
  by (induction m h n xs rule: fenced.induct) auto

lemma fenced_releases: "fenced m h n buf \<Longrightarrow> (ord, StTail v) \<in> set buf \<Longrightarrow> releases ord"
  by (induction m h n buf rule: fenced.induct) auto

lemma fenced_take:
  "fenced m h (Suc n) buf \<Longrightarrow> fenced m (h + 1) n buf"
proof (induction m h "Suc n" buf arbitrary: n rule: fenced.induct)
  case (2 m h ord v buf)
  then have "h \<noteq> v" by auto
  then have "ring_dist h v = Suc (ring_dist (h + 1) v)" by (rule ring_dist_Suc_left)
  with 2 show ?case by simp
next
  case (3 m h ord i e buf)
  have "i \<noteq> slot m (h + 1 + of_nat j)" if "j < n" for j
    using 3(2) that by (auto dest!: spec [of _ "Suc j"] simp: add.assoc)
  with 3 show ?case by simp
qed simp

text \<open>An entry no buffered store goes to is the same in memory and in the view.\<close>

lemma view_entry:
  "(\<And>x. x \<in> set buf \<Longrightarrow> store_loc (snd x) \<noteq> LocEntry i) \<Longrightarrow> sq_sces (buffer_view sq_store buf q) ! i = sq_sces q ! i"
proof (induction buf arbitrary: q)
  case (Cons x buf)
  then have "store_loc (snd x) \<noteq> LocEntry i" by simp
  then have "sq_sces (sq_store (snd x) q) ! i = sq_sces q ! i" by (cases "snd x") auto
  with Cons show ?case by (simp add: buffer_view_Cons)
qed simp

section \<open>Simulation\<close>

lemma wr_query_view:
  assumes "v = wr_view r \<or> v = (wr_view r)\<lparr>sq_cached_head := sq_k_head (wr_view r)\<rparr>"
  shows "wr_view (wr_assign v r) = v"
  using assms by (auto simp: wr_view_assign)

lemma wr_submit_view:
  assumes "sq_wf (wr_view r)" "wr_submit_with r f s = Done (r', s', res)"
  shows "bulk_submit_with (wr_view r) f s = Done (wr_view r', s', res)"
proof -
  let ?v = "wr_view r"
  obtain v1 b where full: "sq_is_full ?v = (v1, b)" by fastforce
  have v1: "v1 = ?v \<or> v1 = ?v\<lparr>sq_cached_head := sq_k_head ?v\<rparr>" using sq_is_full_state [of ?v] full by simp
  note eq = bulk_submit_with_eq [OF assms(1) full, of f s]
  have slot: "slot (sq_ring_mask ?v) (sq_local_tail ?v) < length (sq_sces ?v)" by (rule sq_slot_in_range [OF assms(1)])
  have entry: "wr_view (wr_assign v' r\<lparr>wr_buf := wr_buf r @ [(Relaxed, StEntry i (sq_sces v' ! i))]\<rparr>) = v'"
    if "v' = sq_scribble v1 e \<or> v' = sq_stage v1 e" "i = slot (sq_ring_mask ?v) (sq_local_tail ?v)" for v' e i
  proof -
    have "wr_view (wr_assign v' r\<lparr>wr_buf := wr_buf r @ [(Relaxed, StEntry i (sq_sces v' ! i))]\<rparr>) =
        sq_store (StEntry i (sq_sces v' ! i)) (wr_view (wr_assign v' r))"
      by (simp add: wr_view_def wr_assign_def buffer_view_append buffer_view_Cons)
    also have "\<dots> = v'"
      using that v1 slot by (auto simp: wr_view_assign sq_scribble_def sq_stage_def)
    finally show ?thesis .
  qed
  show ?thesis
  proof (cases b)
    case True
    with assms(2) full eq show ?thesis by (auto simp: wr_submit_with_def Let_def wr_query_view [OF v1])
  next
    case False
    with assms(2) full eq show ?thesis
      by (cases "f s zeroed_entry")
        (auto simp: wr_submit_with_def Let_def entry [OF disjI1 [OF refl] refl] entry [OF disjI2 [OF refl] refl] split: rresult.splits)
  qed
qed

lemma wr_flush_view:
  assumes "wr_flush_tail ord r = Some r'"
  shows "wr_view r' = bulk_drop (wr_view r)"
proof -
  obtain buf m where st: "buffer_store sq_store ord (StTail (sq_local_tail (wr_view r))) (wr_buf r, wr_mem r) = Some (buf, m)"
    and r': "r' = r\<lparr>wr_buf := buf, wr_mem := m\<rparr>"
    using assms by (auto simp: wr_flush_tail_def)
  from ring.view_store [OF st] r' show ?thesis by (simp add: wr_view_def bulk_drop_def sq_flush_tail_def)
qed

lemma wr_drain_view:
  assumes "can_drain store_loc (wr_buf r) i" "drain_at sq_store i (wr_buf r, wr_mem r) = (buf, m)"
  shows "wr_view (r\<lparr>wr_buf := buf, wr_mem := m\<rparr>) = wr_view r"
  using ring.view_drain [OF assms(1), of "wr_mem r"] assms(2) by (simp add: wr_view_def)

lemma wr_user_sim:
  assumes "sq_wf (wr_view r)" "wr_user_step ord r xs r'"
  shows "sq_user_step (wr_view r) xs (wr_view r') \<or> xs = [] \<and> wr_view r' = wr_view r"
  using assms(2)
proof cases
  case (wr_submit e)
  with wr_submit_view [OF assms(1) wr_submit(2)] show ?thesis by (auto intro: user_submit)
next
  case (wr_submit_full e x)
  with wr_submit_view [OF assms(1) wr_submit_full(2)] show ?thesis by (auto intro: user_submit_full)
next
  case (wr_submit_failing e res)
  with wr_submit_view [OF assms(1) wr_submit_failing(2)] show ?thesis by (auto intro: user_submit_failing)
next
  case wr_publish
  with wr_flush_view [OF wr_publish(2)] show ?thesis by (auto intro: user_publish)
next
  case wr_is_full
  with wr_query_view [OF sq_is_full_state] user_is_full [of "wr_view r"] show ?thesis by simp
next
  case wr_has_pending
  then have "wr_view r' = fst (sq_has_pending_submissions (wr_view r))"
    by (simp add: wr_query_view sq_has_pending_submissions_def sq_refresh_head_def Let_def)
  with user_has_pending [of "wr_view r"] wr_has_pending(1) show ?thesis by simp
next
  case (wr_pending p v' n)
  with wr_query_view [of v' r] sq_pending_Done [OF wr_pending(3)] show ?thesis by (auto intro: user_pending)
next
  case (wr_drain i buf m)
  with wr_drain_view [OF wr_drain(3,4)] show ?thesis by simp
qed

lemma wr_kernel_sim:
  assumes inv: "wr_inv r" and "wr_kernel_step r xs r'"
  shows "sq_kernel_step (wr_view r) xs (wr_view r')"
  using assms(2)
proof cases
  case (wr_kernel m)
  let ?q = "wr_mem r" and ?v = "wr_view r"
  let ?h = "sq_k_head ?q"
  have wf: "sq_wf ?v" and fen: "fenced (sq_ring_mask ?q) ?h (ring_dist ?h (sq_k_tail ?q)) (wr_buf r)"
    using inv by (simp_all add: wr_inv_def wr_fenced_def)
  from wr_kernel(2) show ?thesis
  proof cases
    case kernel_take
    have n: "0 < ring_dist ?h (sq_k_tail ?q)" using kernel_take(3) by (simp add: ring_dist_def unat_gt_0)
    have "0 < ring_dist ?h (last_tail (sq_k_tail ?q) (wr_buf r))" using fenced_last_tail [OF fen] n by linarith
    then have ne: "sq_k_head ?v \<noteq> sq_k_tail ?v" by (auto simp: wr_view_def view_tail)
    have len: "unat (sq_k_array ?v ! slot (sq_ring_mask ?v) (sq_k_head ?v)) < length (sq_sces ?v)"
      by (rule sq_index_valid [OF wf])
    have idx: "unat (sq_k_array ?q ! slot (sq_ring_mask ?q) ?h) = slot (sq_ring_mask ?q) ?h"
      using sq_index_identity [OF wf, of ?h] by (simp add: wr_view_def)
    have "sq_entry_at ?v ?h = sq_entry_at ?q ?h"
      using view_entry [of "wr_buf r" "slot (sq_ring_mask ?q) ?h" ?q] fenced_not_entry [OF fen n]
      by (simp add: sq_entry_at_def idx wr_view_def)
    with sq_kernel_step.kernel_take [OF ne len] wr_kernel kernel_take show ?thesis
      by (simp add: wr_view_def view_update)
  next
    case kernel_drop_invalid
    with sq_index_valid [OF wf, of ?h] show ?thesis by (simp add: wr_view_def)
  next
    case (kernel_set_flags f)
    with sq_kernel_step.kernel_set_flags [of ?v f] wr_kernel show ?thesis by (simp add: wr_view_def view_update)
  qed
qed

section \<open>Invariance\<close>

lemma wr_view_room:
  assumes "sq_wf v"
  shows "ring_dist (sq_k_head v) (sq_k_tail v) \<le> ring_dist (sq_k_head v) (sq_local_tail v)"
    and "\<not> snd (sq_is_full v) \<Longrightarrow> j < ring_dist (sq_k_head v) (sq_k_tail v) \<Longrightarrow>
      slot (sq_ring_mask v) (sq_local_tail v) \<noteq> slot (sq_ring_mask v) (sq_k_head v + of_nat j)"
proof -
  let ?h = "sq_k_head v"
  obtain k where k: "k < 32" "sq_ring_mask v = mask k" "length (sq_sces v) = 2 ^ k"
    and d: "ring_dist (sq_cached_head v) ?h + ring_dist ?h (sq_k_tail v) + ring_dist (sq_k_tail v) (sq_local_tail v) \<le> 2 ^ k"
    using assms by (rule sq_wfE)
  from ring_chain3(1) [OF d k(1)] show le: "ring_dist ?h (sq_k_tail v) \<le> ring_dist ?h (sq_local_tail v)" by simp
  assume nf: "\<not> snd (sq_is_full v)" and j: "j < ring_dist ?h (sq_k_tail v)"
  obtain v' b where full: "sq_is_full v = (v', b)" by fastforce
  have "ring_dist ?h (sq_local_tail v) < 2 ^ k"
    using sq_is_full_exact [OF assms full] sq_contents_bounded [OF assms] nf full k(3)
    by (simp add: length_sq_contents sq_capacity_def)
  then have "slot (mask k) (?h + of_nat (ring_dist ?h (sq_local_tail v))) \<noteq> slot (mask k) (?h + of_nat j)"
    using j le k(1) by (subst slot_inj) auto
  then show "slot (sq_ring_mask v) (sq_local_tail v) \<noteq> slot (sq_ring_mask v) (?h + of_nat j)"
    by (simp add: k(2) ring_dist_add)
qed

lemma wr_fenced_assign [simp]: "wr_fenced (wr_assign v r) = wr_fenced r"
  by (simp add: wr_fenced_def wr_assign_def)

lemma wr_fenced_submit:
  assumes "sq_wf (wr_view r)" "wr_fenced r" "wr_submit_with r f s = Done (r', s', res)"
  shows "wr_fenced r'"
proof -
  have "wr_fenced (r\<lparr>wr_buf := wr_buf r @ [(Relaxed, StEntry (slot (sq_ring_mask (wr_view r)) (sq_local_tail (wr_view r))) e)]\<rparr>)"
    if "\<not> snd (sq_is_full (wr_view r))" for e
    using wr_view_room(2) [OF assms(1) that] assms(2)
    by (simp add: wr_fenced_def fenced_append wr_view_def view_tail)
  moreover have "wr_assign v r\<lparr>wr_buf := b\<rparr> = wr_assign v (r\<lparr>wr_buf := b\<rparr>)" for v b by (simp add: wr_assign_def)
  ultimately show ?thesis using assms(2,3)
    by (cases "bulk_submit_with (wr_view r) f s") (auto simp: wr_submit_with_def Let_def split: if_splits)
qed

lemma wr_fenced_flush:
  assumes "sq_wf (wr_view r)" "wr_fenced r" "releases ord" "wr_flush_tail ord r = Some r'"
  shows "wr_fenced r'"
  using assms wr_view_room(1) [OF assms(1)]
  by (auto simp: wr_fenced_def wr_flush_tail_def buffer_store_def fenced_append wr_view_def view_tail split: if_splits)

lemma wr_fenced_drain:
  assumes "wr_fenced r" "can_drain store_loc (wr_buf r) i" "drain_at sq_store i (wr_buf r, wr_mem r) = (buf, m)"
  shows "wr_fenced (r\<lparr>wr_buf := buf, wr_mem := m\<rparr>)"
proof -
  have i: "i < length (wr_buf r)" using assms(2) by (simp add: can_drain_def)
  have split: "wr_buf r = take i (wr_buf r) @ wr_buf r ! i # drop (Suc i) (wr_buf r)" by (rule id_take_nth_drop [OF i])
  obtain ord st where st: "wr_buf r ! i = (ord, st)" by fastforce
  have out: "buf = take i (wr_buf r) @ drop (Suc i) (wr_buf r)" "m = sq_store st (wr_mem r)"
    using assms(3) st by (auto simp: drain_at_def)
  show ?thesis
  proof (cases st)
    case (StTail v)
    have "releases ord"
      using fenced_releases [of _ _ _ "wr_buf r" ord v] assms(1) nth_mem [OF i] st StTail by (auto simp: wr_fenced_def)
    then have "i = 0" using assms(2) st by (simp add: can_drain_def)
    with assms(1) split st StTail out show ?thesis
      by (cases "wr_buf r") (auto simp: wr_fenced_def)
  next
    case (StEntry j e)
    have "fenced (sq_ring_mask (wr_mem r)) (sq_k_head (wr_mem r)) (ring_dist (sq_k_head (wr_mem r)) (sq_k_tail (wr_mem r)))
        (take i (wr_buf r) @ (ord, StEntry j e) # drop (Suc i) (wr_buf r))"
      using assms(1) split st StEntry by (simp add: wr_fenced_def)
    from fenced_remove [OF this] StEntry out show ?thesis by (simp add: wr_fenced_def)
  qed
qed

lemma wr_inv_user:
  assumes "releases ord" "wr_inv r" "wr_user_step ord r xs r'"
  shows "wr_inv r'"
proof -
  have wf: "sq_wf (wr_view r)" and fen: "wr_fenced r" using assms(2) by (simp_all add: wr_inv_def)
  have "sq_wf (wr_view r')"
    using wr_user_sim [OF wf assms(3)] sq_user_step_laws [OF wf] wf by metis
  moreover from assms(3) have "wr_fenced r'"
    by cases (use fen wr_fenced_submit [OF wf fen] wr_fenced_flush [OF wf fen assms(1)] wr_fenced_drain [OF fen] in auto)
  ultimately show ?thesis by (simp add: wr_inv_def)
qed

lemma wr_inv_kernel:
  assumes "wr_inv r" "wr_kernel_step r xs r'"
  shows "wr_inv r'"
proof -
  have wf: "sq_wf (wr_view r)" and fen: "wr_fenced r" using assms(1) by (simp_all add: wr_inv_def)
  have "sq_wf (wr_view r')" using sq_kernel_step_laws [OF wf wr_kernel_sim [OF assms]] by simp
  moreover from assms(2) have "wr_fenced r'"
  proof cases
    case (wr_kernel m)
    from wr_kernel(2) show ?thesis
    proof cases
      case kernel_take
      from ring_dist_Suc_left [OF kernel_take(3)] fen wr_kernel(1) kernel_take(2) show ?thesis
        by (simp add: wr_fenced_def fenced_take)
    next
      case kernel_drop_invalid
      from ring_dist_Suc_left [OF kernel_drop_invalid(3)] fen wr_kernel(1) kernel_drop_invalid(2) show ?thesis
        by (simp add: wr_fenced_def fenced_take)
    next
      case (kernel_set_flags f)
      with fen wr_kernel(1) show ?thesis by (simp add: wr_fenced_def)
    qed
  qed
  ultimately show ?thesis by (simp add: wr_inv_def)
qed

interpretation wr: ring_transport wr_inv wr_contents wr_capacity "wr_user_step flush_order" wr_kernel_step
proof unfold_locales
  have ord: "releases flush_order" by (simp add: flush_order_def releases_def)
  fix r xs r'
  assume inv: "wr_inv r"
  then have wf: "sq_wf (wr_view r)" by (simp add: wr_inv_def)
  show "length (wr_contents r) \<le> wr_capacity r"
    using sq_contents_bounded [OF wf] by (simp add: wr_contents_def wr_capacity_def)
  show "wr_inv r'" "wr_contents r' = wr_contents r @ xs" "wr_capacity r' = wr_capacity r"
    if "wr_user_step flush_order r xs r'"
    using wr_inv_user [OF ord inv that] wr_user_sim [OF wf that] sq_user_step_laws [OF wf]
    by (auto simp: wr_contents_def wr_capacity_def)
  show "wr_inv r'" "wr_contents r = xs @ wr_contents r'" "wr_capacity r' = wr_capacity r"
    if "wr_kernel_step r xs r'"
    using wr_inv_kernel [OF inv that] sq_kernel_step_laws [OF wf wr_kernel_sim [OF inv that]]
    by (simp_all add: wr_contents_def wr_capacity_def)
qed

lemma wr_inv_start: "wr_buf r = [] \<Longrightarrow> sq_wf (wr_mem r) \<Longrightarrow> wr_inv r"
  by (simp add: wr_inv_def wr_view_def wr_fenced_def)

lemma wr_inv_settled: "wr_inv r \<Longrightarrow> settled r"
  using fenced_not_entry by (fastforce simp: settled_def wr_inv_def wr_fenced_def)

lemma wr_run_sim:
  assumes "transport_run (wr_user_step flush_order) wr_kernel_step r sent recv r'" "wr_inv r"
  shows "transport_run sq_user_step sq_kernel_step (wr_view r) sent recv (wr_view r')"
  using assms
proof (induction rule: transport_run.induct)
  case (run_produce r sent recv r' xs r'')
  then have "sq_wf (wr_view r')" using wr.run_invariant by (fastforce simp: wr_inv_def)
  from wr_user_sim [OF this run_produce(2)] run_produce show ?case
    by (auto intro: transport_run.run_produce)
next
  case (run_consume r sent recv r' xs r'')
  then have "wr_inv r'" using wr.run_invariant by blast
  from wr_kernel_sim [OF this run_consume(2)] run_consume show ?case
    by (auto intro: transport_run.run_consume)
qed (rule run_start)

text \<open>One entry through the ring of the example, up to the store of the tail.\<close>

lemma sample_submit:
  "wr_user_step ord sample_wring [e] \<lparr>wr_mem = sample_sq\<lparr>sq_local_tail := 0\<rparr>, wr_buf = [(Relaxed, StEntry 1 e)]\<rparr>"
proof (rule wr_submit)
  have full: "sq_is_full sample_sq = (sample_sq, False)" by (simp add: sq_is_full_def sq_head_def sample_sq_def Let_def)
  show "wr_submit_with sample_wring (\<lambda>s _. Done (s, e, Ok ())) () =
      Done (\<lparr>wr_mem = sample_sq\<lparr>sq_local_tail := 0\<rparr>, wr_buf = [(Relaxed, StEntry 1 e)]\<rparr>, (), Ok () :: (unit, unit SubmissionError) rresult)"
    by (simp add: wr_submit_with_def sample_wring_def wr_view_def full bulk_submit_with_eq [OF sample_sq_wf full]
        sq_stage_def sq_scribble_def wr_assign_def slot_def) (simp add: sample_sq_def)
qed

lemma sample_submit_run:
  "transport_run (wr_user_step ord) wr_kernel_step sample_wring [e] []
     \<lparr>wr_mem = sample_sq\<lparr>sq_local_tail := 0\<rparr>, wr_buf = [(Relaxed, StEntry 1 e)]\<rparr>"
  by (rule transport_run_producer) (rule sample_submit)

lemma sample_publish:
  "ord \<noteq> SeqCst \<Longrightarrow> wr_user_step ord \<lparr>wr_mem = sample_sq\<lparr>sq_local_tail := 0\<rparr>, wr_buf = [(Relaxed, StEntry 1 e)]\<rparr> []
     \<lparr>wr_mem = sample_sq\<lparr>sq_local_tail := 0\<rparr>, wr_buf = [(Relaxed, StEntry 1 e), (ord, StTail 0)]\<rparr>"
  by (rule wr_publish) (simp add: wr_flush_tail_def buffer_store_def wr_view_def)

lemma sample_take:
  "wr_kernel_step \<lparr>wr_mem = sample_sq\<lparr>sq_local_tail := 0, sq_k_tail := 0, sq_sces := [zeroed_entry, x]\<rparr>, wr_buf = b\<rparr> [x]
     \<lparr>wr_mem = sample_sq\<lparr>sq_local_tail := 0, sq_k_tail := 0, sq_sces := [zeroed_entry, x], sq_k_head := 0\<rparr>, wr_buf = b\<rparr>"
proof -
  let ?m = "sample_sq\<lparr>sq_local_tail := 0, sq_k_tail := 0, sq_sces := [zeroed_entry, x]\<rparr>"
  have "sq_kernel_step ?m [x] (?m\<lparr>sq_k_head := 0\<rparr>)"
    using kernel_take [of ?m] by (simp add: sample_sq_def sq_entry_at_def slot_def)
  from wr_kernel [of "\<lparr>wr_mem = ?m, wr_buf = b\<rparr>" "[x]"] this show ?thesis by simp
qed

section \<open>Properties\<close>

text \<open>
  C8. The release store of \<open>flush_tail\<close> is enough. With the stores of the submitting thread delayed and reordered
  as their orderings allow, every run of the submission queue against the kernel is a run of the queue with stores that take
  effect at once, as the submitting thread sees it: the kernel gets the submitted entries exactly once, unchanged and in order, and no
  store to an entry the kernel may read is ever in flight.
\<close>

theorem release_tail_refines_interleaving:
  assumes "transport_run (wr_user_step flush_order) wr_kernel_step r sent recv r'" "sq_wf (wr_mem r)" "wr_buf r = []"
  shows "transport_run sq_user_step sq_kernel_step (wr_mem r) sent recv (wr_view r') \<and>
    sq_contents (wr_mem r) @ sent = recv @ sq_contents (wr_view r') \<and> settled r'"
proof -
  have inv: "wr_inv r" using assms(2,3) by (simp add: wr_inv_start)
  have view: "wr_view r = wr_mem r" using assms(3) by (simp add: wr_view_def)
  show ?thesis
    using wr_run_sim [OF assms(1) inv] wr.run_fifo [OF assms(1) inv] wr.run_invariant [OF assms(1) inv] wr_inv_settled
    by (simp add: view wr_contents_def)
qed

theorem release_tail_refines_interleaving_witness:
  "\<exists>r'. transport_run (wr_user_step flush_order) wr_kernel_step sample_wring [zeroed_entry] [] r' \<and> wr_buf r' \<noteq> [] \<and>
     transport_run sq_user_step sq_kernel_step sample_sq [zeroed_entry] [] (wr_view r') \<and> settled r'"
proof -
  let ?r = "\<lparr>wr_mem = sample_sq\<lparr>sq_local_tail := 0\<rparr>, wr_buf = [(Relaxed, StEntry 1 zeroed_entry), (flush_order, StTail 0)]\<rparr>"
  have run: "transport_run (wr_user_step flush_order) wr_kernel_step sample_wring ([zeroed_entry] @ []) [] ?r"
    by (rule run_produce [OF sample_submit_run sample_publish]) (simp add: flush_order_def)
  have "sq_wf (wr_mem sample_wring)" "wr_buf sample_wring = []" by (simp_all add: sample_wring_def sample_sq_wf)
  from release_tail_refines_interleaving [OF run this] run show ?thesis
    by (intro exI [of _ ?r]) (simp add: sample_wring_def)
qed

text \<open>
  Without it the ring would break: with a relaxed store of the tail the kernel can take an entry before its contents have arrived.
  The thread submits an entry \<open>e\<close>, the tail overtakes it, and the kernel gets what was in the slot before.
\<close>

theorem relaxed_tail_delivers_stale_entry:
  "\<exists>r'. transport_run (wr_user_step Relaxed) wr_kernel_step sample_wring [e] [zeroed_entry] r'"
proof -
  let ?m = "sample_sq\<lparr>sq_local_tail := 0\<rparr>"
  have drain: "wr_user_step Relaxed \<lparr>wr_mem = ?m, wr_buf = [(Relaxed, StEntry 1 e), (Relaxed, StTail 0)]\<rparr> []
      \<lparr>wr_mem = ?m\<lparr>sq_k_tail := 0, sq_sces := [zeroed_entry, zeroed_entry]\<rparr>, wr_buf = [(Relaxed, StEntry 1 e)]\<rparr>"
    using wr_drain [of "\<lparr>wr_mem = ?m, wr_buf = [(Relaxed, StEntry 1 e), (Relaxed, StTail 0)]\<rparr>" 1 "[(Relaxed, StEntry 1 e)]" "?m\<lparr>sq_k_tail := 0\<rparr>" Relaxed]
    by (simp add: can_drain_def drain_at_def releases_def) (simp add: sample_sq_def)
  have "transport_run (wr_user_step Relaxed) wr_kernel_step sample_wring (([e] @ []) @ []) ([] @ [zeroed_entry])
      \<lparr>wr_mem = ?m\<lparr>sq_k_tail := 0, sq_sces := [zeroed_entry, zeroed_entry], sq_k_head := 0\<rparr>, wr_buf = [(Relaxed, StEntry 1 e)]\<rparr>"
    by (rule run_consume [OF run_produce [OF run_produce [OF sample_submit_run sample_publish] drain]])
      (use sample_take [of zeroed_entry] in simp_all)
  then show ?thesis by auto
qed

end
