(* ===== verification/Ring_Loads.thy ===== *)
theory Ring_Loads
  imports Completion_Queue Store_Buffer
begin

text \<open>
  The completion queue with the memory orderings of its loads. The kernel writes an entry and then, with a releasing store,
  the tail; user space may see old values of both. A load of a location reads the value it had after some number of the kernel's
  writes, not fewer than any load of that location has seen before (coherence). An acquiring load of the tail that sees the tail after
  \<open>n\<close> posts makes the entries of these \<open>n\<close> posts visible; a relaxed one does not. The operations are those of
  \<open>Completion_Queue\<close>, run on what the loads return. The head is stored with release ordering, so it is written after the loads
  of the entries it gives back.
\<close>

section \<open>Writes, loads and steps\<close>

text \<open>
  \<open>cr_q\<close> has the thread's own fields, the head, and the tail and entries as they were at the start; \<open>cr_writes\<close>
  are the entries the kernel has written since, \<open>cr_published\<close> how many of them its tail includes. \<open>cr_seen_tail\<close>
  and \<open>cr_seen\<close> are the numbers of writes user space has seen at least, for the tail and for each slot.
\<close>

record cring =
  cr_q :: CompletionQueue
  cr_writes :: "CompletionEntry list"
  cr_published :: nat
  cr_seen_tail :: nat
  cr_seen :: "nat \<Rightarrow> nat"

primrec cqe_writes :: "u32 \<Rightarrow> u32 \<Rightarrow> CompletionEntry list \<Rightarrow> CompletionEntry list \<Rightarrow> CompletionEntry list" where
  "cqe_writes m t [] xs = xs"
| "cqe_writes m t (e # es) xs = cqe_writes m (t + 1) es (xs[slot m t := e])"

definition cr_entries :: "nat \<Rightarrow> cring \<Rightarrow> CompletionEntry list" where
  "cr_entries j r = cqe_writes (cq_ring_mask (cr_q r)) (cq_k_tail (cr_q r)) (take j (cr_writes r)) (cq_cqes (cr_q r))"

text \<open>The queue as loads at these positions see it, and as the kernel sees it.\<close>

definition cr_at :: "nat \<Rightarrow> nat \<Rightarrow> cring \<Rightarrow> CompletionQueue" where
  "cr_at jt je r = (cr_q r)\<lparr>cq_k_tail := cq_k_tail (cr_q r) + of_nat jt, cq_cqes := cr_entries je r\<rparr>"

definition cr_newest :: "cring \<Rightarrow> CompletionQueue" where
  "cr_newest r = cr_at (cr_published r) (cr_published r) r"

definition acquires :: "ordering \<Rightarrow> bool" where
  "acquires ord \<longleftrightarrow> ord = OrdAcquire \<or> ord = OrdAcqRel \<or> ord = SeqCst"

text \<open>\<open>refresh_tail\<close>: the load of the tail, with its ordering, and of an entry.\<close>

definition cr_load_tail :: "ordering \<Rightarrow> nat \<Rightarrow> cring \<Rightarrow> cring" where
  "cr_load_tail ord jt r = r\<lparr>cr_seen_tail := jt,
     cr_seen := (if acquires ord then \<lambda>i. max (cr_seen r i) jt else cr_seen r)\<rparr>"

definition cr_load_entry :: "nat \<Rightarrow> nat \<Rightarrow> cring \<Rightarrow> cring" where
  "cr_load_entry i je r = r\<lparr>cr_seen := (cr_seen r)(i := je)\<rparr>"

definition cr_may_load_tail :: "nat \<Rightarrow> cring \<Rightarrow> bool" where
  "cr_may_load_tail jt r \<longleftrightarrow> cr_seen_tail r \<le> jt \<and> jt \<le> cr_published r"

definition cr_may_load_entry :: "nat \<Rightarrow> nat \<Rightarrow> cring \<Rightarrow> bool" where
  "cr_may_load_entry i je r \<longleftrightarrow> cr_seen r i \<le> je \<and> je \<le> length (cr_writes r)"

definition refresh_order :: ordering where
  "refresh_order = OrdAcquire"

text \<open>
  \<open>next\<close>: \<open>is_empty\<close> loads the tail if the cached one is used up; then the entry is loaded, if there is one.
\<close>

definition cr_refresh :: "ordering \<Rightarrow> nat \<Rightarrow> cring \<Rightarrow> cring" where
  "cr_refresh ord jt r = (if cq_cached_tail (cr_q r) = cq_local_head (cr_q r) then cr_load_tail ord jt r else r)"

definition cr_next :: "ordering \<Rightarrow> nat \<Rightarrow> nat \<Rightarrow> cring \<Rightarrow> (cring \<times> CompletionEntry option) outcome" where
  "cr_next ord jt je r = obind (bulk_next (cr_at jt je r)) (\<lambda>(q', res).
     let r1 = cr_refresh ord jt r;
         r2 = (if res = None then r1 else cr_load_entry (slot (cq_ring_mask (cr_q r)) (cq_local_head (cr_q r))) je r1) in
     Done (r2\<lparr>cr_q := (cr_q r)\<lparr>cq_local_head := cq_local_head q', cq_cached_tail := cq_cached_tail q'\<rparr>\<rparr>, res))"

inductive cr_user_step :: "ordering \<Rightarrow> cring \<Rightarrow> CompletionEntry list \<Rightarrow> cring \<Rightarrow> bool" for ord where
  cr_user_next: "cr_may_load_tail jt r \<Longrightarrow>
    cr_may_load_entry (slot (cq_ring_mask (cr_q r)) (cq_local_head (cr_q r))) je (cr_refresh ord jt r) \<Longrightarrow>
    cr_next ord jt je r = Done (r', Some e) \<Longrightarrow> cr_user_step ord r [e] r'"
| cr_user_none: "cr_may_load_tail jt r \<Longrightarrow> cr_next ord jt je r = Done (r', None) \<Longrightarrow> cr_user_step ord r [] r'"
| cr_user_drop: "cr_user_step ord r [] (r\<lparr>cr_q := bulk_completion_drop (cr_q r)\<rparr>)"

text \<open>The kernel writes the entry, then the tail; when the ring is full it counts an overflow.\<close>

inductive cr_kernel_step :: "cring \<Rightarrow> CompletionEntry list \<Rightarrow> cring \<Rightarrow> bool" where
  cr_fill: "cr_published r = length (cr_writes r) \<Longrightarrow> \<not> cq_kernel_full (cr_newest r) \<Longrightarrow>
    cr_kernel_step r [] (r\<lparr>cr_writes := cr_writes r @ [e]\<rparr>)"
| cr_publish: "cr_published r < length (cr_writes r) \<Longrightarrow>
    cr_kernel_step r [cr_writes r ! cr_published r] (r\<lparr>cr_published := Suc (cr_published r)\<rparr>)"
| cr_overflow: "cr_published r = length (cr_writes r) \<Longrightarrow> cq_kernel_full (cr_newest r) \<Longrightarrow>
    cr_kernel_step r [] (r\<lparr>cr_q := (cr_q r)\<lparr>cq_k_overflow := cq_k_overflow (cr_q r) + 1\<rparr>\<rparr>)"

inductive_cases cr_user_stepE: "cr_user_step ord r xs r'"
inductive_cases cr_kernel_stepE: "cr_kernel_step r xs r'"

section \<open>Invariant\<close>

text \<open>The number of posts the cached tail is behind, and the number it includes (0 if it is older than the start).\<close>

definition cr_lag :: "cring \<Rightarrow> nat" where
  "cr_lag r = ring_dist (cq_cached_tail (cr_q r)) (cq_k_tail (cr_newest r))"

definition cr_known :: "cring \<Rightarrow> nat" where
  "cr_known r = cr_published r - cr_lag r"

definition inv_writes :: "cring \<Rightarrow> bool" where
  "inv_writes r \<longleftrightarrow> cr_published r = length (cr_writes r) \<or>
     Suc (cr_published r) = length (cr_writes r) \<and> \<not> cq_kernel_full (cr_newest r)"

definition inv_seen :: "cring \<Rightarrow> bool" where
  "inv_seen r \<longleftrightarrow> cr_known r \<le> cr_seen_tail r \<and> cr_seen_tail r \<le> cr_published r \<and> (\<forall>i. cr_known r \<le> cr_seen r i)"

definition cr_inv :: "cring \<Rightarrow> bool" where
  "cr_inv r \<longleftrightarrow> cq_wf (cr_newest r) \<and> inv_writes r \<and> inv_seen r"

lemmas cr_invs = cr_inv_def inv_writes_def inv_seen_def

definition cr_contents :: "cring \<Rightarrow> CompletionEntry list" where
  "cr_contents r = cq_contents (cr_newest r)"

definition cr_capacity :: "cring \<Rightarrow> nat" where
  "cr_capacity r = cq_capacity (cr_newest r)"

text \<open>Every load that \<open>next\<close> may make of an entry up to the cached tail returns what the kernel posted.\<close>

definition cr_current :: "cring \<Rightarrow> bool" where
  "cr_current r \<longleftrightarrow> (\<forall>n < ring_dist (cq_local_head (cr_q r)) (cq_cached_tail (cr_q r)).
     \<forall>je \<in> {0..length (cr_writes r)}.
       let i = slot (cq_ring_mask (cr_q r)) (cq_local_head (cr_q r) + of_nat n) in
       cr_may_load_entry i je r \<longrightarrow> cr_entries je r ! i = cq_cqes (cr_newest r) ! i)"

definition sample_cring :: cring where
  "sample_cring = \<lparr>cr_q = \<lparr>cq_k_head = 0, cq_local_head = 0, cq_k_tail = 0, cq_cached_tail = 0, cq_ring_mask = 1,
     cq_k_overflow = 0, cq_cqes = [\<lparr>ce_user_data = 0, ce_res = 0, ce_flags = 0\<rparr>, \<lparr>ce_user_data = 0, ce_res = 0, ce_flags = 0\<rparr>]\<rparr>,
     cr_writes = [], cr_published = 0, cr_seen_tail = 0, cr_seen = (\<lambda>_. 0)\<rparr>"

section \<open>Lemmas on writes\<close>

lemma length_cqe_writes [simp]: "length (cqe_writes m t es xs) = length xs"
  by (induction es arbitrary: t xs) simp_all

lemma cqe_writes_snoc: "cqe_writes m t (es @ [e]) xs = (cqe_writes m t es xs)[slot m (t + of_nat (length es)) := e]"
  by (induction es arbitrary: t xs) (simp_all add: add.assoc)

lemma cqe_writes_take_Suc:
  "j < length ws \<Longrightarrow> cqe_writes m t (take (Suc j) ws) xs = (cqe_writes m t (take j ws) xs)[slot m (t + of_nat j) := ws ! j]"
  by (simp add: take_Suc_conv_app_nth cqe_writes_snoc)

lemma cqe_writes_same:
  assumes "c \<le> j" "j \<le> length ws" "\<And>n. c \<le> n \<Longrightarrow> n < j \<Longrightarrow> slot m (t + of_nat n) \<noteq> i"
  shows "cqe_writes m t (take j ws) xs ! i = cqe_writes m t (take c ws) xs ! i"
  using assms
proof (induction j rule: dec_induct)
  case (step n)
  then show ?case by (simp add: cqe_writes_take_Suc)
qed simp

lemma cr_newest_simps [simp]:
  "cq_k_head (cr_newest r) = cq_k_head (cr_q r)" "cq_local_head (cr_newest r) = cq_local_head (cr_q r)"
  "cq_cached_tail (cr_newest r) = cq_cached_tail (cr_q r)" "cq_ring_mask (cr_newest r) = cq_ring_mask (cr_q r)"
  "cq_k_tail (cr_newest r) = cq_k_tail (cr_q r) + of_nat (cr_published r)"
  "cq_cqes (cr_newest r) = cr_entries (cr_published r) r"
  by (simp_all add: cr_newest_def cr_at_def)

lemma length_cr_entries [simp]: "length (cr_entries j r) = length (cq_cqes (cr_q r))"
  by (simp add: cr_entries_def)

lemma counter_shift:
  fixes l :: "'a::len word"
  assumes "c + g = t + p" "l + d = c"
  shows "t + n = l + (d + (n + g - p))"
proof -
  have "l + (d + (n + g - p)) = (c + g) + n - p" by (simp add: algebra_simps flip: assms(2))
  then show ?thesis by (simp add: assms(1))
qed

lemma cr_inv_room:
  assumes inv: "cr_inv r"
  obtains k where "k < 32" "cq_ring_mask (cr_q r) = mask k"
    "ring_dist (cq_local_head (cr_q r)) (cq_cached_tail (cr_q r)) + cr_lag r \<le> 2 ^ k"
    "Suc (cr_published r) = length (cr_writes r) \<longrightarrow>
      ring_dist (cq_local_head (cr_q r)) (cq_cached_tail (cr_q r)) + cr_lag r < 2 ^ k"
proof -
  have "cq_wf (cr_newest r)" using inv by (simp add: cr_inv_def)
  then obtain k where k: "k < 32" "cq_ring_mask (cr_newest r) = mask k" "length (cq_cqes (cr_newest r)) = 2 ^ k"
    and d: "ring_dist (cq_k_head (cr_newest r)) (cq_local_head (cr_newest r)) +
       ring_dist (cq_local_head (cr_newest r)) (cq_cached_tail (cr_newest r)) +
       ring_dist (cq_cached_tail (cr_newest r)) (cq_k_tail (cr_newest r)) \<le> 2 ^ k"
    by (rule cq_wfE)
  have "Suc (cr_published r) = length (cr_writes r) \<Longrightarrow> ring_dist (cq_k_head (cr_newest r)) (cq_k_tail (cr_newest r)) \<noteq> 2 ^ k"
    using inv k(3) by (auto simp: cr_invs cq_kernel_full_def cq_capacity_def)
  with k d ring_chain3(2) [OF d k(1)] show ?thesis
    by (intro that [of k] impI) (simp_all add: cr_lag_def le_neq_trans)
qed

text \<open>Slots up to the cached tail are not written between the post the cached tail includes and now.\<close>

lemma cr_entries_current:
  assumes inv: "cr_inv r" and n: "n < ring_dist (cq_local_head (cr_q r)) (cq_cached_tail (cr_q r))"
    and je: "cr_known r \<le> je" "je \<le> length (cr_writes r)"
  defines "i \<equiv> slot (cq_ring_mask (cr_q r)) (cq_local_head (cr_q r) + of_nat n)"
  shows "cr_entries je r ! i = cr_entries (cr_published r) r ! i"
proof -
  obtain k where k: "k < 32" "cq_ring_mask (cr_q r) = mask k"
    and d: "ring_dist (cq_local_head (cr_q r)) (cq_cached_tail (cr_q r)) + cr_lag r \<le> 2 ^ k"
      "Suc (cr_published r) = length (cr_writes r) \<longrightarrow>
        ring_dist (cq_local_head (cr_q r)) (cq_cached_tail (cr_q r)) + cr_lag r < 2 ^ k"
    using inv by (rule cr_inv_room)
  have other: "slot (mask k) (cq_k_tail (cr_q r) + of_nat n') \<noteq> i"
    if n': "cr_known r \<le> n'" "n' < length (cr_writes r)" for n'
  proof -
    let ?D = "ring_dist (cq_local_head (cr_q r)) (cq_cached_tail (cr_q r))"
    let ?j = "?D + (n' + cr_lag r - cr_published r)"
    have ge: "cr_published r \<le> n' + cr_lag r" using n'(1) by (simp add: cr_known_def)
    from ge have "of_nat (n' + cr_lag r - cr_published r) = of_nat n' + of_nat (cr_lag r) - (of_nat (cr_published r) :: u32)"
      by (simp add: of_nat_diff)
    moreover have "cq_cached_tail (cr_q r) + of_nat (cr_lag r) = cq_k_tail (cr_q r) + of_nat (cr_published r)"
      by (simp add: cr_lag_def ring_dist_add)
    moreover have "cq_local_head (cr_q r) + of_nat ?D = cq_cached_tail (cr_q r)" by (rule ring_dist_add)
    ultimately have eq: "cq_k_tail (cr_q r) + of_nat n' = cq_local_head (cr_q r) + of_nat ?j"
      by (simp only: of_nat_add) (rule counter_shift)
    have "cr_published r = length (cr_writes r) \<or> Suc (cr_published r) = length (cr_writes r)"
      using inv by (auto simp: cr_invs)
    then have "?j < 2 ^ k" using ge n' n d by linarith
    moreover have "n \<noteq> ?j" "n < 2 ^ k" using n d by simp_all
    ultimately show ?thesis
      using slot_inj [of k n ?j "cq_local_head (cr_q r)"] k by (simp add: eq i_def)
  qed
  have pub: "cr_known r \<le> cr_published r" "cr_published r \<le> length (cr_writes r)"
    using inv by (auto simp: cr_invs cr_known_def)
  have "cqe_writes (mask k) (cq_k_tail (cr_q r)) (take j (cr_writes r)) (cq_cqes (cr_q r)) ! i =
      cqe_writes (mask k) (cq_k_tail (cr_q r)) (take (cr_known r) (cr_writes r)) (cq_cqes (cr_q r)) ! i"
    if "cr_known r \<le> j" "j \<le> length (cr_writes r)" for j
    using that other by (intro cqe_writes_same) auto
  from this [OF je] this [OF pub] show ?thesis by (simp add: cr_entries_def k)
qed

lemma cr_inv_current:
  assumes "cr_inv r"
  shows "cr_current r"
proof -
  have known: "cr_known r \<le> cr_seen r i" for i using assms by (simp add: cr_invs)
  show ?thesis
    unfolding cr_current_def cr_may_load_entry_def Let_def cr_newest_simps
    by (intro allI ballI impI, rule cr_entries_current [OF assms]) (auto intro: le_trans [OF known])
qed

section \<open>Lemmas on steps\<close>

lemma ring_dist_of_nat: "n < 2 ^ LENGTH('a) \<Longrightarrow> ring_dist (a :: 'a::len word) (a + of_nat n) = n"
  by (simp add: ring_dist_def unsigned_of_nat take_bit_nat_eq_self)

text \<open>The kernel's steps are those of \<open>cq_post\<close>.\<close>

lemma cr_newest_fill: "cr_published r \<le> length (cr_writes r) \<Longrightarrow> cr_newest (r\<lparr>cr_writes := cr_writes r @ [e]\<rparr>) = cr_newest r"
  by (simp add: cr_newest_def cr_at_def cr_entries_def)

lemma cr_newest_publish:
  assumes "cr_published r < length (cr_writes r)" "\<not> cq_kernel_full (cr_newest r)"
  shows "cr_newest (r\<lparr>cr_published := Suc (cr_published r)\<rparr>) = cq_post (cr_writes r ! cr_published r) (cr_newest r)"
  using assms(2) by (simp add: cq_post_def) (simp add: cr_newest_def cr_at_def cr_entries_def cqe_writes_take_Suc [OF assms(1)] add.assoc)

lemma cr_newest_overflow:
  "cq_kernel_full (cr_newest r) \<Longrightarrow>
    cr_newest (r\<lparr>cr_q := (cr_q r)\<lparr>cq_k_overflow := cq_k_overflow (cr_q r) + 1\<rparr>\<rparr>) = cq_post e (cr_newest r)"
  by (simp add: cq_post_def) (simp add: cr_newest_def cr_at_def cr_entries_def)

lemma cr_kernel_step_laws:
  assumes inv: "cr_inv r" and step: "cr_kernel_step r xs r'"
  shows "cr_inv r'" "cr_contents r' = cr_contents r @ xs" "cr_capacity r' = cr_capacity r"
proof -
  have wf: "cq_wf (cr_newest r)" using inv by (simp add: cr_inv_def)
  have "cr_inv r' \<and> cr_contents r' = cr_contents r @ xs \<and> cr_capacity r' = cr_capacity r"
    using step
  proof cases
    case (cr_fill e)
    then have new: "cr_newest r' = cr_newest r" by (simp add: cr_newest_fill)
    with cr_fill inv show ?thesis
      by (simp add: cr_invs cr_contents_def cr_capacity_def cr_known_def cr_lag_def)
  next
    case cr_publish
    then have room: "\<not> cq_kernel_full (cr_newest r)" using inv by (auto simp: cr_invs)
    have new: "cr_newest r' = cq_post (cr_writes r ! cr_published r) (cr_newest r)"
      using cr_newest_publish [OF cr_publish(3) room] cr_publish(2) by simp
    note laws = cq_post_laws [OF wf, where e = "cr_writes r ! cr_published r"]
    obtain k where k: "k < 32" "length (cq_cqes (cr_newest r)) = 2 ^ k"
      and d: "ring_dist (cq_k_head (cr_newest r)) (cq_local_head (cr_newest r)) +
         ring_dist (cq_local_head (cr_newest r)) (cq_cached_tail (cr_newest r)) +
         ring_dist (cq_cached_tail (cr_newest r)) (cq_k_tail (cr_newest r)) \<le> 2 ^ k"
      using wf by (rule cq_wfE)
    have "cr_lag r < 2 ^ k"
      using room k(2) d ring_chain3 [OF d k(1)] by (simp add: cq_kernel_full_def cq_capacity_def cr_lag_def)
    then have "ring_dist (cq_cached_tail (cr_q r)) (cq_k_tail (cr_newest r) + 1) = Suc (cr_lag r)"
      unfolding cr_lag_def using exp_less_u32 [OF k(1)] by (intro ring_dist_Suc_right) linarith
    then have lag: "cr_lag r' = Suc (cr_lag r)"
      by (simp add: cr_lag_def cr_publish(2) add.assoc add.commute [of 1])
    then have "cr_known r' = cr_known r" by (simp add: cr_known_def cr_publish(2))
    with cr_publish(1,3) inv lag laws room new show ?thesis
      by (auto simp: cr_publish(2) cr_invs cr_contents_def cr_capacity_def)
  next
    case cr_overflow
    note laws = cq_post_laws [OF wf]
    have new: "cr_newest r' = cq_post e (cr_newest r)" for e
      using cr_newest_overflow [OF cr_overflow(4)] cr_overflow(2) by simp
    have "cr_known r' = cr_known r" by (simp add: cr_overflow(2) cr_known_def cr_lag_def)
    with cr_overflow inv new laws show ?thesis
      by (simp add: cr_invs cr_contents_def cr_capacity_def)
  qed
  then show "cr_inv r'" "cr_contents r' = cr_contents r @ xs" "cr_capacity r' = cr_capacity r" by auto
qed

text \<open>What \<open>next\<close> does: it settles what the cached tail is, and takes an entry if there is one.\<close>

definition cr_refreshed :: "ordering \<Rightarrow> nat \<Rightarrow> cring \<Rightarrow> cring" where
  "cr_refreshed ord jt r =
     (if cq_cached_tail (cr_q r) = cq_local_head (cr_q r)
      then (cr_load_tail ord jt r)\<lparr>cr_q := (cr_q r)\<lparr>cq_cached_tail := cq_k_tail (cr_q r) + of_nat jt\<rparr>\<rparr> else r)"

definition cr_taken :: "nat \<Rightarrow> cring \<Rightarrow> cring" where
  "cr_taken je r = (cr_load_entry (slot (cq_ring_mask (cr_q r)) (cq_local_head (cr_q r))) je r)
     \<lparr>cr_q := (cr_q r)\<lparr>cq_local_head := cq_local_head (cr_q r) + 1\<rparr>\<rparr>"

lemma cr_next_eq:
  assumes "cq_wf (cr_newest r)"
  shows "cr_next ord jt je r =
    (let r1 = cr_refreshed ord jt r in
     if cq_cached_tail (cr_q r1) = cq_local_head (cr_q r1) then Done (r1, None)
     else Done (cr_taken je r1, Some (cr_entries je r1 ! slot (cq_ring_mask (cr_q r1)) (cq_local_head (cr_q r1)))))"
proof -
  have "slot (cq_ring_mask (cr_q r)) (cq_local_head (cr_q r)) < length (cq_cqes (cr_q r))"
    using cq_slot_in_range [OF assms, of "cq_local_head (cr_q r)"] by (simp add: slot_def)
  then show ?thesis
    by (simp add: cr_next_def bulk_next_def cq_is_empty_def cq_refresh_tail_def Let_def cr_refreshed_def cr_taken_def
        cr_at_def cr_refresh_def cr_load_tail_def cr_load_entry_def cr_entries_def flip: slot_def)
qed

lemma cr_refreshed_laws:
  assumes inv: "cr_inv r" and ord: "acquires ord" and jt: "cr_may_load_tail jt r"
  shows "cr_inv (cr_refreshed ord jt r)" "cr_contents (cr_refreshed ord jt r) = cr_contents r"
    "cr_capacity (cr_refreshed ord jt r) = cr_capacity r"
proof -
  show "cr_contents (cr_refreshed ord jt r) = cr_contents r" "cr_capacity (cr_refreshed ord jt r) = cr_capacity r"
    by (simp_all add: cr_refreshed_def cr_load_tail_def cr_contents_def cr_capacity_def cr_newest_def cr_at_def cr_entries_def
        cq_contents_def cq_capacity_def)
  show "cr_inv (cr_refreshed ord jt r)"
  proof (cases "cq_cached_tail (cr_q r) = cq_local_head (cr_q r)")
    case True
    let ?c = "cq_k_tail (cr_q r) + of_nat jt" and ?r = "cr_refreshed ord jt r"
    obtain k where k: "k < 32" "cq_ring_mask (cr_newest r) = mask k" "length (cq_cqes (cr_newest r)) = 2 ^ k"
      and d: "ring_dist (cq_k_head (cr_newest r)) (cq_local_head (cr_newest r)) +
         ring_dist (cq_local_head (cr_newest r)) (cq_cached_tail (cr_newest r)) +
         ring_dist (cq_cached_tail (cr_newest r)) (cq_k_tail (cr_newest r)) \<le> 2 ^ k"
      using inv by (auto simp only: cr_inv_def elim: cq_wfE)
    have le: "jt \<le> cr_published r" "cr_published r - jt \<le> cr_lag r"
      using inv jt by (auto simp: cr_invs cr_may_load_tail_def cr_known_def)
    have small: "cr_lag r < 2 ^ LENGTH(32)" using d exp_less_u32 [OF k(1)] by (simp add: cr_lag_def)
    have tail: "cq_k_tail (cr_newest r) = ?c + of_nat (cr_published r - jt)"
      using le(1) by (simp add: of_nat_diff)
    have lag: "ring_dist ?c (cq_k_tail (cr_newest r)) = cr_published r - jt"
      unfolding tail by (rule ring_dist_of_nat) (use le(2) small in linarith)
    have "cq_local_head (cr_q r) + of_nat (cr_lag r) = cq_k_tail (cr_newest r)"
      using True ring_dist_add by (simp add: cr_lag_def)
    then have "?c = cq_local_head (cr_q r) + of_nat (cr_lag r - (cr_published r - jt))"
      using le(2) tail by (simp add: of_nat_diff algebra_simps)
    then have "ring_dist (cq_local_head (cr_q r)) ?c = cr_lag r - (cr_published r - jt)"
      using small by (metis ring_dist_of_nat less_imp_diff_less)
    with lag le(2) have sum: "ring_dist (cq_local_head (cr_q r)) ?c + ring_dist ?c (cq_k_tail (cr_newest r)) = cr_lag r" by simp
    have new: "cr_newest ?r = (cr_newest r)\<lparr>cq_cached_tail := ?c\<rparr>"
      using True by (simp add: cr_refreshed_def cr_load_tail_def cr_newest_def cr_at_def cr_entries_def)
    have "cq_wf (cr_newest ?r)"
      unfolding new cq_wf_def using k d sum True by (intro exI [of _ k]) (simp add: cr_lag_def)
    moreover have "cr_lag ?r = cr_published r - jt" using lag by (simp add: cr_lag_def new True cr_refreshed_def cr_load_tail_def)
    ultimately show ?thesis
      using inv jt le ord True
      by (auto simp: cr_invs cr_refreshed_def cr_load_tail_def cr_known_def cr_may_load_tail_def cq_kernel_full_def cq_capacity_def cr_newest_def cr_at_def cr_entries_def)
  qed (use inv in \<open>simp add: cr_refreshed_def\<close>)
qed

lemma cr_taken_laws:
  assumes inv: "cr_inv r" and ne: "cq_cached_tail (cr_q r) \<noteq> cq_local_head (cr_q r)"
    and je: "cr_may_load_entry (slot (cq_ring_mask (cr_q r)) (cq_local_head (cr_q r))) je r"
  shows "cr_inv (cr_taken je r)" "cr_capacity (cr_taken je r) = cr_capacity r"
    "cr_contents r = cr_entries je r ! slot (cq_ring_mask (cr_q r)) (cq_local_head (cr_q r)) # cr_contents (cr_taken je r)"
proof -
  let ?i = "slot (cq_ring_mask (cr_q r)) (cq_local_head (cr_q r))"
  have wf: "cq_wf (cr_newest r)" and known: "cr_known r \<le> je" "je \<le> length (cr_writes r)"
    using inv je by (auto simp: cr_invs cr_may_load_entry_def intro: le_trans)
  have new: "cr_newest (cr_taken je r) = (cr_newest r)\<lparr>cq_local_head := cq_local_head (cr_newest r) + 1\<rparr>"
    by (simp add: cr_taken_def cr_load_entry_def cr_newest_def cr_at_def cr_entries_def)
  have "cq_local_head (cr_newest r) \<noteq> cq_cached_tail (cr_newest r)" using ne by simp
  note adv = cq_advance_laws [OF wf this, folded new]
  have "0 < ring_dist (cq_local_head (cr_q r)) (cq_cached_tail (cr_q r))"
    using ne ring_dist_eq_0_iff by (metis gr0I)
  from cr_entries_current [OF inv this known]
  have "cr_entries je r ! ?i = cq_cqes (cr_newest r) ! ?i" by simp
  with adv(2) show "cr_contents r = cr_entries je r ! ?i # cr_contents (cr_taken je r)"
    by (simp add: cr_contents_def)
  show "cr_capacity (cr_taken je r) = cr_capacity r" by (simp add: cr_capacity_def new cq_capacity_def)
  have "cr_known (cr_taken je r) = cr_known r"
    by (simp add: cr_known_def cr_lag_def) (simp add: cr_taken_def cr_load_entry_def)
  moreover have "inv_writes (cr_taken je r)"
    using inv by (auto simp: cr_invs cr_taken_def cr_load_entry_def cq_kernel_full_def cq_capacity_def)
  ultimately show "cr_inv (cr_taken je r)"
    using inv adv(1) known by (auto simp: cr_invs cr_taken_def cr_load_entry_def)
qed

lemma cr_next_laws:
  assumes inv: "cr_inv r" and ord: "acquires ord" and jt: "cr_may_load_tail jt r"
    and je: "cr_may_load_entry (slot (cq_ring_mask (cr_q r)) (cq_local_head (cr_q r))) je (cr_refresh ord jt r) \<or> res = None"
    and nx: "cr_next ord jt je r = Done (r', res)"
  shows "cr_inv r'" "cr_contents r = (case res of None \<Rightarrow> [] | Some e \<Rightarrow> [e]) @ cr_contents r'" "cr_capacity r' = cr_capacity r"
proof -
  let ?r1 = "cr_refreshed ord jt r"
  have wf: "cq_wf (cr_newest r)" using inv by (simp add: cr_inv_def)
  note laws = cr_refreshed_laws [OF inv ord jt]
  have same: "cr_may_load_entry i je ?r1 = cr_may_load_entry i je (cr_refresh ord jt r)"
    "cq_ring_mask (cr_q ?r1) = cq_ring_mask (cr_q r)" "cq_local_head (cr_q ?r1) = cq_local_head (cr_q r)" for i
    by (simp_all add: cr_refreshed_def cr_refresh_def cr_may_load_entry_def cr_load_tail_def)
  have "cr_inv r' \<and> cr_contents r = (case res of None \<Rightarrow> [] | Some e \<Rightarrow> [e]) @ cr_contents r' \<and> cr_capacity r' = cr_capacity r"
  proof (cases "cq_cached_tail (cr_q ?r1) = cq_local_head (cr_q ?r1)")
    case True
    with nx laws show ?thesis by (auto simp: cr_next_eq [OF wf] Let_def)
  next
    case False
    with nx have out: "r' = cr_taken je ?r1"
      "res = Some (cr_entries je ?r1 ! slot (cq_ring_mask (cr_q ?r1)) (cq_local_head (cr_q ?r1)))"
      by (auto simp: cr_next_eq [OF wf] Let_def)
    with je have "cr_may_load_entry (slot (cq_ring_mask (cr_q ?r1)) (cq_local_head (cr_q ?r1))) je ?r1" by (simp add: same)
    from cr_taken_laws [OF laws(1) False this] laws(2,3) show ?thesis by (simp add: out)
  qed
  then show "cr_inv r'" "cr_contents r = (case res of None \<Rightarrow> [] | Some e \<Rightarrow> [e]) @ cr_contents r'" "cr_capacity r' = cr_capacity r"
    by auto
qed

lemma cq_drop_room:
  assumes "cq_wf q" "\<not> cq_kernel_full q"
  shows "\<not> cq_kernel_full (bulk_completion_drop q)"
proof -
  obtain k where k: "k < 32" "length (cq_cqes q) = 2 ^ k"
    and d: "ring_dist (cq_k_head q) (cq_local_head q) + ring_dist (cq_local_head q) (cq_cached_tail q) +
       ring_dist (cq_cached_tail q) (cq_k_tail q) \<le> 2 ^ k"
    using assms(1) by (rule cq_wfE)
  from ring_chain3 [OF d k(1)] d assms(2) k(2) show ?thesis
    by (simp add: cq_kernel_full_def cq_capacity_def bulk_completion_drop_def cq_flush_head_def)
qed

lemma cr_user_step_laws:
  assumes "cr_inv r" "acquires ord" "cr_user_step ord r xs r'"
  shows "cr_inv r' \<and> cr_contents r = xs @ cr_contents r' \<and> cr_capacity r' = cr_capacity r"
  using assms(3)
proof cases
  case (cr_user_next jt je e)
  from cr_next_laws [OF assms(1,2) cr_user_next(2) _ cr_user_next(4)] cr_user_next show ?thesis by simp
next
  case (cr_user_none jt je)
  from cr_next_laws [OF assms(1,2) cr_user_none(2) _ cr_user_none(3)] cr_user_none show ?thesis by simp
next
  case cr_user_drop
  have wf: "cq_wf (cr_newest r)" using assms(1) by (simp add: cr_inv_def)
  have new: "cr_newest r' = bulk_completion_drop (cr_newest r)"
    by (simp add: cr_user_drop(2) bulk_completion_drop_def cq_flush_head_def cr_newest_def cr_at_def cr_entries_def)
  have lag: "cr_known r' = cr_known r"
    by (simp add: cr_user_drop(2) cr_known_def cr_lag_def) (simp add: bulk_completion_drop_def cq_flush_head_def)
  have "\<not> cq_kernel_full (cr_newest r) \<Longrightarrow> \<not> cq_kernel_full (cr_newest r')"
    using new cq_drop_room [OF wf] by simp
  with assms(1) new lag cq_drop_laws [OF wf] cr_user_drop show ?thesis
    by (auto simp: cr_invs cr_contents_def cr_capacity_def)
qed

interpretation cr: ring_transport cr_inv cr_contents cr_capacity cr_kernel_step "cr_user_step refresh_order"
proof unfold_locales
  have "acquires refresh_order" by (simp add: refresh_order_def acquires_def)
  note user = cr_user_step_laws [OF _ this]
  fix r xs r'
  assume inv: "cr_inv r"
  then show "length (cr_contents r) \<le> cr_capacity r"
    using cq_contents_bounded by (simp add: cr_inv_def cr_contents_def cr_capacity_def)
  show "cr_inv r'" "cr_contents r' = cr_contents r @ xs" "cr_capacity r' = cr_capacity r" if "cr_kernel_step r xs r'"
    using cr_kernel_step_laws [OF inv that] by simp_all
  show "cr_inv r'" "cr_contents r = xs @ cr_contents r'" "cr_capacity r' = cr_capacity r" if "cr_user_step refresh_order r xs r'"
    using user [OF inv that] by simp_all
qed

text \<open>At the start user space has loaded nothing, and may see any state of the memory from then on.\<close>

definition cr_start :: "cring \<Rightarrow> bool" where
  "cr_start r \<longleftrightarrow> cq_wf (cr_q r) \<and> cr_writes r = [] \<and> cr_published r = 0 \<and> cr_seen_tail r = 0 \<and> cr_seen r = (\<lambda>_. 0)"

lemma cr_start_newest: "cr_start r \<Longrightarrow> cr_newest r = cr_q r"
  by (simp add: cr_start_def cr_newest_def cr_at_def cr_entries_def)

lemma cr_start_inv: "cr_start r \<Longrightarrow> cr_inv r"
  using cr_start_newest [of r] by (simp add: cr_start_def cr_invs cr_known_def)

lemma sample_cring_start: "cr_start sample_cring"
proof -
  have "(1 :: u32) = mask 1" by (simp add: mask_eq_exp_minus_1)
  then show ?thesis unfolding cr_start_def cq_wf_def sample_cring_def by (auto intro!: exI [of _ 1])
qed

text \<open>A post and a \<open>next\<close> that sees the new tail, for any ordering of its load.\<close>

lemma sample_post_next:
  fixes ord :: ordering and e :: CompletionEntry and je :: nat
  defines "old \<equiv> \<lparr>ce_user_data = 0, ce_res = 0, ce_flags = 0\<rparr>"
  assumes "je \<le> 1" "acquires ord \<longrightarrow> je = 1"
  shows "\<exists>r'. transport_run cr_kernel_step (cr_user_step ord) sample_cring [e] [if je = 1 then e else old] r'"
proof -
  let ?r1 = "sample_cring\<lparr>cr_writes := [e]\<rparr>" and ?r2 = "sample_cring\<lparr>cr_writes := [e], cr_published := 1\<rparr>"
  have fill: "cr_kernel_step sample_cring [] ?r1"
    using cr_fill [of sample_cring e]
    by (simp add: sample_cring_def cr_newest_def cr_at_def cr_entries_def cq_kernel_full_def cq_capacity_def)
  have publish: "cr_kernel_step ?r1 [e] ?r2"
    using cr_publish [of ?r1] by (simp add: sample_cring_def)
  let ?next = "cr_next ord 1 je ?r2"
  have nx: "\<exists>r'. ?next = Done (r', Some (if je = 1 then e else old))"
    using assms(2) by (cases je) (simp_all add: cr_next_def bulk_next_def cq_is_empty_def cq_refresh_tail_def cr_at_def cr_entries_def
        sample_cring_def slot_def Let_def old_def)
  then obtain r' where nx: "?next = Done (r', Some (if je = 1 then e else old))" ..
  have "cr_user_step ord ?r2 [if je = 1 then e else old] r'"
    by (rule cr_user_next [OF _ _ nx])
      (use assms in \<open>auto simp: cr_may_load_tail_def cr_may_load_entry_def cr_refresh_def cr_load_tail_def sample_cring_def\<close>)
  with transport_run_producer [of cr_kernel_step, OF fill] publish
  have "transport_run cr_kernel_step (cr_user_step ord) sample_cring ([] @ [e]) ([] @ [if je = 1 then e else old]) r'"
    by (intro run_consume run_produce)
  then show ?thesis by auto
qed

section \<open>Properties\<close>

text \<open>
  C10. The acquiring load of \<open>refresh_tail\<close> is enough. With loads of the tail and of entries returning old values as their orderings allow,
  and the kernel writing an entry and the tail separately, user space still receives exactly the completions the kernel posted, each once, in order and with its contents:
  every load \<open>next\<close> may make of an entry up to the tail it has seen returns what was posted last, whatever the kernel does meanwhile, and
  no load leaves the array of entries.
\<close>

theorem acquire_tail_delivers_posts:
  assumes "transport_run cr_kernel_step (cr_user_step refresh_order) r sent recv r'" "cr_start r"
  shows "cq_contents (cr_q r) @ sent = recv @ cq_contents (cr_newest r') \<and> cr_current r' \<and> cq_wf (cr_newest r') \<and>
    (\<forall>jt je. \<exists>r'' res. cr_next refresh_order jt je r' = Done (r'', res))"
proof -
  have inv: "cr_inv r" using assms(2) by (rule cr_start_inv)
  have "cr_inv r'" using cr.run_invariant [OF assms(1) inv] by simp
  with cr.run_fifo [OF assms(1) inv] cr_inv_current cr_next_eq [of r'] show ?thesis
    by (simp add: cr_contents_def cr_start_newest [OF assms(2)] cr_inv_def Let_def)
qed

theorem acquire_tail_delivers_posts_witness:
  "\<exists>r'. transport_run cr_kernel_step (cr_user_step refresh_order) sample_cring [\<lparr>ce_user_data = 7, ce_res = 1, ce_flags = 0\<rparr>]
     [\<lparr>ce_user_data = 7, ce_res = 1, ce_flags = 0\<rparr>] r' \<and> cq_contents (cr_newest r') = [] \<and> cr_current r'"
proof -
  obtain r' where run: "transport_run cr_kernel_step (cr_user_step refresh_order) sample_cring
      [\<lparr>ce_user_data = 7, ce_res = 1, ce_flags = 0\<rparr>] [\<lparr>ce_user_data = 7, ce_res = 1, ce_flags = 0\<rparr>] r'"
    using sample_post_next [of 1 refresh_order] by auto
  have "cq_contents (cr_q sample_cring) = []" by (simp add: cq_contents_empty_iff sample_cring_def)
  with acquire_tail_delivers_posts [OF run sample_cring_start] run show ?thesis by auto
qed

text \<open>
  With a relaxed load of the tail user space can see the new tail and still read the slot as it was before the kernel wrote it.
\<close>

theorem relaxed_tail_reads_stale_entry:
  "\<exists>r'. transport_run cr_kernel_step (cr_user_step Relaxed) sample_cring [e] [\<lparr>ce_user_data = 0, ce_res = 0, ce_flags = 0\<rparr>] r'"
  using sample_post_next [of 0 Relaxed e] by (simp add: acquires_def)

end
