(* ===== verification/Uring_Setup.thy ===== *)
theory Uring_Setup
  imports Submission_Queue Completion_Queue "HOL-Library.Multiset"
begin

text \<open>
  \<open>io-uring/src/mmap.rs\<close>, the constructors of both queues and \<open>Uring\<close>, the system call wrappers
  of \<open>io-uring-sys/src/lib.rs\<close> and \<open>UringFile\<close> of \<open>io-uring/src/lib.rs\<close>. The operating system is
  a parameter: a record \<open>os\<close> of functions on an abstract world \<open>'w\<close>, which also holds the mapped
  memory. A value that owns a resource is dropped where the source drops it, so the error paths show
  which mappings and descriptors are released.
\<close>

section \<open>The operating system\<close>

record 'w os =
  os_syscall :: "i64 \<Rightarrow> u64 list \<Rightarrow> 'w \<Rightarrow> i64 \<times> 'w"
  os_mmap :: "u64 \<Rightarrow> usize \<Rightarrow> i32 \<Rightarrow> i32 \<Rightarrow> i32 \<Rightarrow> i64 \<Rightarrow> 'w \<Rightarrow> u64 \<times> 'w"
  os_munmap :: "u64 \<Rightarrow> usize \<Rightarrow> 'w \<Rightarrow> i32 \<times> 'w"
  os_close :: "i32 \<Rightarrow> 'w \<Rightarrow> 'w"
  os_errno :: "'w \<Rightarrow> i32"
  os_PROT_READ :: i32
  os_PROT_WRITE :: i32
  os_MAP_SHARED :: i32
  os_MAP_POPULATE :: i32
  os_MAP_FAILED :: u64
  os_sigset_size :: usize
  mem_load_u32 :: "'w \<Rightarrow> u64 \<Rightarrow> u32"
  mem_store_u32 :: "u64 \<Rightarrow> u32 \<Rightarrow> 'w \<Rightarrow> 'w"
  mem_load_params :: "'w \<Rightarrow> u64 \<Rightarrow> SetupParameters"
  mem_store_params :: "u64 \<Rightarrow> SetupParameters \<Rightarrow> 'w \<Rightarrow> 'w"
  mem_load_sqe :: "'w \<Rightarrow> u64 \<Rightarrow> SubmissionEntry"
  mem_load_cqe :: "'w \<Rightarrow> u64 \<Rightarrow> CompletionEntry"

text \<open>\<open>std::io::Error\<close>: an OS error code or a kind with a message.\<close>

datatype ErrorKind = KindOther | KindTimedOut | KindInterrupted | KindWouldBlock

datatype io_error = RawOsError i32 | CustomError ErrorKind string

definition last_os_error :: "('w, 'z) os_scheme \<Rightarrow> 'w \<Rightarrow> io_error" where
  "last_os_error os w = RawOsError (os_errno os w)"

section \<open>System calls\<close>

definition SYS_io_uring_setup :: i64 where "SYS_io_uring_setup = 425"
definition SYS_io_uring_enter :: i64 where "SYS_io_uring_enter = 426"
definition SYS_io_uring_register :: i64 where "SYS_io_uring_register = 427"

text \<open>The result of \<open>syscall\<close> is a \<open>c_long\<close> that is truncated to \<open>c_int\<close>.\<close>

definition io_uring_setup :: "('w, 'z) os_scheme \<Rightarrow> u32 \<Rightarrow> u64 \<Rightarrow> 'w \<Rightarrow> i32 \<times> 'w" where
  "io_uring_setup os entries params w =
     (let (r, w) = os_syscall os SYS_io_uring_setup [ucast entries, params] w in (ucast r, w))"

definition io_uring_enter ::
  "('w, 'z) os_scheme \<Rightarrow> i32 \<Rightarrow> u32 \<Rightarrow> u32 \<Rightarrow> u32 \<Rightarrow> u64 \<Rightarrow> 'w \<Rightarrow> i32 \<times> 'w"
where
  "io_uring_enter os fd to_submit min_complete flags sig w =
     (let (r, w) = os_syscall os SYS_io_uring_enter
        [scast fd, ucast to_submit, ucast min_complete, ucast flags, sig, os_sigset_size os] w
      in (ucast r, w))"

definition io_uring_register ::
  "('w, 'z) os_scheme \<Rightarrow> i32 \<Rightarrow> u32 \<Rightarrow> u64 \<Rightarrow> u32 \<Rightarrow> 'w \<Rightarrow> i32 \<times> 'w"
where
  "io_uring_register os fd opcode arg nr_args w =
     (let (r, w) = os_syscall os SYS_io_uring_register
        [scast fd, ucast opcode, arg, ucast nr_args] w
      in (ucast r, w))"

section \<open>Mapped memory\<close>

record MappedMemory =
  mm_addr :: u64
  mm_len :: usize

definition MappedMemory_map ::
  "('w, 'z) os_scheme \<Rightarrow> i32 \<Rightarrow> i64 \<Rightarrow> usize \<Rightarrow> 'w \<Rightarrow> (MappedMemory, io_error) rresult \<times> 'w"
where
  "MappedMemory_map os fd offset len w =
     (let (addr, w) = os_mmap os 0 len (os_PROT_READ os OR os_PROT_WRITE os)
            (os_MAP_SHARED os OR os_MAP_POPULATE os) fd offset w in
      if addr = os_MAP_FAILED os then (Err (last_os_error os w), w)
      else (Ok \<lparr>mm_addr = addr, mm_len = len\<rparr>, w))"

definition as_mut_ptr :: "MappedMemory \<Rightarrow> u64" where
  "as_mut_ptr m = mm_addr m"

definition get_field :: "profile \<Rightarrow> MappedMemory \<Rightarrow> u32 \<Rightarrow> u64 outcome" where
  "get_field p m offset = rust_add p (mm_addr m) (ucast offset)"

text \<open>A failing \<open>munmap\<close> is only logged.\<close>

definition MappedMemory_drop :: "('w, 'z) os_scheme \<Rightarrow> MappedMemory \<Rightarrow> 'w \<Rightarrow> 'w" where
  "MappedMemory_drop os m w =
     (if mm_len m \<noteq> 0 then snd (os_munmap os (mm_addr m) (mm_len m) w) else w)"

section \<open>Constructing the submission queue\<close>

text \<open>\<open>for i in 0..ring_entries { *k_array.add(i) = i }\<close>, from index \<open>i\<close> on for \<open>n\<close> steps.\<close>

primrec init_index_array :: "('w, 'z) os_scheme \<Rightarrow> u64 \<Rightarrow> nat \<Rightarrow> nat \<Rightarrow> 'w \<Rightarrow> 'w" where
  "init_index_array os k_array i 0 w = w"
| "init_index_array os k_array i (Suc n) w =
     init_index_array os k_array (Suc i) n
       (mem_store_u32 os (k_array + 4 * of_nat i) (of_nat i) w)"

text \<open>
  The queue record as the constructor leaves it: the struct's own fields, and the current values of
  the shared memory its pointers designate.
\<close>

definition SubmissionQueue_new ::
  "profile \<Rightarrow> ('w, 'z) os_scheme \<Rightarrow> i32 \<Rightarrow> SubmissionQueueRingOffsets \<Rightarrow> u32 \<Rightarrow> 'w \<Rightarrow>
    ((SubmissionQueue \<times> MappedMemory \<times> MappedMemory, io_error) rresult \<times> 'w) outcome"
where
  "SubmissionQueue_new p os fd offsets sq_entries w =
     (let (r, w) = MappedMemory_map os fd SUBMISSION_QUEUE_RING_OFFSET
            (ucast (sqo_array offsets) + 4 * ucast sq_entries) w in
      case r of Err e \<Rightarrow> Done (Err e, w) | Ok mmap \<Rightarrow>
     (let (r, w) = MappedMemory_map os fd SUBMISSION_QUEUE_ENTRIES_OFFSET
            (64 * ucast sq_entries) w in
      case r of Err e \<Rightarrow> Done (Err e, MappedMemory_drop os mmap w) | Ok mmap_entries \<Rightarrow>
      obind (get_field p mmap (sqo_head offsets)) (\<lambda>k_head.
      let cached_head = mem_load_u32 os w k_head in
      obind (get_field p mmap (sqo_tail offsets)) (\<lambda>k_tail.
      let local_tail = mem_load_u32 os w k_tail in
      obind (get_field p mmap (sqo_ring_mask offsets)) (\<lambda>k_ring_mask.
      let ring_mask = mem_load_u32 os w k_ring_mask in
      obind (get_field p mmap (sqo_ring_entries offsets)) (\<lambda>k_ring_entries.
      let ring_entries = mem_load_u32 os w k_ring_entries in
      obind (get_field p mmap (sqo_flags offsets)) (\<lambda>k_flags.
      obind (get_field p mmap (sqo_dropped offsets)) (\<lambda>k_dropped.
      obind (get_field p mmap (sqo_array offsets)) (\<lambda>k_array.
      let sces = as_mut_ptr mmap_entries in
      obind (rust_assert ''assertion failed: sq_entries == ring_entries'' (sq_entries = ring_entries)) (\<lambda>_.
      obind (rust_assert ''assertion failed: ring_entries.is_power_of_two()'' (is_power_of_two ring_entries)) (\<lambda>_.
      obind (rust_sub p ring_entries 1) (\<lambda>expected_mask.
      obind (rust_assert ''assertion failed: ring_mask == ring_entries - 1'' (ring_mask = expected_mask)) (\<lambda>_.
      let w = init_index_array os k_array 0 (unat ring_entries) w in
      Done (Ok (\<lparr>sq_k_head = mem_load_u32 os w k_head, sq_cached_head = cached_head,
                 sq_k_tail = mem_load_u32 os w k_tail, sq_local_tail = local_tail,
                 sq_ring_mask = ring_mask, sq_k_flags = mem_load_u32 os w k_flags,
                 sq_k_dropped = mem_load_u32 os w k_dropped,
                 sq_k_array = map (\<lambda>i. mem_load_u32 os w (k_array + 4 * of_nat i)) [0..<unat ring_entries],
                 sq_sces = map (\<lambda>i. mem_load_sqe os w (sces + 64 * of_nat i)) [0..<unat ring_entries]\<rparr>,
               mmap, mmap_entries), w))))))))))))))"

definition SubmissionQueue_drop ::
  "('w, 'z) os_scheme \<Rightarrow> SubmissionQueue \<times> MappedMemory \<times> MappedMemory \<Rightarrow> 'w \<Rightarrow> 'w"
where
  "SubmissionQueue_drop os q w =
     (case q of (_, mmap, mmap_entries) \<Rightarrow>
        MappedMemory_drop os mmap_entries (MappedMemory_drop os mmap w))"

section \<open>Constructing the completion queue\<close>

definition CompletionQueue_new ::
  "profile \<Rightarrow> ('w, 'z) os_scheme \<Rightarrow> i32 \<Rightarrow> CompletionQueueRingOffsets \<Rightarrow> u32 \<Rightarrow> 'w \<Rightarrow>
    ((CompletionQueue \<times> MappedMemory, io_error) rresult \<times> 'w) outcome"
where
  "CompletionQueue_new p os fd offsets cq_entries w =
     (let (r, w) = MappedMemory_map os fd COMPLETION_QUEUE_RING_OFFSET
            (ucast (cqo_cqes offsets) + 16 * ucast cq_entries) w in
      case r of Err e \<Rightarrow> Done (Err e, w) | Ok mmap \<Rightarrow>
      obind (get_field p mmap (cqo_head offsets)) (\<lambda>k_head.
      let local_head = mem_load_u32 os w k_head in
      obind (get_field p mmap (cqo_tail offsets)) (\<lambda>k_tail.
      let cached_tail = mem_load_u32 os w k_tail in
      obind (get_field p mmap (cqo_ring_mask offsets)) (\<lambda>k_ring_mask.
      let ring_mask = mem_load_u32 os w k_ring_mask in
      obind (get_field p mmap (cqo_ring_entries offsets)) (\<lambda>k_ring_entries.
      let ring_entries = mem_load_u32 os w k_ring_entries in
      obind (get_field p mmap (cqo_overflow offsets)) (\<lambda>k_overflow.
      obind (get_field p mmap (cqo_cqes offsets)) (\<lambda>k_cqes.
      obind (rust_assert ''assertion failed: cq_entries == ring_entries'' (cq_entries = ring_entries)) (\<lambda>_.
      obind (rust_assert ''assertion failed: ring_entries.is_power_of_two()'' (is_power_of_two ring_entries)) (\<lambda>_.
      obind (rust_sub p ring_entries 1) (\<lambda>expected_mask.
      obind (rust_assert ''assertion failed: ring_mask == ring_entries - 1'' (ring_mask = expected_mask)) (\<lambda>_.
      Done (Ok (\<lparr>cq_k_head = mem_load_u32 os w k_head, cq_local_head = local_head,
                 cq_k_tail = mem_load_u32 os w k_tail, cq_cached_tail = cached_tail,
                 cq_ring_mask = ring_mask, cq_k_overflow = mem_load_u32 os w k_overflow,
                 cq_cqes = map (\<lambda>i. mem_load_cqe os w (k_cqes + 16 * of_nat i)) [0..<unat ring_entries]\<rparr>,
               mmap), w))))))))))))"

section \<open>UringFile and Uring\<close>

datatype UringFile = UringFile (uring_fd: i32)

definition UringFile_new ::
  "('w, 'z) os_scheme \<Rightarrow> u32 \<Rightarrow> u64 \<Rightarrow> 'w \<Rightarrow> (UringFile, io_error) rresult \<times> 'w"
where
  "UringFile_new os entries params w =
     (let (res, w) = io_uring_setup os entries params w in
      if sint res < 0 then (Err (last_os_error os w), w)
      else (Ok (UringFile res), w))"

definition UringFile_enter ::
  "('w, 'z) os_scheme \<Rightarrow> UringFile \<Rightarrow> u32 \<Rightarrow> u32 \<Rightarrow> u32 \<Rightarrow> u64 option \<Rightarrow> 'w \<Rightarrow> (unit, io_error) rresult \<times> 'w"
where
  "UringFile_enter os file to_submit min_complete flags sig w =
     (let sig = (case sig of Some s \<Rightarrow> s | None \<Rightarrow> 0);
          (r, w) = io_uring_enter os (uring_fd file) to_submit min_complete flags sig w in
      if sint r < 0 then (Err (last_os_error os w), w) else (Ok (), w))"

definition UringFile_register ::
  "('w, 'z) os_scheme \<Rightarrow> UringFile \<Rightarrow> RegisterOpCode \<Rightarrow> u64 \<Rightarrow> u32 \<Rightarrow> 'w \<Rightarrow> (unit, io_error) rresult \<times> 'w"
where
  "UringFile_register os file opcode arg nr_args w =
     (let (r, w) = io_uring_register os (uring_fd file) (register_op opcode) arg nr_args w in
      if r \<noteq> 0 then (Err (last_os_error os w), w) else (Ok (), w))"

definition UringFile_register_buffers ::
  "('w, 'z) os_scheme \<Rightarrow> UringFile \<Rightarrow> fat_ptr \<Rightarrow> 'w \<Rightarrow> (unit, io_error) rresult \<times> 'w"
where
  "UringFile_register_buffers os file buffers w =
     UringFile_register os file REGISTER_BUFFERS (fp_ptr buffers) (ucast (fp_len buffers)) w"

definition UringFile_unregister_buffers ::
  "('w, 'z) os_scheme \<Rightarrow> UringFile \<Rightarrow> 'w \<Rightarrow> (unit, io_error) rresult \<times> 'w"
where
  "UringFile_unregister_buffers os file w = UringFile_register os file UNREGISTER_BUFFERS 0 0 w"

definition UringFile_register_files ::
  "('w, 'z) os_scheme \<Rightarrow> UringFile \<Rightarrow> fat_ptr \<Rightarrow> 'w \<Rightarrow> ((unit, io_error) rresult \<times> 'w) outcome"
where
  "UringFile_register_files os file fds w =
     obind (rust_assert ''assertion failed: fds.len() <= u32::max_value() as usize''
              (unat (fp_len fds) \<le> 2 ^ 32 - 1))
       (\<lambda>_. Done (UringFile_register os file REGISTER_FILES (fp_ptr fds) (ucast (fp_len fds)) w))"

definition UringFile_unregister_files ::
  "('w, 'z) os_scheme \<Rightarrow> UringFile \<Rightarrow> 'w \<Rightarrow> (unit, io_error) rresult \<times> 'w"
where
  "UringFile_unregister_files os file w = UringFile_register os file UNREGISTER_FILES 0 0 w"

definition UringFile_drop :: "('w, 'z) os_scheme \<Rightarrow> UringFile \<Rightarrow> 'w \<Rightarrow> 'w" where
  "UringFile_drop os file w = os_close os (uring_fd file) w"

record Uring =
  u_file :: UringFile
  u_sq :: SubmissionQueue
  u_sq_mmaps :: "MappedMemory \<times> MappedMemory"
  u_cq :: CompletionQueue
  u_cq_mmap :: MappedMemory

text \<open>
  \<open>Uring::new\<close>; \<open>pp\<close> is the address of the local variable \<open>params\<close>. An early return drops the
  locals in reverse order of declaration.
\<close>

definition Uring_new ::
  "profile \<Rightarrow> ('w, 'z) os_scheme \<Rightarrow> u32 \<Rightarrow> SetupParameters \<Rightarrow> u64 \<Rightarrow> 'w \<Rightarrow>
    ((Uring, io_error) rresult \<times> 'w) outcome"
where
  "Uring_new p os entries params pp w =
     (let w = mem_store_params os pp params w;
          (r, w) = UringFile_new os entries pp w in
      case r of Err e \<Rightarrow> Done (Err e, w) | Ok file \<Rightarrow>
      let params = mem_load_params os w pp in
      obind (SubmissionQueue_new p os (uring_fd file) (sp_sq_off params) (sp_sq_entries params) w) (\<lambda>(r, w).
      case r of Err e \<Rightarrow> Done (Err e, UringFile_drop os file w) | Ok sq \<Rightarrow>
      obind (CompletionQueue_new p os (uring_fd file) (sp_cq_off params) (sp_cq_entries params) w) (\<lambda>(r, w).
      case r of
        Err e \<Rightarrow> Done (Err e, UringFile_drop os file (SubmissionQueue_drop os sq w))
      | Ok cq \<Rightarrow> Done (Ok \<lparr>u_file = file, u_sq = fst sq, u_sq_mmaps = snd sq, u_cq = fst cq, u_cq_mmap = snd cq\<rparr>, w))))"

text \<open>Access to the parts, and the conversions from and to a raw descriptor.\<close>

definition Uring_file :: "Uring \<Rightarrow> UringFile" where "Uring_file u = u_file u"
definition Uring_submission_queue :: "Uring \<Rightarrow> SubmissionQueue" where "Uring_submission_queue u = u_sq u"
definition Uring_completion_queue :: "Uring \<Rightarrow> CompletionQueue" where "Uring_completion_queue u = u_cq u"

definition UringFile_as_raw_fd :: "UringFile \<Rightarrow> i32" where "UringFile_as_raw_fd f = uring_fd f"
definition UringFile_into_raw_fd :: "UringFile \<Rightarrow> i32" where "UringFile_into_raw_fd f = uring_fd f"
definition UringFile_from_raw_fd :: "i32 \<Rightarrow> UringFile" where "UringFile_from_raw_fd fd = UringFile fd"

section \<open>What the constructors rely on\<close>

text \<open>
  Memory: a 4 byte store is read back, and leaves non-overlapping cells alone. Layout: the index
  array does not overlap the head and tail cells.
\<close>

definition non_overlap32 :: "u64 \<Rightarrow> u64 \<Rightarrow> bool" where
  "non_overlap32 a b \<longleftrightarrow> 4 \<le> ring_dist a b \<and> 4 \<le> ring_dist b a"

definition mem_laws :: "('w, 'z) os_scheme \<Rightarrow> bool" where
  "mem_laws os \<longleftrightarrow>
     (\<forall>w a v. mem_load_u32 os (mem_store_u32 os a v w) a = v) \<and>
     (\<forall>w a b v. non_overlap32 a b \<longrightarrow>
        mem_load_u32 os (mem_store_u32 os b v w) a = mem_load_u32 os w a)"

definition sq_layout_ok :: "SubmissionQueueRingOffsets \<Rightarrow> u32 \<Rightarrow> bool" where
  "sq_layout_ok offsets n \<longleftrightarrow>
     (\<forall>i < unat n. non_overlap32 (ucast (sqo_head offsets)) (ucast (sqo_array offsets) + 4 * of_nat i) \<and>
        non_overlap32 (ucast (sqo_tail offsets)) (ucast (sqo_array offsets) + 4 * of_nat i))"

text \<open>
  Resources: which descriptors and mappings are held in a world. A successful set-up call acquires
  the returned descriptor, a successful \<open>mmap\<close> a mapping (of non-zero length), \<open>munmap\<close> and
  \<open>close\<close> release theirs, everything else changes nothing.
\<close>

datatype resource = ResFd i32 | ResMap u64 usize

definition os_accounting :: "('w, 'z) os_scheme \<Rightarrow> ('w \<Rightarrow> resource multiset) \<Rightarrow> bool" where
  "os_accounting os held \<longleftrightarrow>
     (\<forall>args w r w'. os_syscall os SYS_io_uring_setup args w = (r, w') \<longrightarrow>
        held w' = held w + (if sint (ucast r :: i32) < 0 then {#} else {#ResFd (ucast r)#})) \<and>
     (\<forall>len prot fl fd off w a w'. os_mmap os 0 len prot fl fd off w = (a, w') \<longrightarrow>
        held w' = held w + (if a = os_MAP_FAILED os then {#} else {#ResMap a len#}) \<and>
        (a \<noteq> os_MAP_FAILED os \<longrightarrow> len \<noteq> 0)) \<and>
     (\<forall>a len w. held (snd (os_munmap os a len w)) = held w - {#ResMap a len#}) \<and>
     (\<forall>fd w. held (os_close os fd w) = held w - {#ResFd fd#}) \<and>
     (\<forall>a v w. held (mem_store_u32 os a v w) = held w) \<and>
     (\<forall>a v w. held (mem_store_params os a v w) = held w)"

definition map_res :: "MappedMemory \<Rightarrow> resource" where
  "map_res m = ResMap (mm_addr m) (mm_len m)"

definition uring_resources :: "Uring \<Rightarrow> resource multiset" where
  "uring_resources u = {#ResFd (uring_fd (u_file u)), map_res (fst (u_sq_mmaps u)),
     map_res (snd (u_sq_mmaps u)), map_res (u_cq_mmap u)#}"

text \<open>A ring in working order owns mappings of non-zero length, so that dropping it releases them.\<close>

definition uring_maps_ok :: "Uring \<Rightarrow> bool" where
  "uring_maps_ok u \<longleftrightarrow> mm_len (fst (u_sq_mmaps u)) \<noteq> 0 \<and> mm_len (snd (u_sq_mmaps u)) \<noteq> 0 \<and> mm_len (u_cq_mmap u) \<noteq> 0"

text \<open>
  A small concrete system for the examples: one-entry rings at fixed addresses; the flag says whether
  mapping the completion ring fails.
\<close>

record demo_world =
  dw_mem :: "u64 \<Rightarrow> u32"
  dw_held :: "resource multiset"

definition demo_params :: SetupParameters where
  "demo_params = (SetupParameters_new 0)\<lparr>sp_sq_entries := 1, sp_cq_entries := 1,
     sp_sq_off := SubmissionQueueRingOffsets_default\<lparr>sqo_head := 0, sqo_tail := 4, sqo_ring_mask := 8,
       sqo_ring_entries := 12, sqo_flags := 16, sqo_dropped := 20, sqo_array := 24\<rparr>,
     sp_cq_off := CompletionQueueRingOffsets_default\<lparr>cqo_head := 0, cqo_tail := 4, cqo_ring_mask := 8,
       cqo_ring_entries := 12, cqo_overflow := 16, cqo_cqes := 24\<rparr>\<rparr>"

definition demo_os :: "bool \<Rightarrow> demo_world os" where
  "demo_os fail_cq =
     \<lparr>os_syscall = (\<lambda>nr args w. (3, w\<lparr>dw_held := add_mset (ResFd 3) (dw_held w)\<rparr>)),
      os_mmap = (\<lambda>hint len prot fl fd off w.
        if len = 0 \<or> fail_cq \<and> off = COMPLETION_QUEUE_RING_OFFSET then (- 1, w)
        else let a = (if off = SUBMISSION_QUEUE_RING_OFFSET then 0x1000
                      else if off = COMPLETION_QUEUE_RING_OFFSET then 0x2000 else 0x3000)
             in (a, w\<lparr>dw_held := add_mset (ResMap a len) (dw_held w)\<rparr>)),
      os_munmap = (\<lambda>a len w. (0, w\<lparr>dw_held := dw_held w - {#ResMap a len#}\<rparr>)),
      os_close = (\<lambda>fd w. w\<lparr>dw_held := dw_held w - {#ResFd fd#}\<rparr>),
      os_errno = (\<lambda>w. 12), os_PROT_READ = 1, os_PROT_WRITE = 2, os_MAP_SHARED = 1,
      os_MAP_POPULATE = 0x8000, os_MAP_FAILED = - 1, os_sigset_size = 128,
      mem_load_u32 = dw_mem, mem_store_u32 = (\<lambda>a v w. w\<lparr>dw_mem := (dw_mem w)(a := v)\<rparr>),
      mem_load_params = (\<lambda>w a. demo_params), mem_store_params = (\<lambda>a v w. w),
      mem_load_sqe = (\<lambda>w a. zeroed_entry),
      mem_load_cqe = (\<lambda>w a. \<lparr>ce_user_data = 0, ce_res = 0, ce_flags = 0\<rparr>)\<rparr>"

definition demo_world0 :: demo_world where
  "demo_world0 = \<lparr>dw_mem = (\<lambda>_. 0)(0x100C := 1, 0x200C := 1), dw_held = {#}\<rparr>"

definition demo_new :: "bool \<Rightarrow> ((Uring, io_error) rresult \<times> demo_world) outcome" where
  "demo_new fail_cq = Uring_new Debug (demo_os fail_cq) 1 (SetupParameters_new 0) 0x500 demo_world0"

section \<open>Lemmas on memory\<close>

lemma non_overlap32_shift: "non_overlap32 (c + a) (c + b) = non_overlap32 a b"
  by (simp add: non_overlap32_def ring_dist_def)

lemma non_overlap32_sym: "non_overlap32 a b = non_overlap32 b a"
  by (auto simp: non_overlap32_def)

lemma ring_dist_opposite:
  fixes a b :: "'a::len word"
  assumes "a \<noteq> b"
  shows "2 ^ LENGTH('a) \<le> ring_dist a b + ring_dist b a"
proof (rule ccontr)
  assume "\<not> ?thesis"
  then have "ring_dist a a = ring_dist a b + ring_dist b a" by (intro ring_dist_chain) simp
  with assms show False by simp
qed

lemma non_overlap32_cells:
  assumes "i < j" "j < 2 ^ 32"
  shows "non_overlap32 (4 * of_nat i) (4 * of_nat j)"
proof -
  have "4 * of_nat j - 4 * of_nat i = (of_nat (4 * (j - i)) :: u64)"
    using assms(1) by (simp add: of_nat_diff)
  moreover have "4 * (j - i) < 2 ^ 64" using assms by simp
  ultimately have d: "ring_dist (4 * of_nat i) (4 * of_nat j :: u64) = 4 * (j - i)"
    by (simp only: ring_dist_def unsigned_of_nat) (simp add: take_bit_nat_eq_self)
  then have "(4 * of_nat i :: u64) \<noteq> 4 * of_nat j" using assms(1) by fastforce
  from ring_dist_opposite [OF this] have "2 ^ 64 \<le> 4 * (j - i) + ring_dist (4 * of_nat j) (4 * of_nat i :: u64)"
    using d by simp
  moreover have "1 \<le> j - i" "j - i < 2 ^ 32" using assms by auto
  ultimately show ?thesis using d by (auto simp: non_overlap32_def)
qed

lemma non_overlap32_cells': "i \<noteq> j \<Longrightarrow> i < 2 ^ 32 \<Longrightarrow> j < 2 ^ 32 \<Longrightarrow>
    non_overlap32 (c + 4 * of_nat i) (c + 4 * of_nat j)"
  unfolding non_overlap32_shift
  by (metis linorder_neqE_nat non_overlap32_cells non_overlap32_sym)

lemma init_index_array_other:
  assumes "mem_laws os" "\<And>j. i \<le> j \<Longrightarrow> j < i + n \<Longrightarrow> non_overlap32 a (arr + 4 * of_nat j)"
  shows "mem_load_u32 os (init_index_array os arr i n w) a = mem_load_u32 os w a"
  using assms(2)
proof (induction n arbitrary: i w)
  case (Suc n)
  have "non_overlap32 a (arr + 4 * of_nat i)" using Suc.prems by simp
  then have "mem_load_u32 os (mem_store_u32 os (arr + 4 * of_nat i) (of_nat i) w) a = mem_load_u32 os w a"
    using assms(1) unfolding mem_laws_def by blast
  with Suc show ?case by simp
qed simp

lemma init_index_array_cell:
  assumes "mem_laws os" "i + n \<le> 2 ^ 32" "i \<le> j" "j < i + n"
  shows "mem_load_u32 os (init_index_array os arr i n w) (arr + 4 * of_nat j) = of_nat j"
  using assms(2-)
proof (induction n arbitrary: i w)
  case (Suc n)
  show ?case
  proof (cases "j = i")
    case True
    have "mem_load_u32 os (init_index_array os arr (Suc i) n w') (arr + 4 * of_nat i) =
        mem_load_u32 os w' (arr + 4 * of_nat i)" for w'
      by (rule init_index_array_other [OF assms(1)]) (use Suc.prems in \<open>auto intro!: non_overlap32_cells'\<close>)
    with True assms(1) show ?thesis by (simp add: mem_laws_def)
  next
    case False
    with Suc show ?thesis by simp
  qed
qed simp

lemma get_field_Done:
  "get_field p m off = Done a \<Longrightarrow> a = mm_addr m + ucast off"
  by (auto simp: get_field_def rust_add_def split: if_splits)

lemma pow2_mask:
  assumes "is_power_of_two (n :: u32)" "rust_sub p n 1 = Done m"
  obtains k where "k < 32" "m = mask k" "unat n = 2 ^ k"
proof -
  obtain k where k: "k < 32" "n = 2 ^ k" using assms(1) by (auto simp: is_power_of_two_iff)
  moreover have "m = mask k" using assms(2) k by (auto simp: rust_sub_def exp_minus_1_mask split: if_splits)
  moreover have "unat n = 2 ^ k"
  proof -
    have "n = of_nat (2 ^ k)" using k by simp
    then show ?thesis
      using exp_less_u32 [OF k(1)] k(1) by (simp only: unsigned_of_nat) (simp add: take_bit_nat_eq_self)
  qed
  ultimately show ?thesis using that by blast
qed

section \<open>The constructors establish the invariants\<close>

lemma SubmissionQueue_new_wf:
  assumes mem: "mem_laws os" and layout: "sq_layout_ok offsets n"
    and new: "SubmissionQueue_new p os fd offsets n w = Done (Ok (q, mm, mm'), w')"
    and empty: "sq_k_head q = sq_k_tail q"
  shows "sq_idle_at q (sq_k_head q) \<and> sq_capacity q = unat n"
proof -
  obtain w1 where
    q: "q = \<lparr>sq_k_head = mem_load_u32 os w' (mm_addr mm + ucast (sqo_head offsets)),
       sq_cached_head = mem_load_u32 os w1 (mm_addr mm + ucast (sqo_head offsets)),
       sq_k_tail = mem_load_u32 os w' (mm_addr mm + ucast (sqo_tail offsets)),
       sq_local_tail = mem_load_u32 os w1 (mm_addr mm + ucast (sqo_tail offsets)),
       sq_ring_mask = sq_ring_mask q, sq_k_flags = sq_k_flags q, sq_k_dropped = sq_k_dropped q,
       sq_k_array = map (\<lambda>i. mem_load_u32 os w' (mm_addr mm + ucast (sqo_array offsets) + 4 * of_nat i)) [0..<unat n],
       sq_sces = map (\<lambda>i. mem_load_sqe os w' (mm_addr mm' + 64 * of_nat i)) [0..<unat n]\<rparr>"
    and w': "w' = init_index_array os (mm_addr mm + ucast (sqo_array offsets)) 0 (unat n) w1"
    and pow: "is_power_of_two n" "rust_sub p n 1 = Done (sq_ring_mask q)"
    using new unfolding SubmissionQueue_new_def
    by (auto simp: Let_def as_mut_ptr_def dest!: get_field_Done split: prod.splits rresult.splits)
  obtain k where k: "k < 32" "sq_ring_mask q = mask k" "unat n = 2 ^ k"
    using pow by (rule pow2_mask)
  have lim: "unat n \<le> 2 ^ 32" using exp_less_u32 [OF k(1)] k(3) by simp
  have same: "mem_load_u32 os w' (mm_addr mm + ucast x) = mem_load_u32 os w1 (mm_addr mm + ucast x)"
    if "x = sqo_head offsets \<or> x = sqo_tail offsets" for x
    unfolding w' using layout that
    by (intro init_index_array_other [OF mem]) (auto simp: sq_layout_ok_def non_overlap32_shift add.assoc)
  have arr: "sq_k_array q = map of_nat [0..<unat n]"
    using lim by (subst q) (auto simp: w' intro!: init_index_array_cell [OF mem])
  have "sq_cached_head q = sq_k_head q" "sq_local_tail q = sq_k_tail q"
    using same by (subst (1 2) q; simp)+
  moreover have "length (sq_sces q) = unat n" by (subst q) simp
  ultimately show ?thesis
    using arr k empty by (auto simp: sq_idle_at_def sq_wf_def sq_capacity_def)
qed

lemma CompletionQueue_new_wf:
  assumes new: "CompletionQueue_new p os fd offsets n w = Done (Ok (q, mm), w')"
    and empty: "cq_k_head q = cq_k_tail q"
  shows "cq_wf q \<and> cq_contents q = [] \<and> cq_capacity q = unat n"
proof -
  have q: "cq_local_head q = cq_k_head q" "cq_cached_tail q = cq_k_tail q" "length (cq_cqes q) = unat n"
    and pow: "is_power_of_two n" "rust_sub p n 1 = Done (cq_ring_mask q)"
    using new unfolding CompletionQueue_new_def
    by (auto simp: Let_def dest!: get_field_Done split: prod.splits rresult.splits)
  obtain k where "k < 32" "cq_ring_mask q = mask k" "unat n = 2 ^ k"
    using pow by (rule pow2_mask)
  with q empty show ?thesis
    by (auto simp: cq_wf_def cq_contents_empty_iff cq_capacity_def)
qed

section \<open>Resources\<close>

lemma os_accountingD:
  assumes "os_accounting os held"
  shows "os_syscall os SYS_io_uring_setup args w = (x, w') \<Longrightarrow>
      held w' = held w + (if sint (ucast x :: i32) < 0 then {#} else {#ResFd (ucast x)#})"
    and "os_mmap os 0 len prot fl fd off w = (a, w') \<Longrightarrow>
      held w' = held w + (if a = os_MAP_FAILED os then {#} else {#ResMap a len#}) \<and>
      (a \<noteq> os_MAP_FAILED os \<longrightarrow> len \<noteq> 0)"
    and "held (snd (os_munmap os a len w)) = held w - {#ResMap a len#}"
    and "held (os_close os fd w) = held w - {#ResFd fd#}"
    and "held (mem_store_u32 os a v w) = held w"
    and "held (mem_store_params os a ps w) = held w"
  using assms unfolding os_accounting_def by (metis | fast)+

lemma map_accounting:
  assumes "os_accounting os held" "MappedMemory_map os fd off len w = (r, w')"
  shows "held w' = held w + (case r of Ok m \<Rightarrow> {#ResMap (mm_addr m) (mm_len m)#} | Err e \<Rightarrow> {#})"
    and "r = Ok m \<Longrightarrow> mm_len m \<noteq> 0"
  using assms(2) unfolding MappedMemory_map_def
  by (auto simp: Let_def dest: os_accountingD(2) [OF assms(1)] split: prod.splits if_splits)

lemma drop_accounting:
  assumes "os_accounting os held" "mm_len m \<noteq> 0"
  shows "held (MappedMemory_drop os m w) = held w - {#ResMap (mm_addr m) (mm_len m)#}"
  using assms by (simp add: os_accountingD(3) MappedMemory_drop_def)

lemma init_accounting:
  "os_accounting os held \<Longrightarrow> held (init_index_array os arr i n w) = held w"
  by (induction n arbitrary: i w) (simp_all add: os_accountingD(5))

lemma SubmissionQueue_new_accounting:
  assumes acc: "os_accounting os held"
    and new: "SubmissionQueue_new p os fd offsets n w = Done (r, w')"
  shows "held w' = held w + (case r of Ok (q, m, m') \<Rightarrow> {#map_res m, map_res m'#} | Err e \<Rightarrow> {#})"
    and "r = Ok (q, m, m') \<Longrightarrow> mm_len m \<noteq> 0 \<and> mm_len m' \<noteq> 0"
proof -
  obtain r1 w1 where m1: "MappedMemory_map os fd SUBMISSION_QUEUE_RING_OFFSET
      (ucast (sqo_array offsets) + 4 * ucast n) w = (r1, w1)" by fastforce
  obtain r2 w2 where m2: "MappedMemory_map os fd SUBMISSION_QUEUE_ENTRIES_OFFSET
      (64 * ucast n) w1 = (r2, w2)" by fastforce
  note a1 = map_accounting [OF acc m1] and a2 = map_accounting [OF acc m2]
  show "held w' = held w + (case r of Ok (q, m, m') \<Rightarrow> {#map_res m, map_res m'#} | Err e \<Rightarrow> {#})"
    "r = Ok (q, m, m') \<Longrightarrow> mm_len m \<noteq> 0 \<and> mm_len m' \<noteq> 0"
    using new a1 a2 unfolding SubmissionQueue_new_def
    by (auto simp: m1 m2 Let_def map_res_def drop_accounting [OF acc] init_accounting [OF acc]
        split: rresult.splits)
qed

lemma CompletionQueue_new_accounting:
  assumes acc: "os_accounting os held"
    and new: "CompletionQueue_new p os fd offsets n w = Done (r, w')"
  shows "held w' = held w + (case r of Ok (q, m) \<Rightarrow> {#map_res m#} | Err e \<Rightarrow> {#})"
proof -
  obtain r1 w1 where m1: "MappedMemory_map os fd COMPLETION_QUEUE_RING_OFFSET
      (ucast (cqo_cqes offsets) + 16 * ucast n) w = (r1, w1)" by fastforce
  show ?thesis
    using new map_accounting [OF acc m1] unfolding CompletionQueue_new_def
    by (auto simp: m1 Let_def map_res_def split: rresult.splits)
qed

lemma UringFile_new_accounting:
  assumes "os_accounting os held" "UringFile_new os entries pp w = (r, w')"
  shows "held w' = held w + (case r of Ok f \<Rightarrow> {#ResFd (uring_fd f)#} | Err e \<Rightarrow> {#})"
  using assms(2) unfolding UringFile_new_def io_uring_setup_def
  by (auto simp: Let_def dest: os_accountingD(1) [OF assms(1)] split: prod.splits if_splits)

lemma Uring_new_Ok:
  assumes "Uring_new p os entries params pp w = Done (Ok u, w')"
  obtains w1 params' w2 where
    "UringFile_new os entries pp (mem_store_params os pp params w) = (Ok (u_file u), w1)"
    "params' = mem_load_params os w1 pp"
    "SubmissionQueue_new p os (uring_fd (u_file u)) (sp_sq_off params') (sp_sq_entries params') w1 =
       Done (Ok (u_sq u, u_sq_mmaps u), w2)"
    "CompletionQueue_new p os (uring_fd (u_file u)) (sp_cq_off params') (sp_cq_entries params') w2 =
       Done (Ok (u_cq u, u_cq_mmap u), w')"
proof -
  obtain r1 w1 where f: "UringFile_new os entries pp (mem_store_params os pp params w) = (r1, w1)" by fastforce
  then obtain f' where r1: "r1 = Ok f'" using assms by (cases r1) (auto simp: Uring_new_def Let_def)
  define ps where "ps = mem_load_params os w1 pp"
  obtain r2 w2 where s: "SubmissionQueue_new p os (uring_fd f') (sp_sq_off ps) (sp_sq_entries ps) w1 = Done (r2, w2)"
    using assms f r1 by (auto simp: Uring_new_def Let_def ps_def)
  then obtain q m where r2: "r2 = Ok (q, m)"
    using assms f r1 by (cases r2) (auto simp: Uring_new_def Let_def ps_def)
  obtain r3 w3 where c: "CompletionQueue_new p os (uring_fd f') (sp_cq_off ps) (sp_cq_entries ps) w2 = Done (r3, w3)"
    using assms f r1 s r2 by (auto simp: Uring_new_def Let_def ps_def)
  then obtain cq m' where r3: "r3 = Ok (cq, m')"
    using assms f r1 s r2 by (cases r3) (auto simp: Uring_new_def Let_def ps_def)
  have "u = \<lparr>u_file = f', u_sq = q, u_sq_mmaps = m, u_cq = cq, u_cq_mmap = m'\<rparr>" "w' = w3"
    using assms f r1 s r2 c r3 by (auto simp: Uring_new_def Let_def ps_def)
  then show ?thesis using that f r1 s r2 c r3 ps_def by simp
qed

lemma Uring_new_accounting:
  assumes acc: "os_accounting os held"
    and new: "Uring_new p os entries params pp w = Done (r, w')"
  shows "held w' = held w + (case r of Ok u \<Rightarrow> uring_resources u | Err e \<Rightarrow> {#})"
proof -
  obtain r1 w1 where f: "UringFile_new os entries pp (mem_store_params os pp params w) = (r1, w1)" by fastforce
  have f1: "held w1 = held w + (case r1 of Ok f \<Rightarrow> {#ResFd (uring_fd f)#} | Err e \<Rightarrow> {#})"
    using UringFile_new_accounting [OF acc f] by (simp add: os_accountingD(6) [OF acc])
  show ?thesis
  proof (cases r1)
    case (Err e)
    with new f f1 show ?thesis by (auto simp: Uring_new_def Let_def)
  next
    case (Ok f')
    note Ok1 = this
    let ?p = "mem_load_params os w1 pp"
    obtain r2 w2 where s: "SubmissionQueue_new p os (uring_fd f') (sp_sq_off ?p) (sp_sq_entries ?p) w1 = Done (r2, w2)"
      using new f Ok1 by (auto simp: Uring_new_def Let_def)
    note s1 = SubmissionQueue_new_accounting [OF acc s]
    show ?thesis
    proof (cases r2)
      case (Err e)
      with new f Ok1 s s1 f1 show ?thesis
        by (auto simp: Uring_new_def Let_def UringFile_drop_def os_accountingD(4) [OF acc])
    next
      case (Ok sq)
      note Ok' = this
      obtain q m m' where sq: "sq = (q, m, m')" by (cases sq)
      obtain r3 w3 where c: "CompletionQueue_new p os (uring_fd f') (sp_cq_off ?p) (sp_cq_entries ?p) w2 = Done (r3, w3)"
        using new f Ok1 s Ok' by (auto simp: Uring_new_def Let_def)
      have len: "mm_len m \<noteq> 0" "mm_len m' \<noteq> 0" using s1(2) Ok' sq by auto
      show ?thesis
        using new f Ok1 s Ok' sq c s1(1) f1 CompletionQueue_new_accounting [OF acc c] len
        by (cases r3) (auto simp: Uring_new_def Let_def UringFile_drop_def SubmissionQueue_drop_def
            uring_resources_def map_res_def os_accountingD(4) [OF acc] drop_accounting [OF acc] split: prod.splits)
    qed
  qed
qed

lemma CompletionQueue_new_len:
  assumes acc: "os_accounting os held"
    and new: "CompletionQueue_new p os fd offsets n w = Done (Ok (q, m), w')"
  shows "mm_len m \<noteq> 0"
proof -
  obtain r1 w1 where m1: "MappedMemory_map os fd COMPLETION_QUEUE_RING_OFFSET
      (ucast (cqo_cqes offsets) + 16 * ucast n) w = (r1, w1)" by fastforce
  show ?thesis
    using new map_accounting [OF acc m1] unfolding CompletionQueue_new_def
    by (auto simp: m1 Let_def split: rresult.splits)
qed

lemma Uring_new_maps_ok:
  assumes acc: "os_accounting os held"
    and new: "Uring_new p os entries params pp w = Done (Ok u, w')"
  shows "uring_maps_ok u"
proof -
  obtain w1 ps w2 where
    "UringFile_new os entries pp (mem_store_params os pp params w) = (Ok (u_file u), w1)"
    and "ps = mem_load_params os w1 pp"
    and sq: "SubmissionQueue_new p os (uring_fd (u_file u)) (sp_sq_off ps) (sp_sq_entries ps) w1 =
       Done (Ok (u_sq u, u_sq_mmaps u), w2)"
    and cq: "CompletionQueue_new p os (uring_fd (u_file u)) (sp_cq_off ps) (sp_cq_entries ps) w2 =
       Done (Ok (u_cq u, u_cq_mmap u), w')"
    using new by (rule Uring_new_Ok)
  obtain m m' where m: "u_sq_mmaps u = (m, m')" by (cases "u_sq_mmaps u")
  show ?thesis
    using SubmissionQueue_new_accounting(2) [OF acc sq] CompletionQueue_new_len [OF acc cq] m
    by (simp add: uring_maps_ok_def)
qed

lemma Uring_new_wf:
  assumes "mem_laws os"
    and "Uring_new p os entries params pp w = Done (Ok u, w')"
    and "\<And>w. sq_layout_ok (sp_sq_off (mem_load_params os w pp)) (sp_sq_entries (mem_load_params os w pp))"
    and "sq_k_head (u_sq u) = sq_k_tail (u_sq u)" and "cq_k_head (u_cq u) = cq_k_tail (u_cq u)"
  shows "sq_idle_at (u_sq u) (sq_k_head (u_sq u)) \<and> cq_wf (u_cq u) \<and> cq_contents (u_cq u) = [] \<and>
    (\<exists>w1. UringFile_new os entries pp (mem_store_params os pp params w) = (Ok (u_file u), w1) \<and>
       sq_capacity (u_sq u) = unat (sp_sq_entries (mem_load_params os w1 pp)) \<and>
       cq_capacity (u_cq u) = unat (sp_cq_entries (mem_load_params os w1 pp)))"
proof -
  obtain w1 ps w2 where
    u: "UringFile_new os entries pp (mem_store_params os pp params w) = (Ok (u_file u), w1)"
    and ps: "ps = mem_load_params os w1 pp"
    and sq: "SubmissionQueue_new p os (uring_fd (u_file u)) (sp_sq_off ps) (sp_sq_entries ps) w1 =
       Done (Ok (u_sq u, u_sq_mmaps u), w2)"
    and cq: "CompletionQueue_new p os (uring_fd (u_file u)) (sp_cq_off ps) (sp_cq_entries ps) w2 =
       Done (Ok (u_cq u, u_cq_mmap u), w')"
    using assms(2) by (rule Uring_new_Ok)
  obtain m m' where m: "u_sq_mmaps u = (m, m')" by (cases "u_sq_mmaps u")
  have "sq_layout_ok (sp_sq_off ps) (sp_sq_entries ps)" using assms(3) ps by simp
  from SubmissionQueue_new_wf [OF assms(1) this sq [unfolded m] assms(4)]
    CompletionQueue_new_wf [OF cq assms(5)] u ps
  show ?thesis by blast
qed

section \<open>Properties\<close>


lemma demo_mem_laws: "mem_laws (demo_os b)"
  by (auto simp: mem_laws_def demo_os_def non_overlap32_def)

lemma demo_layout: "sq_layout_ok (sp_sq_off demo_params) (sp_sq_entries demo_params)"
  by (simp add: sq_layout_ok_def demo_params_def non_overlap32_def ring_dist_def)

lemma one_is_power_of_two [simp]: "is_power_of_two (1 :: u32)"
  unfolding is_power_of_two_iff by (rule exI [of _ 0]) simp

lemmas demo_new_defs = demo_new_def Uring_new_def UringFile_new_def io_uring_setup_def
  SubmissionQueue_new_def CompletionQueue_new_def MappedMemory_map_def get_field_def as_mut_ptr_def
  demo_os_def demo_world0_def demo_params_def SubmissionQueue_drop_def MappedMemory_drop_def
  UringFile_drop_def last_os_error_def rust_add_def rust_sub_def rust_assert_def
  SUBMISSION_QUEUE_RING_OFFSET_def COMPLETION_QUEUE_RING_OFFSET_def SUBMISSION_QUEUE_ENTRIES_OFFSET_def

lemma demo_new_ok:
  "case demo_new False of Done (r, w') \<Rightarrow>
     (case r of Ok u \<Rightarrow> sq_k_head (u_sq u) = 0 \<and> sq_k_tail (u_sq u) = 0 \<and>
        cq_k_head (u_cq u) = 0 \<and> cq_k_tail (u_cq u) = 0 | Err e \<Rightarrow> False)
   | _ \<Rightarrow> False"
  by (simp add: demo_new_defs Let_def)

lemma demo_new_err: "case demo_new True of Done (r, w') \<Rightarrow> is_err r | _ \<Rightarrow> False"
  by (simp add: demo_new_defs Let_def)


text \<open>
  C27. No resource is leaked or released twice: on a system where set-up, \<open>mmap\<close>, \<open>munmap\<close> and
  \<open>close\<close> acquire and release what they say, \<open>Uring::new\<close> holds exactly the ring descriptor and the
  three mappings more when it succeeds, and exactly what it held before when it returns an error.
\<close>

theorem uring_new_resources:
  assumes "os_accounting os held"
    and "Uring_new p os entries params pp w = Done (r, w')"
  shows "held w' = held w + (case r of Ok u \<Rightarrow> uring_resources u | Err e \<Rightarrow> {#})"
  using assms by (rule Uring_new_accounting)

lemma demo_accounting: "os_accounting (demo_os b) dw_held"
  by (auto simp: os_accounting_def demo_os_def Let_def split: if_splits)

theorem uring_new_resources_witness:
  "\<exists>r w'. Uring_new Debug (demo_os True) 1 (SetupParameters_new 0) 0x500 demo_world0 = Done (r, w') \<and>
     is_err r \<and> dw_held w' = {#}"
proof -
  obtain r w' where n: "demo_new True = Done (r, w')" "is_err r"
    using demo_new_err by (auto split: outcome.splits)
  from uring_new_resources [OF demo_accounting n(1) [unfolded demo_new_def]] n
  show ?thesis by (cases r) (auto simp: demo_new_def demo_world0_def)
qed

text \<open>
  C40. Lengths handed to \<open>io_uring_register\<close>. \<open>register_files\<close> panics exactly when the slice has more
  than \<open>u32::MAX\<close> elements, and otherwise the kernel is told the true number; \<open>register_buffers\<close>
  has no such check, and the kernel is told the number modulo \<open>2 ^ 32\<close>.
\<close>

theorem register_slice_lengths:
  "(\<exists>m. UringFile_register_files os f fds w = Panic m) = (2 ^ 32 \<le> unat (fp_len fds)) \<and>
   (unat (fp_len fds) < 2 ^ 32 \<longrightarrow>
      UringFile_register_files os f fds w =
        Done (UringFile_register os f REGISTER_FILES (fp_ptr fds) (of_nat (unat (fp_len fds))) w) \<and>
      unat (of_nat (unat (fp_len fds)) :: u32) = unat (fp_len fds)) \<and>
   UringFile_register_buffers os f fds w =
     UringFile_register os f REGISTER_BUFFERS (fp_ptr fds) (of_nat (unat (fp_len fds) mod 2 ^ 32)) w"
proof -
  have u: "(ucast (fp_len fds) :: u32) = of_nat (unat (fp_len fds))" by simp
  have m: "(of_nat (n mod 2 ^ 32) :: u32) = of_nat n" for n
    by (simp only: word_unat_eq_iff unsigned_of_nat) (simp add: take_bit_eq_mod)
  have "unat (ucast (fp_len fds) :: u32) = unat (fp_len fds)" if "unat (fp_len fds) < 2 ^ 32"
    unfolding u using that by (simp only: unsigned_of_nat) (simp add: take_bit_nat_eq_self)
  then show ?thesis
    unfolding UringFile_register_files_def UringFile_register_buffers_def u m rust_assert_def by auto
qed

theorem register_slice_lengths_witness:
  "UringFile_register_buffers (demo_os False) (UringFile 3) \<lparr>fp_ptr = 0x1000, fp_len = 2 ^ 32 + 1\<rparr> demo_world0 =
   UringFile_register (demo_os False) (UringFile 3) REGISTER_BUFFERS 0x1000 1 demo_world0"
proof -
  let ?b = "\<lparr>fp_ptr = 0x1000, fp_len = 2 ^ 32 + 1\<rparr>"
  have "(of_nat (unat (fp_len ?b) mod 2 ^ 32) :: u32) = 1" by simp
  with register_slice_lengths [of "demo_os False" "UringFile 3" ?b demo_world0]
  show ?thesis by simp
qed

end
