(* ===== verification/Registration.thy ===== *)
theory Registration
  imports Uring_Prelude "HOL-Library.Multiset"
begin

text \<open>
  \<open>tokio-uring-reactor/src/registration.rs\<close>. A registration is a reference counted cell
  (\<open>Rc<UnsafeCell<Inner>>\<close>) shared between a future (\<open>Registration\<close>) and the kernel, which carries
  the cell's address as \<open>user_data\<close> (\<open>RawRegistration\<close>). Cells live in an explicit heap, so that
  reference counts, aliasing and use after free are visible: reading a freed cell is \<open>Undefined\<close>.
  Both kinds of handle are the cell's address. The type parameter \<open>'d\<close> is \<open>dyn Any\<close>; \<open>downcast\<close>
  arguments stand for \<open>downcast::<T>\<close>. Tasks are numbers; waking one appends it to a log.
\<close>

section \<open>Wakers and cells\<close>

type_synonym task = nat

datatype CompatWaker = Empty | Old task | New task

text \<open>\<open>std::mem::replace\<close> leaves \<open>Empty\<close> behind; the list is what gets woken.\<close>

definition CompatWaker_notify :: "CompatWaker \<Rightarrow> CompatWaker \<times> task list" where
  "CompatWaker_notify w =
     (Empty, case w of Empty \<Rightarrow> [] | Old t \<Rightarrow> [t] | New t \<Rightarrow> [t])"

text \<open>\<open>futures::task::current()\<close> is the parameter \<open>cur\<close>; it panics outside a task (\<open>None\<close>).\<close>

definition register_old :: "task option \<Rightarrow> CompatWaker \<Rightarrow> CompatWaker outcome" where
  "register_old cur w = obind (expect ''no Task is currently running'' cur) (\<lambda>t. Done (Old t))"

definition register_new :: "task \<Rightarrow> CompatWaker \<Rightarrow> CompatWaker" where
  "register_new waker w = New waker"

definition CompatWaker_default :: CompatWaker where
  "CompatWaker_default = Empty"

record UringResult =
  ur_result :: i32
  ur_flags :: u32

definition UringResult_default :: UringResult where
  "UringResult_default = \<lparr>ur_result = 0, ur_flags = 0\<rparr>"

record 'd RegInner =
  ri_result :: UringResult
  ri_finished :: bool
  ri_waker :: CompatWaker
  ri_data :: "'d option"

definition RegInner_default :: "'d RegInner" where
  "RegInner_default = \<lparr>ri_result = UringResult_default, ri_finished = False,
     ri_waker = CompatWaker_default, ri_data = None\<rparr>"

datatype 'a Async = Ready 'a | NotReady

section \<open>Reference counted cells\<close>

record 'd rc_heap =
  rh_cells :: "u64 \<rightharpoonup> nat \<times> 'd RegInner"
  rh_woken :: "task list"

definition strong :: "'d rc_heap \<Rightarrow> u64 \<Rightarrow> nat" where
  "strong h a = (case rh_cells h a of None \<Rightarrow> 0 | Some (n, _) \<Rightarrow> n)"

definition rc_get :: "u64 \<Rightarrow> 'd rc_heap \<Rightarrow> 'd RegInner outcome" where
  "rc_get a h =
     (case rh_cells h a of None \<Rightarrow> Undefined ''access to a freed registration'' | Some (_, i) \<Rightarrow> Done i)"

definition rc_put :: "u64 \<Rightarrow> 'd RegInner \<Rightarrow> 'd rc_heap \<Rightarrow> 'd rc_heap" where
  "rc_put a i h = h\<lparr>rh_cells := (rh_cells h)(a \<mapsto> (strong h a, i))\<rparr>"

text \<open>The allocator is a parameter: it picks the address of a new cell.\<close>

definition rc_new :: "('d rc_heap \<Rightarrow> u64) \<Rightarrow> 'd RegInner \<Rightarrow> 'd rc_heap \<Rightarrow> u64 \<times> 'd rc_heap" where
  "rc_new alloc i h = (alloc h, h\<lparr>rh_cells := (rh_cells h)(alloc h \<mapsto> (1, i))\<rparr>)"

definition rc_clone :: "u64 \<Rightarrow> 'd rc_heap \<Rightarrow> 'd rc_heap outcome" where
  "rc_clone a h = (case rh_cells h a of
       None \<Rightarrow> Undefined ''clone of a freed registration''
     | Some (n, i) \<Rightarrow> Done (h\<lparr>rh_cells := (rh_cells h)(a \<mapsto> (Suc n, i))\<rparr>))"

definition rc_drop :: "u64 \<Rightarrow> 'd rc_heap \<Rightarrow> 'd rc_heap outcome" where
  "rc_drop a h = (case rh_cells h a of
       None \<Rightarrow> Undefined ''drop of a freed registration''
     | Some (n, i) \<Rightarrow>
         Done (h\<lparr>rh_cells := (rh_cells h)(a := if n \<le> 1 then None else Some (n - 1, i))\<rparr>))"

definition rc_try_unwrap :: "u64 \<Rightarrow> 'd rc_heap \<Rightarrow> (('d RegInner, u64) rresult \<times> 'd rc_heap) outcome" where
  "rc_try_unwrap a h = (case rh_cells h a of
       None \<Rightarrow> Undefined ''access to a freed registration''
     | Some (n, i) \<Rightarrow>
         if n = 1 then Done (Ok i, h\<lparr>rh_cells := (rh_cells h)(a := None)\<rparr>) else Done (Err a, h))"

section \<open>RawRegistration\<close>

definition RawRegistration_notify :: "u64 \<Rightarrow> UringResult \<Rightarrow> 'd rc_heap \<Rightarrow> 'd rc_heap outcome" where
  "RawRegistration_notify a result h =
     obind (rc_get a h) (\<lambda>inner.
     obind (rust_assert ''assertion failed: !inner.finished'' (\<not> ri_finished inner)) (\<lambda>_.
     let inner = inner\<lparr>ri_finished := True\<rparr>;
         inner = inner\<lparr>ri_result := result\<rparr>;
         (waker, woken) = CompatWaker_notify (ri_waker inner);
         h = rc_put a (inner\<lparr>ri_waker := waker\<rparr>) h
     in Done (h\<lparr>rh_woken := rh_woken h @ woken\<rparr>)))"

definition into_user_data :: "u64 \<Rightarrow> u64 outcome" where
  "into_user_data a =
     obind (rust_assert ''assertion failed: user_data != 0 && user_data & 0x1 == 0''
              (a \<noteq> 0 \<and> a AND 1 = 0)) (\<lambda>_. Done a)"

definition from_user_data :: "u64 \<Rightarrow> u64" where
  "from_user_data data = data"

section \<open>Registration\<close>

definition Registration_new ::
  "('d rc_heap \<Rightarrow> u64) \<Rightarrow> 'd \<Rightarrow> 'd rc_heap \<Rightarrow> u64 \<times> 'd rc_heap"
where
  "Registration_new alloc data h = rc_new alloc (RegInner_default\<lparr>ri_data := Some data\<rparr>) h"

definition Registration_track :: "task option \<Rightarrow> u64 \<Rightarrow> 'd rc_heap \<Rightarrow> 'd rc_heap outcome" where
  "Registration_track cur a h =
     obind (rc_get a h) (\<lambda>inner.
     obind (register_old cur (ri_waker inner)) (\<lambda>w. Done (rc_put a (inner\<lparr>ri_waker := w\<rparr>) h)))"

definition Registration_track_async :: "task \<Rightarrow> u64 \<Rightarrow> 'd rc_heap \<Rightarrow> 'd rc_heap outcome" where
  "Registration_track_async waker a h =
     obind (rc_get a h) (\<lambda>inner.
       Done (rc_put a (inner\<lparr>ri_waker := register_new waker (ri_waker inner)\<rparr>) h))"

definition Registration_poll ::
  "task option \<Rightarrow> ('d \<Rightarrow> 't option) \<Rightarrow> u64 \<Rightarrow> 'd rc_heap \<Rightarrow> ((UringResult \<times> 't) Async \<times> 'd rc_heap) outcome"
where
  "Registration_poll cur downcast a h =
     obind (rc_get a h) (\<lambda>inner.
     if ri_data inner = None then Done (NotReady, h)
     else if ri_finished inner then
       let result = ri_result inner;
           h = rc_put a (inner\<lparr>ri_data := None\<rparr>) h in
       obind (expect ''data'' (ri_data inner)) (\<lambda>d.
       obind (expect ''type'' (downcast d)) (\<lambda>data. Done (Ready (result, data), h)))
     else
       obind (register_old cur (ri_waker inner)) (\<lambda>w.
         Done (NotReady, rc_put a (inner\<lparr>ri_waker := w\<rparr>) h)))"

definition Registration_poll_async ::
  "task \<Rightarrow> ('d \<Rightarrow> 't option) \<Rightarrow> u64 \<Rightarrow> 'd rc_heap \<Rightarrow> ((UringResult \<times> 't) Async \<times> 'd rc_heap) outcome"
where
  "Registration_poll_async waker downcast a h =
     obind (rc_get a h) (\<lambda>inner.
     if ri_data inner = None then Done (NotReady, h)
     else if ri_finished inner then
       let result = ri_result inner;
           h = rc_put a (inner\<lparr>ri_data := None\<rparr>) h in
       obind (expect ''data'' (ri_data inner)) (\<lambda>d.
       obind (expect ''type'' (downcast d)) (\<lambda>data. Done (Ready (result, data), h)))
     else Done (NotReady, rc_put a (inner\<lparr>ri_waker := register_new waker (ri_waker inner)\<rparr>) h))"

text \<open>\<open>abort\<close>: when the cell is shared, \<open>ok()\<close> drops the handle and the result is \<open>None\<close>.\<close>

definition Registration_abort ::
  "('d \<Rightarrow> 't option) \<Rightarrow> u64 \<Rightarrow> 'd rc_heap \<Rightarrow> ('t option \<times> 'd rc_heap) outcome"
where
  "Registration_abort downcast a h =
     obind (rc_try_unwrap a h) (\<lambda>(r, h).
     case r of
       Err rc \<Rightarrow> obind (rc_drop rc h) (\<lambda>h. Done (None, h))
     | Ok inner \<Rightarrow>
         obind (expect ''data'' (ri_data inner)) (\<lambda>d.
         obind (expect ''type'' (downcast d)) (\<lambda>t. Done (Some t, h))))"

definition Registration_user_data :: "u64 \<Rightarrow> u64 outcome" where
  "Registration_user_data a =
     obind (rust_assert ''assertion failed: user_data != 0 && user_data & 0x1 == 0''
              (a \<noteq> 0 \<and> a AND 1 = 0)) (\<lambda>_. Done a)"

definition Registration_to_raw :: "u64 \<Rightarrow> 'd rc_heap \<Rightarrow> (u64 \<times> 'd rc_heap) outcome" where
  "Registration_to_raw a h = obind (rc_clone a h) (\<lambda>h. Done (a, h))"

text \<open>\<open>data_mut\<close> followed by an update of the data through the reference (\<open>upcast\<close> re-wraps it).\<close>

definition Registration_data_mut ::
  "('d \<Rightarrow> 't option) \<Rightarrow> ('t \<Rightarrow> 'd) \<Rightarrow> u64 \<Rightarrow> ('t \<Rightarrow> 't) \<Rightarrow> 'd rc_heap \<Rightarrow> ('t \<times> 'd rc_heap) outcome"
where
  "Registration_data_mut downcast upcast a f h =
     obind (rc_get a h) (\<lambda>inner.
     obind (expect ''data'' (ri_data inner)) (\<lambda>d.
     obind (expect ''type'' (downcast d)) (\<lambda>t.
       Done (f t, rc_put a (inner\<lparr>ri_data := Some (upcast (f t))\<rparr>) h))))"

definition poll_stream_and_reset ::
  "task option \<Rightarrow> u64 \<Rightarrow> 'd rc_heap \<Rightarrow> (UringResult Async \<times> 'd rc_heap) outcome"
where
  "poll_stream_and_reset cur a h =
     obind (rc_get a h) (\<lambda>inner.
     if ri_finished inner then
       Done (Ready (ri_result inner), rc_put a (inner\<lparr>ri_finished := False\<rparr>) h)
     else
       obind (register_old cur (ri_waker inner)) (\<lambda>w.
         Done (NotReady, rc_put a (inner\<lparr>ri_waker := w\<rparr>) h)))"

definition poll_stream_and_reset_async ::
  "task \<Rightarrow> u64 \<Rightarrow> 'd rc_heap \<Rightarrow> (UringResult Async \<times> 'd rc_heap) outcome"
where
  "poll_stream_and_reset_async waker a h =
     obind (rc_get a h) (\<lambda>inner.
     if ri_finished inner then
       Done (Ready (ri_result inner), rc_put a (inner\<lparr>ri_finished := False\<rparr>) h)
     else Done (NotReady, rc_put a (inner\<lparr>ri_waker := register_new waker (ri_waker inner)\<rparr>) h))"

section \<open>Ownership\<close>

text \<open>
  \<open>owners_ok h own\<close>: the multiset \<open>own\<close> of live handles accounts for every strong count; a cell
  without handles is not allocated. \<open>alloc_ok\<close> is what the code relies on of the allocator: the next
  cell is at an unused, non-null, even address.
\<close>

definition owners_ok :: "'d rc_heap \<Rightarrow> u64 multiset \<Rightarrow> bool" where
  "owners_ok h own \<longleftrightarrow>
     (\<forall>a. case rh_cells h a of None \<Rightarrow> count own a = 0 | Some (n, _) \<Rightarrow> n = count own a \<and> 0 < n)"

definition alloc_ok :: "('d rc_heap \<Rightarrow> u64) \<Rightarrow> 'd rc_heap \<Rightarrow> bool" where
  "alloc_ok alloc h \<longleftrightarrow> rh_cells h (alloc h) = None \<and> alloc h \<noteq> 0 \<and> alloc h AND 1 = 0"

text \<open>The operations of a handle, as one type: their effect on the heap and on the live handles.\<close>

datatype reg_op =
    OpToRaw u64 | OpDrop u64 | OpNotify u64 UringResult | OpTrack u64 "task option"
  | OpTrackAsync u64 task | OpPoll u64 "task option" | OpPollAsync u64 task | OpAbort u64
  | OpPollStream u64 "task option" | OpPollStreamAsync u64 task

primrec op_addr :: "reg_op \<Rightarrow> u64" where
  "op_addr (OpToRaw a) = a" | "op_addr (OpDrop a) = a" | "op_addr (OpNotify a r) = a"
| "op_addr (OpTrack a c) = a" | "op_addr (OpTrackAsync a t) = a" | "op_addr (OpPoll a c) = a"
| "op_addr (OpPollAsync a t) = a" | "op_addr (OpAbort a) = a" | "op_addr (OpPollStream a c) = a"
| "op_addr (OpPollStreamAsync a t) = a"

primrec op_exec :: "('d \<Rightarrow> 't option) \<Rightarrow> reg_op \<Rightarrow> 'd rc_heap \<Rightarrow> 'd rc_heap outcome" where
  "op_exec dc (OpToRaw a) h = map_outcome snd (Registration_to_raw a h)"
| "op_exec dc (OpDrop a) h = rc_drop a h"
| "op_exec dc (OpNotify a r) h = RawRegistration_notify a r h"
| "op_exec dc (OpTrack a c) h = Registration_track c a h"
| "op_exec dc (OpTrackAsync a t) h = Registration_track_async t a h"
| "op_exec dc (OpPoll a c) h = map_outcome snd (Registration_poll c dc a h)"
| "op_exec dc (OpPollAsync a t) h = map_outcome snd (Registration_poll_async t dc a h)"
| "op_exec dc (OpAbort a) h = map_outcome snd (Registration_abort dc a h)"
| "op_exec dc (OpPollStream a c) h = map_outcome snd (poll_stream_and_reset c a h)"
| "op_exec dc (OpPollStreamAsync a t) h = map_outcome snd (poll_stream_and_reset_async t a h)"

definition op_owners :: "reg_op \<Rightarrow> u64 multiset \<Rightarrow> u64 multiset" where
  "op_owners p own = (case p of
       OpToRaw a \<Rightarrow> add_mset a own | OpDrop a \<Rightarrow> own - {#a#} | OpAbort a \<Rightarrow> own - {#a#} | _ \<Rightarrow> own)"

text \<open>Programs that only use handles they own, for any notion of operation.\<close>

primrec run_ops :: "('p \<Rightarrow> 'h \<Rightarrow> 'h outcome) \<Rightarrow> 'p list \<Rightarrow> 'h \<Rightarrow> 'h outcome" where
  "run_ops exec [] h = Done h"
| "run_ops exec (p # ps) h = obind (exec p h) (run_ops exec ps)"

primrec uses_owned :: "('p \<Rightarrow> 'a) \<Rightarrow> ('p \<Rightarrow> 'a multiset \<Rightarrow> 'a multiset) \<Rightarrow> 'p list \<Rightarrow> 'a multiset \<Rightarrow> bool" where
  "uses_owned addr after [] own \<longleftrightarrow> True"
| "uses_owned addr after (p # ps) own \<longleftrightarrow> addr p \<in># own \<and> uses_owned addr after ps (after p own)"

text \<open>Polling a pending registration once for each task of a list, as spurious wake-ups would.\<close>

primrec poll_each :: "('d \<Rightarrow> 't option) \<Rightarrow> u64 \<Rightarrow> task list \<Rightarrow> 'd rc_heap \<Rightarrow> 'd rc_heap outcome" where
  "poll_each dc a [] h = Done h"
| "poll_each dc a (t # ts) h = obind (Registration_poll (Some t) dc a h) (\<lambda>(r, h).
     case r of NotReady \<Rightarrow> poll_each dc a ts h | Ready _ \<Rightarrow> Panic ''ready before completion'')"

definition demo_heap :: "nat rc_heap" where
  "demo_heap = \<lparr>rh_cells = [0x1000 \<mapsto> (2, RegInner_default\<lparr>ri_data := Some 7\<rparr>)], rh_woken = []\<rparr>"

section \<open>The ownership discipline\<close>

locale owned_cells =
  fixes ok :: "'h \<Rightarrow> 'a multiset \<Rightarrow> bool"
    and exec :: "'p \<Rightarrow> 'h \<Rightarrow> 'h outcome"
    and addr :: "'p \<Rightarrow> 'a"
    and after :: "'p \<Rightarrow> 'a multiset \<Rightarrow> 'a multiset"
  assumes step: "ok h own \<Longrightarrow> addr p \<in># own \<Longrightarrow>
      (\<exists>h'. exec p h = Done h' \<and> ok h' (after p own)) \<or> (\<exists>m. exec p h = Panic m)"
begin

lemma run_owned:
  assumes "ok h own" "uses_owned addr after ps own"
  shows "(\<exists>h'. run_ops exec ps h = Done h' \<and> ok h' (fold after ps own)) \<or> (\<exists>m. run_ops exec ps h = Panic m)"
  using assms
proof (induction ps arbitrary: h own)
  case (Cons p ps)
  then have "ok h own" "addr p \<in># own" by auto
  from step [OF this] show ?case
  proof (elim disjE exE conjE)
    fix h' assume "exec p h = Done h'" "ok h' (after p own)"
    with Cons.IH [of h' "after p own"] Cons.prems(2) show ?thesis by simp
  qed simp
qed simp

lemma run_not_undefined:
  "ok h own \<Longrightarrow> uses_owned addr after ps own \<Longrightarrow> run_ops exec ps h \<noteq> Undefined m"
  using run_owned [of h own ps] by auto

end

section \<open>Lemmas\<close>

lemmas rc_defs = strong_def rc_get_def rc_put_def rc_new_def rc_clone_def rc_drop_def rc_try_unwrap_def

lemmas reg_defs = RawRegistration_notify_def Registration_track_def Registration_track_async_def
  Registration_poll_def Registration_poll_async_def Registration_abort_def Registration_to_raw_def
  poll_stream_and_reset_def poll_stream_and_reset_async_def register_old_def register_new_def
  CompatWaker_notify_def

lemma owners_okD:
  assumes "owners_ok h own"
  shows "rh_cells h a = None \<Longrightarrow> count own a = 0" "rh_cells h a = Some (n, i) \<Longrightarrow> n = count own a \<and> 0 < n"
  using assms [unfolded owners_ok_def, rule_format, of a] by auto

lemma owners_strong: "owners_ok h own \<Longrightarrow> strong h a = count own a"
  using owners_okD [of h own a] by (cases "rh_cells h a") (auto simp: strong_def)

lemma owned_cell:
  assumes "owners_ok h own" "a \<in># own"
  obtains n i where "rh_cells h a = Some (n, i)" "n = count own a" "0 < n"
proof (cases "rh_cells h a")
  case None
  with owners_okD(1) [OF assms(1)] assms(2) show ?thesis by (simp add: not_in_iff [symmetric])
next
  case (Some c)
  obtain n i where "c = (n, i)" by (cases c)
  with Some owners_okD(2) [OF assms(1), of a n i] that [of n i] show ?thesis by blast
qed

lemma owners_update:
  assumes "owners_ok h own" "\<And>b. b \<noteq> a \<Longrightarrow> count own' b = count own b"
    and "case c of None \<Rightarrow> count own' a = 0 | Some (n, _) \<Rightarrow> n = count own' a \<and> 0 < n"
  shows "owners_ok (h\<lparr>rh_cells := (rh_cells h)(a := c)\<rparr>) own'"
  unfolding owners_ok_def
proof
  fix b
  show "case rh_cells (h\<lparr>rh_cells := (rh_cells h)(a := c)\<rparr>) b of None \<Rightarrow> count own' b = 0
      | Some (n, _) \<Rightarrow> n = count own' b \<and> 0 < n"
    using assms(1) [unfolded owners_ok_def, rule_format, of b] assms(2) [of b] assms(3)
    by (cases "b = a"; cases "rh_cells h b") auto
qed

lemma owners_freed_iff:
  assumes "owners_ok h own"
  shows "rh_cells h a = None \<longleftrightarrow> a \<notin># own"
proof (cases "a \<in># own")
  case True
  then show ?thesis by (rule owned_cell [OF assms]) simp
next
  case False
  then show ?thesis using owners_okD(2) [OF assms, of a] by (cases "rh_cells h a") (auto simp: not_in_iff)
qed

lemma strong_put [simp]: "strong (rc_put a i h) = strong h"
  by (rule ext) (simp add: rc_put_def strong_def)

lemma owners_put:
  assumes "owners_ok h own" "rh_cells h a = Some c"
  shows "owners_ok (rc_put a i h) own"
proof -
  obtain n j where "c = (n, j)" by (cases c)
  with assms owners_okD(2) [OF assms(1), of a n j] show ?thesis
    by (auto simp: rc_put_def strong_def intro: owners_update)
qed

lemma owners_woken [simp]: "owners_ok (h\<lparr>rh_woken := w\<rparr>) own = owners_ok h own"
  by (simp add: owners_ok_def)

lemma rc_clone_owned:
  assumes "owners_ok h own" "a \<in># own"
  shows "\<exists>h'. rc_clone a h = Done h' \<and> owners_ok h' (add_mset a own)"
proof -
  obtain n i where "rh_cells h a = Some (n, i)" "n = count own a" "0 < n" by (rule owned_cell [OF assms])
  with assms(1) show ?thesis by (auto simp: rc_clone_def intro: owners_update)
qed

lemma rc_drop_owned:
  assumes "owners_ok h own" "a \<in># own"
  shows "\<exists>h'. rc_drop a h = Done h' \<and> owners_ok h' (own - {#a#})"
proof -
  obtain n i where "rh_cells h a = Some (n, i)" "n = count own a" "0 < n" by (rule owned_cell [OF assms])
  with assms(1) show ?thesis by (auto simp: rc_drop_def intro!: owners_update)
qed

lemma rc_new_owned:
  assumes "owners_ok h own" "alloc_ok alloc h" "rc_new alloc i h = (a, h')"
  shows "owners_ok h' (add_mset a own)" "a \<notin># own" "rh_cells h' a = Some (1, i)" "a \<noteq> 0" "a AND 1 = 0"
proof -
  have a: "a = alloc h" "rh_cells h a = None" "a \<noteq> 0" "a AND 1 = 0"
    and h': "h' = h\<lparr>rh_cells := (rh_cells h)(a \<mapsto> (1, i))\<rparr>"
    using assms(2,3) by (auto simp: rc_new_def alloc_ok_def)
  have "count own a = 0" using owners_okD(1) [OF assms(1)] a(2) by blast
  with a assms(1) show "owners_ok h' (add_mset a own)" "a \<notin># own" "rh_cells h' a = Some (1, i)"
    "a \<noteq> 0" "a AND 1 = 0"
    unfolding h' by (auto simp: not_in_iff intro!: owners_update)
qed

lemma abort_owned:
  assumes "owners_ok h own" "a \<in># own"
  shows "(\<exists>h' r. Registration_abort dc a h = Done (r, h') \<and> owners_ok h' (own - {#a#})) \<or>
    (\<exists>m. Registration_abort dc a h = Panic m)"
proof -
  obtain n i where c: "rh_cells h a = Some (n, i)" "n = count own a" "0 < n" by (rule owned_cell [OF assms])
  show ?thesis
  proof (cases "n = 1")
    case True
    with c assms(1) have "owners_ok (h\<lparr>rh_cells := (rh_cells h)(a := None)\<rparr>) (own - {#a#})"
      by (auto intro!: owners_update)
    with True c show ?thesis
      by (cases "ri_data i"; cases "dc (the (ri_data i))") (auto simp: Registration_abort_def rc_try_unwrap_def)
  next
    case False
    with c rc_drop_owned [OF assms] show ?thesis
      by (auto simp: Registration_abort_def rc_try_unwrap_def)
  qed
qed

lemma op_exec_owned:
  assumes "owners_ok h own" "op_addr p \<in># own"
  shows "(\<exists>h'. op_exec dc p h = Done h' \<and> owners_ok h' (op_owners p own)) \<or> (\<exists>m. op_exec dc p h = Panic m)"
proof -
  obtain n i where c: "rh_cells h (op_addr p) = Some (n, i)" by (rule owned_cell [OF assms])
  have g: "rc_get (op_addr p) h = Done i" using c by (simp add: rc_get_def)
  have put: "owners_ok (rc_put (op_addr p) i' h) own" for i' by (rule owners_put [OF assms(1) c])
  show ?thesis
  proof (cases p)
    case (OpToRaw a)
    then show ?thesis using rc_clone_owned [of h own a] assms by (auto simp: op_owners_def Registration_to_raw_def)
  next
    case (OpDrop a)
    then show ?thesis using rc_drop_owned [of h own a] assms by (auto simp: op_owners_def)
  next
    case (OpAbort a)
    then show ?thesis using abort_owned [of h own a dc] assms by (auto simp: op_owners_def)
  next
    case (OpPoll a cu)
    then show ?thesis using assms put g
      by (cases cu; cases "ri_data i"; cases "dc (the (ri_data i))") (auto simp: op_owners_def reg_defs Let_def)
  next
    case (OpPollAsync a t)
    then show ?thesis using assms put g
      by (cases "ri_data i"; cases "dc (the (ri_data i))") (auto simp: op_owners_def reg_defs Let_def)
  next
    case (OpTrack a cu)
    then show ?thesis using assms put g by (cases cu) (auto simp: op_owners_def reg_defs Let_def)
  next
    case (OpPollStream a cu)
    then show ?thesis using assms put g by (cases cu) (auto simp: op_owners_def reg_defs Let_def)
  qed (use assms put g in \<open>auto simp: op_owners_def reg_defs Let_def rust_assert_def\<close>)
qed

interpretation rc: owned_cells owners_ok "op_exec dc" op_addr op_owners for dc
  by unfold_locales (rule op_exec_owned)

section \<open>Single operations on an allocated cell\<close>

lemma notify_cell:
  assumes "rh_cells h a = Some (n, i)" "\<not> ri_finished i"
  shows "RawRegistration_notify a r h = Done (h\<lparr>
      rh_cells := (rh_cells h)(a \<mapsto> (n, i\<lparr>ri_finished := True, ri_result := r, ri_waker := Empty\<rparr>)),
      rh_woken := rh_woken h @ snd (CompatWaker_notify (ri_waker i))\<rparr>)"
  using assms by (simp add: RawRegistration_notify_def rc_get_def rc_put_def strong_def rust_assert_def
      CompatWaker_notify_def Let_def)

lemma notify_finished:
  assumes "rh_cells h a = Some (n, i)" "ri_finished i"
  shows "\<exists>m. RawRegistration_notify a r h = Panic m"
  using assms by (simp add: RawRegistration_notify_def rc_get_def rust_assert_def)

lemma poll_pending_cell:
  assumes "rh_cells h a = Some (n, i)" "ri_data i = Some d" "\<not> ri_finished i"
  shows "Registration_poll (Some t) dc a h =
    Done (NotReady, h\<lparr>rh_cells := (rh_cells h)(a \<mapsto> (n, i\<lparr>ri_waker := Old t\<rparr>))\<rparr>)"
  using assms by (simp add: Registration_poll_def rc_get_def rc_put_def strong_def register_old_def)

lemma poll_finished_cell:
  assumes "rh_cells h a = Some (n, i)" "ri_data i = Some d" "ri_finished i" "dc d = Some t"
  shows "Registration_poll cur dc a h =
    Done (Ready (ri_result i, t), h\<lparr>rh_cells := (rh_cells h)(a \<mapsto> (n, i\<lparr>ri_data := None\<rparr>))\<rparr>)"
  using assms by (simp add: Registration_poll_def rc_get_def rc_put_def strong_def Let_def)

lemma poll_taken_cell:
  assumes "rh_cells h a = Some (n, i)" "ri_data i = None"
  shows "Registration_poll cur dc a h = Done (NotReady, h)"
  using assms by (simp add: Registration_poll_def rc_get_def)

lemma poll_each_cell:
  assumes "rh_cells h a = Some (n, i)" "ri_data i = Some d" "\<not> ri_finished i"
  shows "poll_each dc a ts h = Done (if ts = [] then h else
    h\<lparr>rh_cells := (rh_cells h)(a \<mapsto> (n, i\<lparr>ri_waker := Old (last ts)\<rparr>))\<rparr>)"
  using assms by (induction ts arbitrary: h i) (simp_all add: poll_pending_cell)

section \<open>Properties\<close>

text \<open>
  C16. A result is delivered exactly once. While the operation is in flight every poll answers
  \<open>NotReady\<close> and remembers the task that polled; the completion wakes exactly the last one (or the
  waker tracked before, or nobody); the next poll returns the kernel's result together with the data
  given to \<open>new\<close>; after that polls answer \<open>NotReady\<close> and change nothing, and a second completion for
  the same registration panics.
\<close>

theorem registration_delivers_once:
  assumes "rh_cells h a = Some (n, i)" "\<not> ri_finished i" "ri_data i = Some d" "downcast d = Some t"
  shows "\<exists>h1 h2 h3. poll_each downcast a ts h = Done h1 \<and> rh_woken h1 = rh_woken h \<and>
    RawRegistration_notify a r h1 = Done h2 \<and>
    rh_woken h2 = rh_woken h @ (if ts = [] then snd (CompatWaker_notify (ri_waker i)) else [last ts]) \<and>
    Registration_poll cur downcast a h2 = Done (Ready (r, t), h3) \<and> rh_woken h3 = rh_woken h2 \<and>
    Registration_poll cur' downcast a h3 = Done (NotReady, h3) \<and>
    (\<forall>r'. (\<exists>m. RawRegistration_notify a r' h2 = Panic m) \<and> (\<exists>m. RawRegistration_notify a r' h3 = Panic m))"
proof -
  define i1 where "i1 = (if ts = [] then i else i\<lparr>ri_waker := Old (last ts)\<rparr>)"
  define h1 where "h1 = (if ts = [] then h else h\<lparr>rh_cells := (rh_cells h)(a \<mapsto> (n, i1))\<rparr>)"
  have 1: "poll_each downcast a ts h = Done h1" "rh_woken h1 = rh_woken h" "rh_cells h1 a = Some (n, i1)"
    using assms poll_each_cell [OF assms(1,3,2), of downcast ts] by (simp_all add: h1_def i1_def)
  have i1: "\<not> ri_finished i1" "ri_data i1 = Some d"
    "CompatWaker_notify (ri_waker i1) = (Empty, if ts = [] then snd (CompatWaker_notify (ri_waker i)) else [last ts])"
    using assms by (simp_all add: i1_def CompatWaker_notify_def)
  obtain h2 where 2: "RawRegistration_notify a r h1 = Done h2"
    "rh_woken h2 = rh_woken h1 @ snd (CompatWaker_notify (ri_waker i1))"
    "rh_cells h2 a = Some (n, i1\<lparr>ri_finished := True, ri_result := r, ri_waker := Empty\<rparr>)"
    using notify_cell [OF 1(3) i1(1)] by simp
  obtain h3 where 3: "Registration_poll cur downcast a h2 = Done (Ready (r, t), h3)" "rh_woken h3 = rh_woken h2"
    "rh_cells h3 a = Some (n, i1\<lparr>ri_finished := True, ri_result := r, ri_waker := Empty, ri_data := None\<rparr>)"
    using poll_finished_cell [OF 2(3), of d downcast t cur] i1 assms(4) by simp
  show ?thesis
    using 1 2 3 i1(3) poll_taken_cell [OF 3(3)] notify_finished [OF 2(3)] notify_finished [OF 3(3)] by auto
qed

theorem registration_delivers_once_witness:
  "\<exists>h1 h2 h3. poll_each Some 0x1000 [4, 5] demo_heap = Done h1 \<and>
    RawRegistration_notify 0x1000 \<lparr>ur_result = 9, ur_flags = 0\<rparr> h1 = Done h2 \<and> rh_woken h2 = [5] \<and>
    Registration_poll None Some 0x1000 h2 = Done (Ready (\<lparr>ur_result = 9, ur_flags = 0\<rparr>, 7), h3)"
proof -
  let ?i = "RegInner_default\<lparr>ri_data := Some (7 :: nat)\<rparr>"
  have c: "rh_cells demo_heap 0x1000 = Some (2, ?i)" "\<not> ri_finished ?i" "ri_data ?i = Some 7"
    and "rh_woken demo_heap = []"
    by (simp_all add: demo_heap_def RegInner_default_def)
  with registration_delivers_once [OF c, of Some 7, where ts = "[4, 5]" and
      r = "\<lparr>ur_result = 9, ur_flags = 0\<rparr>" and cur = None and cur' = None]
  show ?thesis by auto
qed

text \<open>
  C14. Memory safety of the reference counting. A program that applies the operations of registrations
  (cloning to a raw handle, dropping, notifying, tracking, polling, aborting) only to handles it owns
  never touches a freed cell; it ends in a panic, or in a heap whose strong counts are again the number
  of live handles, so that a cell is freed exactly when its last handle is gone.
\<close>

theorem registration_memory_safe:
  assumes "owners_ok h own" "uses_owned op_addr op_owners ps own"
  shows "(\<exists>h'. run_ops (op_exec downcast) ps h = Done h' \<and> owners_ok h' (fold op_owners ps own) \<and>
      (\<forall>a. rh_cells h' a = None \<longleftrightarrow> a \<notin># fold op_owners ps own)) \<or>
    (\<exists>m. run_ops (op_exec downcast) ps h = Panic m)"
  using rc.run_owned [OF assms, of downcast] owners_freed_iff by blast

lemma demo_heap_owners: "owners_ok demo_heap {#0x1000, 0x1000#}"
  by (simp add: owners_ok_def demo_heap_def)

theorem registration_memory_safe_witness:
  "\<exists>h'. run_ops (op_exec Some) [OpDrop 0x1000, OpNotify 0x1000 \<lparr>ur_result = 1, ur_flags = 0\<rparr>, OpDrop 0x1000] demo_heap = Done h' \<and>
     rh_cells h' 0x1000 = None"
proof -
  let ?ps = "[OpDrop 0x1000, OpNotify 0x1000 \<lparr>ur_result = 1, ur_flags = 0\<rparr>, OpDrop 0x1000]"
  have "uses_owned op_addr op_owners ?ps {#0x1000, 0x1000#}" "fold op_owners ?ps {#0x1000, 0x1000#} = {#}"
    by (simp_all add: op_owners_def)
  moreover have "is_done (run_ops (op_exec Some) ?ps demo_heap)"
    by (simp add: demo_heap_def rc_drop_def notify_cell RegInner_default_def)
  ultimately show ?thesis
    using registration_memory_safe [OF demo_heap_owners, of ?ps Some] by (auto simp: is_done_iff)
qed

text \<open>
  \<open>abort\<close> never frees data the kernel may still use: the only owner gets the data back and the
  cell is freed; if any other handle exists the result is \<open>None\<close>, the cell keeps its contents and loses
  one count.
\<close>

theorem abort_only_if_unshared:
  assumes "rh_cells h a = Some (n, i)" "0 < n" "ri_data i = Some d" "downcast d = Some t"
  shows "Registration_abort downcast a h = Done
    (if n = 1 then (Some t, h\<lparr>rh_cells := (rh_cells h)(a := None)\<rparr>)
     else (None, h\<lparr>rh_cells := (rh_cells h)(a \<mapsto> (n - 1, i))\<rparr>))"
  using assms by (simp add: Registration_abort_def rc_try_unwrap_def rc_drop_def)

theorem abort_only_if_unshared_witness:
  "Registration_abort Some 0x1000 demo_heap =
     Done (None, demo_heap\<lparr>rh_cells := (rh_cells demo_heap)(0x1000 \<mapsto> (1, RegInner_default\<lparr>ri_data := Some 7\<rparr>))\<rparr>)"
proof -
  have "rh_cells demo_heap 0x1000 = Some (2, RegInner_default\<lparr>ri_data := Some 7\<rparr>)" by (simp add: demo_heap_def)
  from abort_only_if_unshared [OF this, of 7 Some 7] show ?thesis by simp
qed

end
