(* ===== verification/Unpark.thy ===== *)
theory Unpark
  imports Uring_Setup
begin

text \<open>
  \<open>tokio-uring-reactor/src/unpark.rs\<close> and \<open>set_non_block\<close> of \<open>lib.rs\<close>. A thread wakes the reactor
  through two flags shared with it and a pipe the reactor polls. The flags are accessed one atomic
  operation at a time, so \<open>unpark\<close> and the reactor's \<open>enter\<close> and guard are given as sequences of
  steps that other threads may interrupt; the interleaving is sequentially consistent
  (\<open>Park_Weak\<close> adds the weaker orderings of the stores). The pipe is the number of bytes it
  holds; all bytes written are equal.
\<close>

section \<open>Operations\<close>

record 'w posix = "'w os" +
  px_pipe2 :: "i32 \<Rightarrow> 'w \<Rightarrow> (i32 \<times> i32 \<times> i32) \<times> 'w"
  px_fcntl :: "i32 \<Rightarrow> i32 \<Rightarrow> i32 \<Rightarrow> 'w \<Rightarrow> i32 \<times> 'w"
  px_O_CLOEXEC :: i32
  px_O_NONBLOCK :: i32
  px_F_GETFL :: i32
  px_F_SETFL :: i32

definition set_non_block :: "('w, 'z) posix_scheme \<Rightarrow> i32 \<Rightarrow> 'w \<Rightarrow> 'w" where
  "set_non_block os fd w =
     (let (flags, w) = px_fcntl os fd (px_F_GETFL os) 0 w in
      if 0 = flags AND px_O_NONBLOCK os
      then snd (px_fcntl os fd (px_F_SETFL os) (flags OR px_O_NONBLOCK os) w)
      else w)"

text \<open>\<open>Park\<close> with its \<open>Shared\<close> part, and the pipe behind the two descriptors.\<close>

record Park =
  sh_write_fd :: i32
  sh_pending :: bool
  sh_entered :: bool
  pk_read_fd :: i32
  pipe_bytes :: nat
  pipe_capacity :: nat

definition Park_new :: "('w, 'z) posix_scheme \<Rightarrow> nat \<Rightarrow> 'w \<Rightarrow> (Park, io_error) rresult \<times> 'w" where
  "Park_new os cap w =
     (let ((res, fd0, fd1), w) = px_pipe2 os (px_O_CLOEXEC os) w in
      if 0 \<noteq> res then (Err (last_os_error os w), w)
      else
        let read_fd = fd0; write_fd = fd1; w = set_non_block os fd1 w in
        (Ok \<lparr>sh_write_fd = write_fd, sh_pending = False, sh_entered = False, pk_read_fd = read_fd,
             pipe_bytes = 0, pipe_capacity = cap\<rparr>, w))"

text \<open>\<open>write\<close> of one byte to the non-blocking end: a full pipe gives an error, which is ignored.\<close>

definition pipe_write :: "Park \<Rightarrow> Park" where
  "pipe_write sh =
     (if pipe_bytes sh < pipe_capacity sh then sh\<lparr>pipe_bytes := Suc (pipe_bytes sh)\<rparr> else sh)"

text \<open>\<open>Unpark::unpark\<close>; \<open>alive\<close> says whether \<open>Weak::upgrade\<close> succeeds.\<close>

definition Unpark_unpark :: "bool \<Rightarrow> Park \<Rightarrow> Park" where
  "Unpark_unpark alive sh =
     (if \<not> alive then sh
      else
        let old = sh_pending sh; sh = sh\<lparr>sh_pending := True\<rparr> in
        if old then sh
        else if sh_entered sh then pipe_write sh else sh)"

text \<open>The same method one atomic access at a time.\<close>

datatype upc = UUpgrade | USwap | ULoad | UWrite | UDone

definition unpark_step :: "bool \<Rightarrow> upc \<Rightarrow> Park \<Rightarrow> upc \<times> Park" where
  "unpark_step alive pc sh = (case pc of
       UUpgrade \<Rightarrow> (if alive then USwap else UDone, sh)
     | USwap \<Rightarrow> (if sh_pending sh then UDone else ULoad, sh\<lparr>sh_pending := True\<rparr>)
     | ULoad \<Rightarrow> (if sh_entered sh then UWrite else UDone, sh)
     | UWrite \<Rightarrow> (UDone, pipe_write sh)
     | UDone \<Rightarrow> (UDone, sh))"

text \<open>\<open>Park::enter\<close>: a store and a load, with \<open>env\<close> what other threads do in between.\<close>

definition enter_store :: "Park \<Rightarrow> Park" where
  "enter_store sh = sh\<lparr>sh_entered := True\<rparr>"

definition enter_load :: "Park \<Rightarrow> bool" where
  "enter_load sh \<longleftrightarrow> \<not> sh_pending sh"

definition Park_enter :: "(Park \<Rightarrow> Park) \<Rightarrow> Park \<Rightarrow> bool \<times> Park" where
  "Park_enter env sh = (let sh = env (enter_store sh) in (enter_load sh, sh))"

definition Park_unpark :: "Park \<Rightarrow> i32" where
  "Park_unpark sh = sh_write_fd sh"

definition Park_pending :: "Park \<Rightarrow> bool" where
  "Park_pending sh \<longleftrightarrow> sh_pending sh"

definition clear_unpark :: "Park \<Rightarrow> Park" where
  "clear_unpark sh = sh\<lparr>sh_pending := False\<rparr>"

text \<open>
  \<open>clear_event\<close> reads up to 16 bytes from the blocking end: on an empty pipe the call does not
  return.
\<close>

definition clear_event :: "Park \<Rightarrow> Park outcome" where
  "clear_event sh =
     (if pipe_bytes sh = 0 then Blocks ''read from an empty pipe''
      else Done (sh\<lparr>pipe_bytes := pipe_bytes sh - min 16 (pipe_bytes sh)\<rparr>))"

text \<open>Dropping a \<open>ParkEntered\<close>: two stores, with \<open>env\<close> in between.\<close>

definition leave_store :: "Park \<Rightarrow> Park" where
  "leave_store sh = sh\<lparr>sh_entered := False\<rparr>"

definition ParkEntered_drop :: "(Park \<Rightarrow> Park) \<Rightarrow> Park \<Rightarrow> Park" where
  "ParkEntered_drop env sh = clear_unpark (env (leave_store sh))"

definition Park_as_raw_fd :: "Park \<Rightarrow> i32" where
  "Park_as_raw_fd sh = pk_read_fd sh"

section \<open>Threads and the reactor, interleaved\<close>

text \<open>
  The reactor thread: outside the guard, after the store of \<open>entered\<close>, holding the guard (with
  \<open>allow_wait\<close>), blocked in \<open>io_uring_enter\<close>, returned from it, and between the two stores of the
  guard's drop. \<open>park_poll\<close> is the one-shot poll on the read end: not queued, in the kernel, or
  completed and not yet handled. The reactor only blocks while the poll is in the kernel or completed.
\<close>

datatype rpc = RIdle | REntered | RGuard bool | RBlocked | RReturned | RLeaving

datatype park_poll = PollIdle | PollArmed | PollFired

record psys =
  ps_park :: Park
  ps_rpc :: rpc
  ps_poll :: park_poll
  ps_threads :: "upc list"

inductive unpark_thread_step :: "psys \<Rightarrow> psys \<Rightarrow> bool" where
  thread: "i < length (ps_threads s) \<Longrightarrow> unpark_step True (ps_threads s ! i) (ps_park s) = (pc, sh) \<Longrightarrow>
    unpark_thread_step s (s\<lparr>ps_threads := (ps_threads s)[i := pc], ps_park := sh\<rparr>)"

inductive park_kernel_step :: "psys \<Rightarrow> psys \<Rightarrow> bool" where
  fire: "ps_poll s = PollArmed \<Longrightarrow> 0 < pipe_bytes (ps_park s) \<Longrightarrow>
    park_kernel_step s (s\<lparr>ps_poll := PollFired\<rparr>)"
| wake: "ps_rpc s = RBlocked \<Longrightarrow> ps_poll s = PollFired \<Longrightarrow> park_kernel_step s (s\<lparr>ps_rpc := RReturned\<rparr>)"

inductive park_reactor_step :: "psys \<Rightarrow> psys \<Rightarrow> bool" where
  arm: "ps_rpc s = RIdle \<Longrightarrow> ps_poll s = PollIdle \<Longrightarrow> park_reactor_step s (s\<lparr>ps_poll := PollArmed\<rparr>)"
| handle: "ps_rpc s = RIdle \<Longrightarrow> ps_poll s = PollFired \<Longrightarrow> clear_event (ps_park s) = Done sh \<Longrightarrow>
    park_reactor_step s (s\<lparr>ps_park := sh, ps_poll := PollIdle\<rparr>)"
| enter1: "ps_rpc s = RIdle \<Longrightarrow>
    park_reactor_step s (s\<lparr>ps_park := enter_store (ps_park s), ps_rpc := REntered\<rparr>)"
| enter2: "ps_rpc s = REntered \<Longrightarrow>
    park_reactor_step s (s\<lparr>ps_rpc := RGuard (enter_load (ps_park s))\<rparr>)"
| block: "ps_rpc s = RGuard True \<Longrightarrow> ps_poll s \<noteq> PollIdle \<Longrightarrow> park_reactor_step s (s\<lparr>ps_rpc := RBlocked\<rparr>)"
| no_block: "ps_rpc s = RGuard b \<Longrightarrow> park_reactor_step s (s\<lparr>ps_rpc := RReturned\<rparr>)"
| leave1: "ps_rpc s = RReturned \<Longrightarrow>
    park_reactor_step s (s\<lparr>ps_park := leave_store (ps_park s), ps_rpc := RLeaving\<rparr>)"
| leave2: "ps_rpc s = RLeaving \<Longrightarrow>
    park_reactor_step s (s\<lparr>ps_park := clear_unpark (ps_park s), ps_rpc := RIdle\<rparr>)"

text \<open>Everything that may happen: also new calls of \<open>unpark\<close>, and wake-ups by other completions.\<close>

inductive psys_step :: "psys \<Rightarrow> psys \<Rightarrow> bool" where
  by_thread: "unpark_thread_step s s' \<Longrightarrow> psys_step s s'"
| by_kernel: "park_kernel_step s s' \<Longrightarrow> psys_step s s'"
| by_reactor: "park_reactor_step s s' \<Longrightarrow> psys_step s s'"
| call: "psys_step s (s\<lparr>ps_threads := ps_threads s @ [UUpgrade]\<rparr>)"
| wake_other: "ps_rpc s = RBlocked \<Longrightarrow> psys_step s (s\<lparr>ps_rpc := RReturned\<rparr>)"

text \<open>The steps that can end a wait without a new call: threads under way and the kernel.\<close>

definition wake_step :: "psys \<Rightarrow> psys \<Rightarrow> bool" where
  "wake_step s s' \<longleftrightarrow> unpark_thread_step s s' \<or> park_kernel_step s s'"

definition psys_init :: "Park \<Rightarrow> psys" where
  "psys_init sh = \<lparr>ps_park = sh, ps_rpc = RIdle, ps_poll = PollIdle, ps_threads = []\<rparr>"

definition fresh_park :: "Park \<Rightarrow> bool" where
  "fresh_park sh \<longleftrightarrow> \<not> sh_pending sh \<and> \<not> sh_entered sh \<and> pipe_bytes sh = 0 \<and> 0 < pipe_capacity sh"

definition in_guard :: "rpc \<Rightarrow> bool" where
  "in_guard pc \<longleftrightarrow> (case pc of RIdle \<Rightarrow> False | RLeaving \<Rightarrow> False | _ \<Rightarrow> True)"

definition may_block :: "rpc \<Rightarrow> bool" where
  "may_block pc \<longleftrightarrow> pc = RGuard True \<or> pc = RBlocked"

definition psys_inv :: "psys \<Rightarrow> bool" where
  "psys_inv s \<longleftrightarrow>
     sh_entered (ps_park s) = in_guard (ps_rpc s) \<and> 0 < pipe_capacity (ps_park s) \<and>
     (ps_rpc s = RBlocked \<longrightarrow> ps_poll s \<noteq> PollIdle) \<and>
     (ps_poll s = PollFired \<longrightarrow> 0 < pipe_bytes (ps_park s)) \<and>
     (may_block (ps_rpc s) \<longrightarrow> sh_pending (ps_park s) \<longrightarrow>
        0 < pipe_bytes (ps_park s) \<or> ULoad \<in> set (ps_threads s) \<or> UWrite \<in> set (ps_threads s))"

text \<open>What \<open>fcntl\<close> does with the status flags of descriptors (\<open>flags_of\<close>), as documented.\<close>

definition fcntl_laws :: "('w, 'z) posix_scheme \<Rightarrow> ('w \<Rightarrow> i32 \<Rightarrow> i32) \<Rightarrow> bool" where
  "fcntl_laws os flags_of \<longleftrightarrow>
     (\<forall>fd arg w. fst (px_fcntl os fd (px_F_GETFL os) arg w) = flags_of w fd \<and>
        flags_of (snd (px_fcntl os fd (px_F_GETFL os) arg w)) = flags_of w) \<and>
     (\<forall>fd fl w. flags_of (snd (px_fcntl os fd (px_F_SETFL os) fl w)) = (flags_of w)(fd := fl))"

definition demo_park :: Park where
  "demo_park = \<lparr>sh_write_fd = 5, sh_pending = False, sh_entered = False, pk_read_fd = 4,
     pipe_bytes = 0, pipe_capacity = 65536\<rparr>"

definition demo_posix :: "(i32 \<Rightarrow> i32) posix" where
  "demo_posix =
     \<lparr>os_syscall = (\<lambda>nr args w. (0, w)), os_mmap = (\<lambda>hint len prot fl fd off w. (0, w)),
      os_munmap = (\<lambda>a len w. (0, w)), os_close = (\<lambda>fd w. w), os_errno = (\<lambda>w. 0),
      os_PROT_READ = 1, os_PROT_WRITE = 2, os_MAP_SHARED = 1, os_MAP_POPULATE = 0x8000,
      os_MAP_FAILED = - 1, os_sigset_size = 128, mem_load_u32 = (\<lambda>w a. 0), mem_store_u32 = (\<lambda>a v w. w),
      mem_load_params = (\<lambda>w a. demo_params), mem_store_params = (\<lambda>a v w. w),
      mem_load_sqe = (\<lambda>w a. zeroed_entry),
      mem_load_cqe = (\<lambda>w a. \<lparr>ce_user_data = 0, ce_res = 0, ce_flags = 0\<rparr>),
      px_pipe2 = (\<lambda>fl w. ((0, 4, 5), w(4 := 0, 5 := 1))),
      px_fcntl = (\<lambda>fd cmd arg w. if cmd = 4 then (0, w(fd := arg)) else (w fd, w)),
      px_O_CLOEXEC = 0x80000, px_O_NONBLOCK = 0x800, px_F_GETFL = 3, px_F_SETFL = 4\<rparr>"

section \<open>Invariants of step systems\<close>

locale step_invariant =
  fixes init :: "'s \<Rightarrow> bool" and step :: "'s \<Rightarrow> 's \<Rightarrow> bool" and inv :: "'s \<Rightarrow> bool"
  assumes inv_init: "init s \<Longrightarrow> inv s"
    and inv_step: "inv s \<Longrightarrow> step s s' \<Longrightarrow> inv s'"
begin

lemma inv_steps: "step\<^sup>*\<^sup>* s s' \<Longrightarrow> inv s \<Longrightarrow> inv s'"
  by (induction rule: rtranclp_induct) (auto intro: inv_step)

lemma inv_reachable: "init s \<Longrightarrow> step\<^sup>*\<^sup>* s s' \<Longrightarrow> inv s'"
  by (blast intro: inv_steps inv_init)

end

section \<open>Lemmas\<close>

lemma pipe_write_simps [simp]:
  "sh_pending (pipe_write sh) = sh_pending sh" "sh_entered (pipe_write sh) = sh_entered sh"
  "pipe_capacity (pipe_write sh) = pipe_capacity sh"
  by (simp_all add: pipe_write_def)

lemma pipe_write_pos: "0 < pipe_capacity sh \<Longrightarrow> 0 < pipe_bytes (pipe_write sh)"
  by (simp add: pipe_write_def)

lemma pipe_write_mono: "pipe_bytes sh \<le> pipe_bytes (pipe_write sh)"
  by (simp add: pipe_write_def)

text \<open>A thread that is not interrupted does what the method says.\<close>

lemma unpark_steps_eq:
  "case unpark_step alive UUpgrade sh of (pc1, sh1) \<Rightarrow> case unpark_step alive pc1 sh1 of (pc2, sh2) \<Rightarrow>
     case unpark_step alive pc2 sh2 of (pc3, sh3) \<Rightarrow>
       unpark_step alive pc3 sh3 = (UDone, Unpark_unpark alive sh)"
  by (simp add: unpark_step_def Unpark_unpark_def Let_def)

inductive_cases thread_stepE: "unpark_thread_step s s'"
inductive_cases kernel_stepE: "park_kernel_step s s'"
inductive_cases reactor_stepE: "park_reactor_step s s'"

lemma set_update_other: "x \<in> set xs \<Longrightarrow> xs ! i \<noteq> x \<Longrightarrow> x \<in> set (xs[i := y])"
  by (metis in_set_conv_nth length_list_update nth_list_update_neq)

lemma psys_inv_thread:
  assumes inv: "psys_inv s" and "unpark_thread_step s s'"
  shows "psys_inv s'"
  using assms(2)
proof cases
  case (thread i pc sh)
  let ?ths = "ps_threads s"
  have new: "pc \<in> set (?ths[i := pc])" using thread(2) by (simp add: set_update_memI)
  note keep = set_update_other [of _ ?ths i pc]
  show ?thesis
  proof (cases "?ths ! i")
    case USwap
    with inv thread new keep show ?thesis
      by (auto simp: psys_inv_def unpark_step_def split: if_splits)
  next
    case ULoad
    with inv thread new keep show ?thesis
      by (auto simp: psys_inv_def unpark_step_def may_block_def in_guard_def split: if_splits)
  next
    case UWrite
    with inv thread new keep show ?thesis
      using pipe_write_pos [of "ps_park s"] by (auto simp: psys_inv_def unpark_step_def)
  next
    case UUpgrade
    with inv thread new keep show ?thesis by (auto simp: psys_inv_def unpark_step_def)
  next
    case UDone
    with inv thread new keep show ?thesis by (auto simp: psys_inv_def unpark_step_def)
  qed
qed

lemma psys_inv_kernel: "psys_inv s \<Longrightarrow> park_kernel_step s s' \<Longrightarrow> psys_inv s'"
  by (erule kernel_stepE) (auto simp: psys_inv_def may_block_def in_guard_def)

lemma psys_inv_reactor: "psys_inv s \<Longrightarrow> park_reactor_step s s' \<Longrightarrow> psys_inv s'"
  by (erule reactor_stepE) (auto simp: psys_inv_def may_block_def in_guard_def enter_store_def
      enter_load_def leave_store_def clear_unpark_def clear_event_def split: if_splits)

lemma psys_inv_step: "psys_inv s \<Longrightarrow> psys_step s s' \<Longrightarrow> psys_inv s'"
proof (erule psys_step.cases, goal_cases)
  case (1 a b)
  then show ?case using psys_inv_thread by blast
next
  case (2 a b)
  then show ?case using psys_inv_kernel by blast
next
  case (3 a b)
  then show ?case using psys_inv_reactor by blast
qed (auto simp: psys_inv_def may_block_def in_guard_def)

interpretation ps: step_invariant "\<lambda>s. \<exists>sh. fresh_park sh \<and> s = psys_init sh" psys_step psys_inv
proof unfold_locales
  show "psys_inv s" if "\<exists>sh. fresh_park sh \<and> s = psys_init sh" for s
    using that by (auto simp: psys_inv_def psys_init_def fresh_park_def in_guard_def may_block_def)
qed (rule psys_inv_step)

section \<open>Progress of a wake-up\<close>

lemma wake_from_bytes:
  assumes "ps_rpc s = RBlocked" "ps_poll s \<noteq> PollIdle" "0 < pipe_bytes (ps_park s)"
  shows "\<exists>s'. wake_step\<^sup>*\<^sup>* s s' \<and> ps_rpc s' = RReturned"
proof -
  have w: "wake_step t (t\<lparr>ps_rpc := RReturned\<rparr>)" if "ps_rpc t = RBlocked" "ps_poll t = PollFired" for t
    using wake [OF that] by (simp add: wake_step_def)
  show ?thesis
  proof (cases "ps_poll s")
    case PollArmed
    let ?s = "s\<lparr>ps_poll := PollFired\<rparr>"
    have "wake_step s ?s" using fire [OF PollArmed assms(3)] by (simp add: wake_step_def)
    moreover have "wake_step ?s (?s\<lparr>ps_rpc := RReturned\<rparr>)" using assms(1) by (intro w) simp_all
    ultimately show ?thesis by (intro exI [of _ "?s\<lparr>ps_rpc := RReturned\<rparr>"]) simp
  next
    case PollFired
    with w [of s] assms(1) show ?thesis by (intro exI [of _ "s\<lparr>ps_rpc := RReturned\<rparr>"]) auto
  qed (use assms in simp)
qed

lemma wake_from_write:
  assumes "psys_inv s" "ps_rpc s = RBlocked" "UWrite \<in> set (ps_threads s)"
  shows "\<exists>s'. wake_step\<^sup>*\<^sup>* s s' \<and> ps_rpc s' = RReturned"
proof -
  obtain i where i: "i < length (ps_threads s)" "ps_threads s ! i = UWrite"
    using assms(3) by (auto simp: in_set_conv_nth)
  let ?s = "s\<lparr>ps_threads := (ps_threads s)[i := UDone], ps_park := pipe_write (ps_park s)\<rparr>"
  have st: "wake_step s ?s" using thread [OF i(1)] i(2) by (simp add: wake_step_def unpark_step_def)
  have "0 < pipe_bytes (ps_park ?s)" using assms(1) by (simp add: psys_inv_def pipe_write_pos)
  then obtain s' where "wake_step\<^sup>*\<^sup>* ?s s'" "ps_rpc s' = RReturned"
    using wake_from_bytes [of ?s] assms by (auto simp: psys_inv_def)
  then show ?thesis using st by (blast intro: converse_rtranclp_into_rtranclp)
qed

lemma wake_from_load:
  assumes "psys_inv s" "ps_rpc s = RBlocked" "ULoad \<in> set (ps_threads s)"
  shows "\<exists>s'. wake_step\<^sup>*\<^sup>* s s' \<and> ps_rpc s' = RReturned"
proof -
  obtain i where i: "i < length (ps_threads s)" "ps_threads s ! i = ULoad"
    using assms(3) by (auto simp: in_set_conv_nth)
  let ?s = "s\<lparr>ps_threads := (ps_threads s)[i := UWrite], ps_park := ps_park s\<rparr>"
  have "sh_entered (ps_park s)" using assms by (simp add: psys_inv_def in_guard_def)
  then have st: "unpark_thread_step s ?s" using thread [OF i(1)] i(2) by (simp add: unpark_step_def)
  have "psys_inv ?s" by (rule psys_inv_thread [OF assms(1) st])
  moreover have "UWrite \<in> set (ps_threads ?s)" using i by (simp add: set_update_memI)
  ultimately obtain s' where "wake_step\<^sup>*\<^sup>* ?s s'" "ps_rpc s' = RReturned"
    using wake_from_write [of ?s] assms(2) by auto
  moreover have "wake_step s ?s" using st by (simp add: wake_step_def)
  ultimately show ?thesis by (blast intro: converse_rtranclp_into_rtranclp)
qed

section \<open>Properties\<close>

text \<open>
  No wake-up is lost. Along every interleaving of any number of \<open>unpark\<close> calls with the reactor
  and the kernel, when the reactor is blocked in \<open>io_uring_enter\<close> although some \<open>unpark\<close> has set the
  pending flag since the reactor last cleared it, the pipe is readable or a thread is on its way to
  writing to it, and steps of the calls already under way and of the kernel alone bring the reactor
  back from the system call.
\<close>

theorem unpark_not_lost:
  assumes "fresh_park sh" "psys_step\<^sup>*\<^sup>* (psys_init sh) s"
    and "ps_rpc s = RBlocked" "sh_pending (ps_park s)"
  shows "(0 < pipe_bytes (ps_park s) \<or> ULoad \<in> set (ps_threads s) \<or> UWrite \<in> set (ps_threads s)) \<and>
    (\<exists>s'. wake_step\<^sup>*\<^sup>* s s' \<and> ps_rpc s' = RReturned)"
proof -
  have inv: "psys_inv s" using ps.inv_reachable [OF _ assms(2)] assms(1) by blast
  then have src: "0 < pipe_bytes (ps_park s) \<or> ULoad \<in> set (ps_threads s) \<or> UWrite \<in> set (ps_threads s)"
    and poll: "ps_poll s \<noteq> PollIdle" using assms(3,4) by (auto simp: psys_inv_def may_block_def)
  from src poll show ?thesis
    using wake_from_bytes [OF assms(3) poll] wake_from_write [OF inv assms(3)] wake_from_load [OF inv assms(3)] by auto
qed

text \<open>The reactor arms its poll, enters and blocks; then a thread calls \<open>unpark\<close> up to the write.\<close>

lemma demo_blocked_run:
  "\<exists>s. psys_step\<^sup>*\<^sup>* (psys_init demo_park) s \<and> ps_rpc s = RBlocked \<and> sh_pending (ps_park s)"
proof -
  let ?s0 = "psys_init demo_park"
  let ?s1 = "?s0\<lparr>ps_poll := PollArmed\<rparr>"
  let ?s2 = "?s1\<lparr>ps_park := enter_store (ps_park ?s1), ps_rpc := REntered\<rparr>"
  let ?s3 = "?s2\<lparr>ps_rpc := RGuard (enter_load (ps_park ?s2))\<rparr>"
  let ?s4 = "?s3\<lparr>ps_rpc := RBlocked\<rparr>"
  let ?s5 = "?s4\<lparr>ps_threads := ps_threads ?s4 @ [UUpgrade]\<rparr>"
  let ?s6 = "?s5\<lparr>ps_threads := (ps_threads ?s5)[0 := USwap], ps_park := ps_park ?s5\<rparr>"
  let ?s7 = "?s6\<lparr>ps_threads := (ps_threads ?s6)[0 := ULoad], ps_park := (ps_park ?s6)\<lparr>sh_pending := True\<rparr>\<rparr>"
  note ds = psys_init_def demo_park_def enter_store_def enter_load_def unpark_step_def
  have "psys_step ?s0 ?s1" by (intro by_reactor arm) (simp_all add: ds)
  moreover have "psys_step ?s1 ?s2" by (intro by_reactor enter1) (simp add: ds)
  moreover have "psys_step ?s2 ?s3" by (intro by_reactor enter2) simp
  moreover have "psys_step ?s3 ?s4" by (intro by_reactor block) (simp_all add: ds)
  moreover have "psys_step ?s4 ?s5" by (rule call)
  moreover have "psys_step ?s5 ?s6" by (intro by_thread thread) (simp_all add: ds)
  moreover have "psys_step ?s6 ?s7" by (intro by_thread thread) (simp_all add: ds)
  ultimately have "psys_step\<^sup>*\<^sup>* ?s0 ?s7" by (meson converse_rtranclp_into_rtranclp rtranclp.rtrancl_refl)
  then show ?thesis by (intro exI [of _ ?s7]) simp
qed

lemma demo_park_fresh: "fresh_park demo_park"
  by (simp add: fresh_park_def demo_park_def)

theorem unpark_not_lost_witness:
  "\<exists>s s'. psys_step\<^sup>*\<^sup>* (psys_init demo_park) s \<and> ps_rpc s = RBlocked \<and> sh_pending (ps_park s) \<and>
     wake_step\<^sup>*\<^sup>* s s' \<and> ps_rpc s' = RReturned"
  using demo_blocked_run unpark_not_lost [OF demo_park_fresh] by blast

text \<open>
  Handling a completed park poll never blocks: the read end of the pipe is a blocking descriptor,
  but whenever the poll has completed the pipe holds a byte, in every interleaving, so the read of
  \<open>clear_event\<close> returns.
\<close>

theorem clear_event_returns:
  assumes "fresh_park sh" "psys_step\<^sup>*\<^sup>* (psys_init sh) s" "ps_poll s = PollFired"
  shows "\<exists>sh'. clear_event (ps_park s) = Done sh' \<and> pipe_bytes sh' < pipe_bytes (ps_park s)"
proof -
  have "psys_inv s" using ps.inv_reachable [OF _ assms(2)] assms(1) by blast
  then show ?thesis using assms(3) by (simp add: psys_inv_def clear_event_def)
qed

text \<open>The run of the first example, continued until the poll has completed.\<close>

lemma demo_fired_run: "\<exists>s. psys_step\<^sup>*\<^sup>* (psys_init demo_park) s \<and> ps_poll s = PollFired"
proof -
  let ?s0 = "(psys_init demo_park)"
  let ?s1 = "?s0\<lparr>ps_poll := PollArmed\<rparr>"
  let ?s2 = "?s1\<lparr>ps_park := enter_store (ps_park ?s1), ps_rpc := REntered\<rparr>"
  let ?s3 = "?s2\<lparr>ps_threads := ps_threads ?s2 @ [UUpgrade]\<rparr>"
  let ?s4 = "?s3\<lparr>ps_threads := (ps_threads ?s3)[0 := USwap], ps_park := ps_park ?s3\<rparr>"
  let ?s5 = "?s4\<lparr>ps_threads := (ps_threads ?s4)[0 := ULoad], ps_park := (ps_park ?s4)\<lparr>sh_pending := True\<rparr>\<rparr>"
  let ?s6 = "?s5\<lparr>ps_threads := (ps_threads ?s5)[0 := UWrite], ps_park := ps_park ?s5\<rparr>"
  let ?s7 = "?s6\<lparr>ps_threads := (ps_threads ?s6)[0 := UDone], ps_park := pipe_write (ps_park ?s6)\<rparr>"
  let ?s8 = "?s7\<lparr>ps_poll := PollFired\<rparr>"
  note ds = psys_init_def demo_park_def enter_store_def unpark_step_def pipe_write_def
  have "psys_step ?s0 ?s1" by (intro by_reactor arm) (simp_all add: ds)
  moreover have "psys_step ?s1 ?s2" by (intro by_reactor enter1) (simp add: ds)
  moreover have "psys_step ?s2 ?s3" by (rule call)
  moreover have "psys_step ?s3 ?s4" by (intro by_thread thread) (simp_all add: ds)
  moreover have "psys_step ?s4 ?s5" by (intro by_thread thread) (simp_all add: ds)
  moreover have "psys_step ?s5 ?s6" by (intro by_thread thread) (simp_all add: ds)
  moreover have "psys_step ?s6 ?s7" by (intro by_thread thread) (simp_all add: ds)
  moreover have "psys_step ?s7 ?s8" by (intro by_kernel fire) (simp_all add: ds)
  ultimately have "psys_step\<^sup>*\<^sup>* ?s0 ?s8" by (meson converse_rtranclp_into_rtranclp rtranclp.rtrancl_refl)
  then show ?thesis by (intro exI [of _ ?s8]) simp
qed

theorem clear_event_returns_witness:
  "\<exists>s sh'. psys_step\<^sup>*\<^sup>* (psys_init demo_park) s \<and> ps_poll s = PollFired \<and> clear_event (ps_park s) = Done sh'"
  using demo_fired_run clear_event_returns [OF demo_park_fresh] by blast

text \<open>
  \<open>set_non_block\<close> adds \<open>O_NONBLOCK\<close> to the status flags of its descriptor, keeps the other flags
  and touches no other descriptor; \<open>Park::new\<close> applies it to the write end of the new pipe only, so
  that \<open>unpark\<close> never blocks while the read end keeps the mode \<open>pipe2\<close> gave it.
\<close>

theorem park_new_write_end_non_blocking:
  assumes "fcntl_laws os flags_of" "px_O_NONBLOCK os \<noteq> 0"
    and "px_pipe2 os (px_O_CLOEXEC os) w = ((0, r, wr), w1)"
  shows "\<exists>pk w'. Park_new os cap w = (Ok pk, w') \<and> sh_write_fd pk = wr \<and> pk_read_fd pk = r \<and>
    flags_of w' wr AND px_O_NONBLOCK os \<noteq> 0 \<and>
    flags_of w' wr AND NOT (px_O_NONBLOCK os) = flags_of w1 wr AND NOT (px_O_NONBLOCK os) \<and>
    (\<forall>fd. fd \<noteq> wr \<longrightarrow> flags_of w' fd = flags_of w1 fd)"
proof -
  have nb: "flags_of (set_non_block os wr w1) = (if flags_of w1 wr AND px_O_NONBLOCK os = 0
      then (flags_of w1)(wr := flags_of w1 wr OR px_O_NONBLOCK os) else flags_of w1)"
    using assms(1) unfolding fcntl_laws_def set_non_block_def by (simp add: case_prod_unfold Let_def)
  have a: "(x OR y) AND y = y" "(x OR y) AND NOT y = x AND NOT y" for x y :: i32
    by (auto intro!: bit_word_eqI simp: bit_simps)
  obtain pk where "Park_new os cap w = (Ok pk, set_non_block os wr w1)" "sh_write_fd pk = wr" "pk_read_fd pk = r"
    using assms(3) by (simp add: Park_new_def)
  with nb a assms(2) show ?thesis by auto
qed

lemma demo_fcntl_laws: "fcntl_laws demo_posix (\<lambda>w. w)"
  by (simp add: fcntl_laws_def demo_posix_def)

theorem park_new_write_end_non_blocking_witness:
  "\<exists>pk w'. Park_new demo_posix 65536 (\<lambda>_. 0) = (Ok pk, w') \<and> w' 5 AND 0x800 \<noteq> 0 \<and> w' 4 = 0"
proof -
  have c: "px_O_NONBLOCK demo_posix \<noteq> 0"
    "px_pipe2 demo_posix (px_O_CLOEXEC demo_posix) (\<lambda>_. 0) = ((0, 4, 5), (\<lambda>_. 0)(4 := 0, 5 := 1))"
    by (simp_all add: demo_posix_def)
  have "px_O_NONBLOCK demo_posix = 0x800" by (simp add: demo_posix_def)
  with park_new_write_end_non_blocking [OF demo_fcntl_laws c, of 65536] show ?thesis by auto
qed

end
