(* ===== verification/Park_Weak.thy ===== *)
theory Park_Weak
  imports Unpark Store_Buffer
begin

text \<open>
  The park flags with the memory orderings the source gives their stores. The reactor thread stores to
  \<open>entered\<close> and \<open>pending\<close> through a buffer (\<open>Store_Buffer\<close>); the calls of \<open>unpark\<close> access memory
  directly: a swap is performed in memory, and \<open>unpark\<close> makes no other store. System calls are not taken to drain the buffer.
  The state is that of the sequentially consistent model together with the buffer and a flag \<open>wk_owed\<close>,
  which records that some \<open>unpark\<close> took effect after the reactor last finished leaving a park, so that the
  next park must not sleep through it.
\<close>

section \<open>Stores of the reactor\<close>

datatype flag_store = StEntered bool | StPending bool

datatype flag = FlagEntered | FlagPending

primrec do_store :: "flag_store \<Rightarrow> Park \<Rightarrow> Park" where
  "do_store (StEntered b) sh = sh\<lparr>sh_entered := b\<rparr>"
| "do_store (StPending b) sh = sh\<lparr>sh_pending := b\<rparr>"

primrec store_flag :: "flag_store \<Rightarrow> flag" where
  "store_flag (StEntered b) = FlagEntered"
| "store_flag (StPending b) = FlagPending"

text \<open>The orderings of the stores in \<open>enter\<close>, in the guard's drop and in \<open>clear_unpark\<close>, and those of the source.\<close>

record park_orders =
  po_enter :: ordering
  po_leave :: ordering
  po_clear :: ordering

definition source_orders :: park_orders where
  "source_orders = \<lparr>po_enter = SeqCst, po_leave = Relaxed, po_clear = Relaxed\<rparr>"

section \<open>Steps\<close>

record wsys =
  wk_sys :: psys
  wk_buf :: "(ordering \<times> flag_store) list"
  wk_owed :: bool

definition wk_store :: "ordering \<Rightarrow> flag_store \<Rightarrow> rpc \<Rightarrow> wsys \<Rightarrow> wsys option" where
  "wk_store ord st pc t = map_option
     (\<lambda>(buf, sh). t\<lparr>wk_buf := buf, wk_sys := (wk_sys t)\<lparr>ps_park := sh, ps_rpc := pc\<rparr>\<rparr>)
     (buffer_store do_store ord st (wk_buf t, ps_park (wk_sys t)))"

inductive wk_reactor_step :: "park_orders \<Rightarrow> wsys \<Rightarrow> wsys \<Rightarrow> bool" for ords where
  wk_arm: "ps_rpc (wk_sys t) = RIdle \<Longrightarrow> ps_poll (wk_sys t) = PollIdle \<Longrightarrow>
    wk_reactor_step ords t (t\<lparr>wk_sys := (wk_sys t)\<lparr>ps_poll := PollArmed\<rparr>\<rparr>)"
| wk_handle: "ps_rpc (wk_sys t) = RIdle \<Longrightarrow> ps_poll (wk_sys t) = PollFired \<Longrightarrow> clear_event (ps_park (wk_sys t)) = Done sh \<Longrightarrow>
    wk_reactor_step ords t (t\<lparr>wk_sys := (wk_sys t)\<lparr>ps_park := sh, ps_poll := PollIdle\<rparr>\<rparr>)"
| wk_enter1: "ps_rpc (wk_sys t) = RIdle \<Longrightarrow> wk_store (po_enter ords) (StEntered True) REntered t = Some t' \<Longrightarrow>
    wk_reactor_step ords t t'"
| wk_enter2: "ps_rpc (wk_sys t) = REntered \<Longrightarrow> wk_reactor_step ords t
    (t\<lparr>wk_sys := (wk_sys t)\<lparr>ps_rpc := RGuard (enter_load (buffer_view do_store (wk_buf t) (ps_park (wk_sys t))))\<rparr>\<rparr>)"
| wk_block: "ps_rpc (wk_sys t) = RGuard True \<Longrightarrow> ps_poll (wk_sys t) \<noteq> PollIdle \<Longrightarrow>
    wk_reactor_step ords t (t\<lparr>wk_sys := (wk_sys t)\<lparr>ps_rpc := RBlocked\<rparr>\<rparr>)"
| wk_no_block: "ps_rpc (wk_sys t) = RGuard b \<Longrightarrow> wk_reactor_step ords t (t\<lparr>wk_sys := (wk_sys t)\<lparr>ps_rpc := RReturned\<rparr>\<rparr>)"
| wk_leave1: "ps_rpc (wk_sys t) = RReturned \<Longrightarrow> wk_store (po_leave ords) (StEntered False) RLeaving t = Some t' \<Longrightarrow>
    wk_reactor_step ords t t'"
| wk_leave2: "ps_rpc (wk_sys t) = RLeaving \<Longrightarrow> wk_store (po_clear ords) (StPending False) RIdle t = Some t' \<Longrightarrow>
    wk_reactor_step ords t (t'\<lparr>wk_owed := False\<rparr>)"

inductive wk_step :: "park_orders \<Rightarrow> wsys \<Rightarrow> wsys \<Rightarrow> bool" for ords where
  wk_thread: "i < length (ps_threads (wk_sys t)) \<Longrightarrow> ps_threads (wk_sys t) ! i = pc \<Longrightarrow>
    unpark_step True pc (ps_park (wk_sys t)) = (pc', sh) \<Longrightarrow>
    wk_step ords t (t\<lparr>wk_sys := (wk_sys t)\<lparr>ps_threads := (ps_threads (wk_sys t))[i := pc'], ps_park := sh\<rparr>,
      wk_owed := (wk_owed t \<or> pc = USwap)\<rparr>)"
| wk_kernel: "park_kernel_step (wk_sys t) s' \<Longrightarrow> wk_step ords t (t\<lparr>wk_sys := s'\<rparr>)"
| wk_reactor: "wk_reactor_step ords t t' \<Longrightarrow> wk_step ords t t'"
| wk_drain: "can_drain store_flag (wk_buf t) i \<Longrightarrow> drain_at do_store i (wk_buf t, ps_park (wk_sys t)) = (buf, sh) \<Longrightarrow>
    wk_step ords t (t\<lparr>wk_buf := buf, wk_sys := (wk_sys t)\<lparr>ps_park := sh\<rparr>\<rparr>)"
| wk_call: "wk_step ords t (t\<lparr>wk_sys := (wk_sys t)\<lparr>ps_threads := ps_threads (wk_sys t) @ [UUpgrade]\<rparr>\<rparr>)"
| wk_wake_other: "ps_rpc (wk_sys t) = RBlocked \<Longrightarrow> wk_step ords t (t\<lparr>wk_sys := (wk_sys t)\<lparr>ps_rpc := RReturned\<rparr>\<rparr>)"

definition wk_init :: "Park \<Rightarrow> wsys" where
  "wk_init sh = \<lparr>wk_sys = psys_init sh, wk_buf = [], wk_owed = False\<rparr>"

section \<open>Invariants\<close>

text \<open>
  Inside the guard the buffer is empty, so the flags other threads see are those the reactor sees.
  When also the store of \<open>clear_unpark\<close> is sequentially consistent, an \<open>unpark\<close> that is owed is
  visible in memory, and nothing in the buffer will overwrite it.
\<close>

definition wk_inv :: "wsys \<Rightarrow> bool" where
  "wk_inv t \<longleftrightarrow> (let s = wk_sys t in
     (in_guard (ps_rpc s) \<longrightarrow> wk_buf t = [] \<and> sh_entered (ps_park s)) \<and> 0 < pipe_capacity (ps_park s) \<and>
     (ps_rpc s = RBlocked \<longrightarrow> ps_poll s \<noteq> PollIdle) \<and>
     (ps_poll s = PollFired \<longrightarrow> 0 < pipe_bytes (ps_park s)) \<and>
     (may_block (ps_rpc s) \<longrightarrow> sh_pending (ps_park s) \<longrightarrow>
        0 < pipe_bytes (ps_park s) \<or> ULoad \<in> set (ps_threads s) \<or> UWrite \<in> set (ps_threads s)))"

definition owed_inv :: "wsys \<Rightarrow> bool" where
  "owed_inv t \<longleftrightarrow> (wk_owed t \<longrightarrow> sh_pending (ps_park (wk_sys t))) \<and> (\<forall>x \<in> set (wk_buf t). store_flag (snd x) = FlagEntered)"

text \<open>The states of an example run: the flags in memory, the program counter, the threads, the buffer.\<close>

definition demo_wsys :: "bool \<Rightarrow> bool \<Rightarrow> rpc \<Rightarrow> upc list \<Rightarrow> (ordering \<times> flag_store) list \<Rightarrow> bool \<Rightarrow> wsys" where
  "demo_wsys pend ent pc ths buf owed =
     \<lparr>wk_sys = \<lparr>ps_park = demo_park\<lparr>sh_pending := pend, sh_entered := ent\<rparr>, ps_rpc = pc, ps_poll = PollArmed, ps_threads = ths\<rparr>,
      wk_buf = buf, wk_owed = owed\<rparr>"

section \<open>Lemmas\<close>

interpretation flags: store_buffer do_store store_flag
proof unfold_locales
  show "do_store a (do_store b m) = do_store b (do_store a m)" if "store_flag a \<noteq> store_flag b" for a b m
    using that by (cases a; cases b) simp_all
qed

lemma do_store_pipe [simp]:
  "pipe_bytes (do_store st sh) = pipe_bytes sh" "pipe_capacity (do_store st sh) = pipe_capacity sh"
  "store_flag st = FlagEntered \<Longrightarrow> sh_pending (do_store st sh) = sh_pending sh"
  by (cases st; simp)+

lemma wk_store_cases:
  assumes "wk_store ord st pc t = Some t'"
  shows "ps_rpc (wk_sys t') = pc \<and> ps_poll (wk_sys t') = ps_poll (wk_sys t) \<and> ps_threads (wk_sys t') = ps_threads (wk_sys t) \<and>
    wk_owed t' = wk_owed t \<and>
    (if ord = SeqCst then wk_buf t = [] \<and> wk_buf t' = [] \<and> ps_park (wk_sys t') = do_store st (ps_park (wk_sys t))
     else wk_buf t' = wk_buf t @ [(ord, st)] \<and> ps_park (wk_sys t') = ps_park (wk_sys t))"
  using assms by (auto simp: wk_store_def buffer_store_def split: if_splits)

lemma wk_inv_thread:
  assumes inv: "wk_inv t" and i: "i < length (ps_threads (wk_sys t))"
    and st: "unpark_step True (ps_threads (wk_sys t) ! i) (ps_park (wk_sys t)) = (pc', sh)"
  shows "wk_inv (t\<lparr>wk_sys := (wk_sys t)\<lparr>ps_threads := (ps_threads (wk_sys t))[i := pc'], ps_park := sh\<rparr>, wk_owed := w\<rparr>)"
proof -
  let ?ths = "ps_threads (wk_sys t)"
  have new: "pc' \<in> set (?ths[i := pc'])" using i by (simp add: set_update_memI)
  note keep = set_update_other [of _ ?ths i pc']
  show ?thesis
  proof (cases "?ths ! i")
    case UWrite
    with inv st new keep show ?thesis
      using pipe_write_pos [of "ps_park (wk_sys t)"] by (auto simp: wk_inv_def unpark_step_def Let_def)
  next
    case ULoad
    with inv st new keep show ?thesis
      by (auto simp: wk_inv_def unpark_step_def may_block_def in_guard_def Let_def split: if_splits)
  qed (use inv st new keep in \<open>auto simp: wk_inv_def unpark_step_def Let_def split: if_splits\<close>)
qed

lemma wk_inv_reactor:
  assumes "wk_inv t" "wk_reactor_step ords t t'" "po_enter ords = SeqCst"
  shows "wk_inv t'"
  using assms(2)
proof cases
  case (wk_enter1)
  with assms(1,3) wk_store_cases [OF wk_enter1(2)] show ?thesis by (auto simp: wk_inv_def in_guard_def may_block_def Let_def)
next
  case (wk_leave1)
  with assms(1,3) wk_store_cases [OF wk_leave1(2)] show ?thesis
    by (auto simp: wk_inv_def in_guard_def may_block_def Let_def split: if_splits)
next
  case (wk_leave2 t1)
  with assms(1,3) wk_store_cases [OF wk_leave2(3)] show ?thesis
    by (auto simp: wk_inv_def in_guard_def may_block_def Let_def split: if_splits)
qed (use assms(1) in \<open>auto simp: wk_inv_def in_guard_def may_block_def enter_load_def clear_event_def Let_def split: if_splits\<close>)

lemma wk_inv_step:
  assumes "po_enter ords = SeqCst" "wk_inv t" "wk_step ords t t'"
  shows "wk_inv t'"
  using assms(3)
proof cases
  case (wk_thread i pc pc' sh)
  with wk_inv_thread [OF assms(2) wk_thread(2)] show ?thesis by simp
next
  case (wk_kernel s')
  from wk_kernel(2) show ?thesis unfolding wk_kernel(1)
    by cases (use assms(2) in \<open>simp_all add: wk_inv_def may_block_def in_guard_def Let_def\<close>)
next
  case (wk_drain i buf sh)
  have "wk_buf t \<noteq> []" using wk_drain(2) by (auto simp: can_drain_def)
  with wk_drain assms(2) show ?thesis by (auto simp: wk_inv_def drain_at_def Let_def may_block_def in_guard_def split: rpc.splits)
next
  case wk_reactor
  from wk_inv_reactor [OF assms(2) wk_reactor assms(1)] show ?thesis .
qed (use assms(2) in \<open>auto simp: wk_inv_def may_block_def in_guard_def Let_def\<close>)

interpretation wk: step_invariant "\<lambda>t. \<exists>sh. fresh_park sh \<and> t = wk_init sh \<and> po_enter ords = SeqCst" "wk_step ords"
  "\<lambda>t. wk_inv t \<and> po_enter ords = SeqCst" for ords
proof unfold_locales
  show "wk_inv t \<and> po_enter ords = SeqCst" if "\<exists>sh. fresh_park sh \<and> t = wk_init sh \<and> po_enter ords = SeqCst" for t
    using that by (auto simp: wk_inv_def wk_init_def psys_init_def fresh_park_def in_guard_def may_block_def)
qed (blast intro: wk_inv_step)

lemma owed_inv_step:
  assumes "po_clear ords = SeqCst" "po_enter ords = SeqCst" "owed_inv t" "wk_step ords t t'"
  shows "owed_inv t'"
  using assms(4)
proof cases
  case (wk_thread i pc pc' sh)
  with assms(3) show ?thesis by (auto simp: owed_inv_def unpark_step_def pipe_write_def split: upc.splits if_splits)
next
  case (wk_kernel s')
  from wk_kernel(2) show ?thesis unfolding wk_kernel(1) by cases (use assms(3) in \<open>simp_all add: owed_inv_def\<close>)
next
  case (wk_drain i buf sh)
  have "snd (wk_buf t ! i) \<in> snd ` set (wk_buf t)" using wk_drain(2) by (auto simp: can_drain_def)
  then have "store_flag (snd (wk_buf t ! i)) = FlagEntered" using assms(3) by (auto simp: owed_inv_def)
  with wk_drain assms(3) drain_at_buffer [OF wk_drain(3)] show ?thesis by (auto simp: owed_inv_def drain_at_def)
next
  case wk_reactor
  then show ?thesis
  proof cases
    case wk_enter1
    with assms wk_store_cases [OF wk_enter1(2)] show ?thesis by (auto simp: owed_inv_def)
  next
    case wk_leave1
    with assms wk_store_cases [OF wk_leave1(2)] show ?thesis by (auto simp: owed_inv_def split: if_splits)
  next
    case (wk_leave2 t1)
    with assms wk_store_cases [OF wk_leave2(3)] show ?thesis by (auto simp: owed_inv_def)
  qed (use assms(3) in \<open>auto simp: owed_inv_def clear_event_def split: if_splits\<close>)
qed (use assms(3) in \<open>auto simp: owed_inv_def\<close>)

interpretation owed: step_invariant "\<lambda>t. \<exists>sh. t = wk_init sh \<and> po_clear ords = SeqCst \<and> po_enter ords = SeqCst" "wk_step ords"
  "\<lambda>t. owed_inv t \<and> po_clear ords = SeqCst \<and> po_enter ords = SeqCst" for ords
proof unfold_locales
  show "owed_inv t \<and> po_clear ords = SeqCst \<and> po_enter ords = SeqCst"
    if "\<exists>sh. t = wk_init sh \<and> po_clear ords = SeqCst \<and> po_enter ords = SeqCst" for t
    using that by (auto simp: owed_inv_def wk_init_def)
qed (blast intro: owed_inv_step)

text \<open>A blocked reactor with the flag set is woken, as in the sequentially consistent model.\<close>

lemma blocked_wakes:
  assumes "wk_inv t" "ps_rpc (wk_sys t) = RBlocked" "sh_pending (ps_park (wk_sys t))"
  shows "\<exists>s'. wake_step\<^sup>*\<^sup>* (wk_sys t) s' \<and> ps_rpc s' = RReturned"
proof -
  let ?s = "wk_sys t"
  have inv: "psys_inv ?s" using assms(1,2) by (simp add: wk_inv_def psys_inv_def in_guard_def Let_def)
  have "0 < pipe_bytes (ps_park ?s) \<or> ULoad \<in> set (ps_threads ?s) \<or> UWrite \<in> set (ps_threads ?s)" "ps_poll ?s \<noteq> PollIdle"
    using assms by (auto simp: wk_inv_def may_block_def Let_def)
  then show ?thesis
    using wake_from_bytes [OF assms(2)] wake_from_write [OF inv assms(2)] wake_from_load [OF inv assms(2)] by auto
qed

text \<open>With sequentially consistent stores everywhere the buffer stays empty.\<close>

lemma wk_store_SeqCst:
  "wk_store SeqCst st pc t = (if wk_buf t = [] then
     Some (t\<lparr>wk_buf := [], wk_sys := (wk_sys t)\<lparr>ps_park := do_store st (ps_park (wk_sys t)), ps_rpc := pc\<rparr>\<rparr>) else None)"
  by (simp add: wk_store_def buffer_store_def)

lemma sc_forward:
  assumes "psys_step s s'" and ords: "po_enter ords = SeqCst" "po_leave ords = SeqCst" "po_clear ords = SeqCst"
  shows "\<exists>w'. wk_step ords \<lparr>wk_sys = s, wk_buf = [], wk_owed = w\<rparr> \<lparr>wk_sys = s', wk_buf = [], wk_owed = w'\<rparr>"
  using assms(1)
proof cases
  case by_thread
  then show ?thesis
  proof cases
    case (thread i pc sh)
    with wk_thread [of i "\<lparr>wk_sys = s, wk_buf = [], wk_owed = w\<rparr>" _ pc sh ords] show ?thesis by auto
  qed
next
  case by_kernel
  with wk_kernel [of "\<lparr>wk_sys = s, wk_buf = [], wk_owed = w\<rparr>" s' ords] show ?thesis by auto
next
  case by_reactor
  let ?t = "\<lparr>wk_sys = s, wk_buf = [], wk_owed = w\<rparr>"
  from by_reactor have "\<exists>w'. wk_reactor_step ords ?t \<lparr>wk_sys = s', wk_buf = [], wk_owed = w'\<rparr>"
  proof cases
    case arm
    with wk_arm [of ?t ords] show ?thesis by auto
  next
    case (handle sh)
    with wk_handle [of ?t sh ords] show ?thesis by auto
  next
    case enter1
    with wk_enter1 [of ?t ords] ords show ?thesis by (auto simp: wk_store_SeqCst enter_store_def)
  next
    case enter2
    with wk_enter2 [of ?t ords] show ?thesis by auto
  next
    case block
    with wk_block [of ?t ords] show ?thesis by auto
  next
    case (no_block b)
    with wk_no_block [of ?t b ords] show ?thesis by auto
  next
    case leave1
    with wk_leave1 [of ?t ords] ords show ?thesis by (auto simp: wk_store_SeqCst leave_store_def)
  next
    case leave2
    with wk_leave2 [of ?t ords] ords show ?thesis by (auto simp: wk_store_SeqCst clear_unpark_def)
  qed
  then show ?thesis by (blast intro: wk_reactor)
next
  case call
  with wk_call [of ords "\<lparr>wk_sys = s, wk_buf = [], wk_owed = w\<rparr>"] show ?thesis by auto
next
  case wake_other
  with wk_wake_other [of "\<lparr>wk_sys = s, wk_buf = [], wk_owed = w\<rparr>" ords] show ?thesis by auto
qed

lemma sc_backward:
  assumes "wk_step ords t t'" and "wk_buf t = []" and ords: "po_enter ords = SeqCst" "po_leave ords = SeqCst" "po_clear ords = SeqCst"
  shows "psys_step (wk_sys t) (wk_sys t') \<and> wk_buf t' = []"
  using assms(1)
proof cases
  case (wk_thread i pc pc' sh)
  with thread [of i "wk_sys t" pc' sh] assms(2) show ?thesis by (auto intro: by_thread)
next
  case wk_reactor
  then have "park_reactor_step (wk_sys t) (wk_sys t') \<and> wk_buf t' = []"
  proof cases
    case wk_enter1
    with assms(2) ords enter1 [of "wk_sys t"] show ?thesis by (auto simp: wk_store_SeqCst enter_store_def)
  next
    case wk_leave1
    with assms(2) ords leave1 [of "wk_sys t"] show ?thesis by (auto simp: wk_store_SeqCst leave_store_def)
  next
    case (wk_leave2 t1)
    with assms(2) ords leave2 [of "wk_sys t"] show ?thesis by (auto simp: wk_store_SeqCst clear_unpark_def)
  next
    case wk_enter2
    with assms(2) enter2 [of "wk_sys t"] show ?thesis by simp
  qed (use assms(2) in \<open>auto intro: park_reactor_step.intros\<close>)
  then show ?thesis by (auto intro: by_reactor)
next
  case (wk_drain i buf sh)
  with assms(2) show ?thesis by (simp add: can_drain_def)
qed (use assms(2) in \<open>auto intro: by_kernel call wake_other\<close>)

text \<open>An example run in three parts: the reactor enters; it returns and leaves; a wake-up comes, and the reactor sleeps.\<close>

lemmas demo_run_defs = demo_wsys_def source_orders_def wk_store_def buffer_store_def drain_at_def can_drain_def releases_def
  enter_load_def buffer_view_def unpark_step_def

lemma demo_enter: "(wk_step source_orders)\<^sup>*\<^sup>* (wk_init demo_park) (demo_wsys False True REntered [] [] False)"
proof -
  have "wk_step source_orders (wk_init demo_park) (demo_wsys False False RIdle [] [] False)"
    using wk_reactor [OF wk_arm [of "wk_init demo_park" source_orders]]
    by (simp add: wk_init_def psys_init_def demo_wsys_def demo_park_def)
  moreover have "wk_step source_orders (demo_wsys False False RIdle [] [] False) (demo_wsys False True REntered [] [] False)"
    by (rule wk_reactor [OF wk_enter1]) (simp_all add: demo_run_defs)
  ultimately show ?thesis by (meson converse_rtranclp_into_rtranclp rtranclp.rtrancl_refl)
qed

lemma demo_leave:
  "(wk_step source_orders)\<^sup>*\<^sup>* (demo_wsys False True REntered [] [] False)
     (demo_wsys False True RIdle [] [(Relaxed, StEntered False), (Relaxed, StPending False)] False)"
proof -
  let ?e = "(Relaxed, StEntered False)" and ?p = "(Relaxed, StPending False)" and ?D = demo_wsys
  have "wk_step source_orders (?D False True REntered [] [] False) (?D False True (RGuard True) [] [] False)"
    using wk_reactor [OF wk_enter2 [of "?D False True REntered [] [] False" source_orders]] by (simp add: demo_run_defs)
  moreover have "wk_step source_orders (?D False True (RGuard True) [] [] False) (?D False True RReturned [] [] False)"
    using wk_reactor [OF wk_no_block [of "?D False True (RGuard True) [] [] False" True source_orders]] by (simp add: demo_wsys_def)
  moreover have "wk_step source_orders (?D False True RReturned [] [] False) (?D False True RLeaving [] [?e] False)"
    by (rule wk_reactor [OF wk_leave1]) (simp_all add: demo_run_defs)
  moreover have "wk_step source_orders (?D False True RLeaving [] [?e] False) (?D False True RIdle [] [?e, ?p] False)"
    using wk_reactor [OF wk_leave2 [of "?D False True RLeaving [] [?e] False" source_orders "?D False True RIdle [] [?e, ?p] False"]]
    by (simp add: demo_run_defs)
  ultimately show ?thesis by (meson converse_rtranclp_into_rtranclp rtranclp.rtrancl_refl)
qed

lemma demo_unpark_swallowed:
  "(wk_step source_orders)\<^sup>*\<^sup>* (demo_wsys False True RIdle [] [(Relaxed, StEntered False), (Relaxed, StPending False)] False)
     (demo_wsys False True RBlocked [UDone] [] True)"
proof -
  let ?e = "(Relaxed, StEntered False)" and ?p = "(Relaxed, StPending False)" and ?D = demo_wsys
  note th = wk_thread [where i = 0 and ords = source_orders] and dr = wk_drain [where i = 0 and ords = source_orders]
  have "wk_step source_orders (?D False True RIdle [] [?e, ?p] False) (?D False False RIdle [] [?p] False)"
    using dr [of "?D False True RIdle [] [?e, ?p] False" "[?p]" "demo_park\<lparr>sh_pending := False, sh_entered := False\<rparr>"]
    by (simp add: demo_run_defs)
  moreover have "wk_step source_orders (?D False False RIdle [] [?p] False) (?D False False RIdle [UUpgrade] [?p] False)"
    using wk_call [of source_orders "?D False False RIdle [] [?p] False"] by (simp add: demo_wsys_def)
  moreover have "wk_step source_orders (?D False False RIdle [UUpgrade] [?p] False) (?D False False RIdle [USwap] [?p] False)"
    using th [of "?D False False RIdle [UUpgrade] [?p] False" UUpgrade USwap] by (simp add: demo_run_defs)
  moreover have "wk_step source_orders (?D False False RIdle [USwap] [?p] False) (?D True False RIdle [ULoad] [?p] True)"
    using th [of "?D False False RIdle [USwap] [?p] False" USwap ULoad] by (simp add: demo_run_defs demo_park_def)
  moreover have "wk_step source_orders (?D True False RIdle [ULoad] [?p] True) (?D True False RIdle [UDone] [?p] True)"
    using th [of "?D True False RIdle [ULoad] [?p] True" ULoad UDone] by (simp add: demo_run_defs)
  moreover have "wk_step source_orders (?D True False RIdle [UDone] [?p] True) (?D False False RIdle [UDone] [] True)"
    using dr [of "?D True False RIdle [UDone] [?p] True" "[]" "demo_park\<lparr>sh_pending := False, sh_entered := False\<rparr>"]
    by (simp add: demo_run_defs)
  moreover have "wk_step source_orders (?D False False RIdle [UDone] [] True) (?D False True REntered [UDone] [] True)"
    by (rule wk_reactor [OF wk_enter1]) (simp_all add: demo_run_defs)
  moreover have "wk_step source_orders (?D False True REntered [UDone] [] True) (?D False True (RGuard True) [UDone] [] True)"
    using wk_reactor [OF wk_enter2 [of "?D False True REntered [UDone] [] True" source_orders]] by (simp add: demo_run_defs)
  moreover have "wk_step source_orders (?D False True (RGuard True) [UDone] [] True) (?D False True RBlocked [UDone] [] True)"
    using wk_reactor [OF wk_block [of "?D False True (RGuard True) [UDone] [] True" source_orders]] by (simp add: demo_wsys_def)
  ultimately show ?thesis by (meson converse_rtranclp_into_rtranclp rtranclp.rtrancl_refl)
qed

section \<open>Properties\<close>

text \<open>
  C5. A reactor that waits is woken under the orderings of the source. When the store of \<open>entered\<close> in \<open>enter\<close>
  is sequentially consistent, as it is, whatever the orderings of the other stores: a reactor blocked in
  \<open>io_uring_enter\<close> while the pending flag is set is brought back by the calls under way and the
  kernel alone. If also \<open>clear_unpark\<close> used a sequentially consistent store, the same would hold for every
  \<open>unpark\<close> that took effect since the reactor finished its last park.
\<close>

theorem unpark_not_lost_weak:
  assumes "fresh_park sh" "(wk_step ords)\<^sup>*\<^sup>* (wk_init sh) t" "po_enter ords = SeqCst" "ps_rpc (wk_sys t) = RBlocked"
    and "sh_pending (ps_park (wk_sys t)) \<or> wk_owed t \<and> po_clear ords = SeqCst"
  shows "\<exists>s'. wake_step\<^sup>*\<^sup>* (wk_sys t) s' \<and> ps_rpc s' = RReturned"
proof -
  have "wk_inv t" using wk.inv_reachable [OF _ assms(2)] assms(1,3) by blast
  moreover have "sh_pending (ps_park (wk_sys t))" if "wk_owed t" "po_clear ords = SeqCst"
    using owed.inv_reachable [OF _ assms(2)] assms(3) that by (auto simp: owed_inv_def)
  ultimately show ?thesis using blocked_wakes assms(4,5) by blast
qed

lemma demo_blocked_weak:
  "(wk_step source_orders)\<^sup>*\<^sup>* (demo_wsys False True REntered [] [] False) (demo_wsys True True RBlocked [ULoad] [] True)"
proof -
  let ?D = demo_wsys
  have "wk_step source_orders (?D False True REntered [] [] False) (?D False True (RGuard True) [] [] False)"
    using wk_reactor [OF wk_enter2 [of "?D False True REntered [] [] False" source_orders]] by (simp add: demo_run_defs)
  moreover have "wk_step source_orders (?D False True (RGuard True) [] [] False) (?D False True RBlocked [] [] False)"
    using wk_reactor [OF wk_block [of "?D False True (RGuard True) [] [] False" source_orders]] by (simp add: demo_wsys_def)
  moreover have "wk_step source_orders (?D False True RBlocked [] [] False) (?D False True RBlocked [UUpgrade] [] False)"
    using wk_call [of source_orders "?D False True RBlocked [] [] False"] by (simp add: demo_wsys_def)
  moreover have "wk_step source_orders (?D False True RBlocked [UUpgrade] [] False) (?D False True RBlocked [USwap] [] False)"
    using wk_thread [of 0 "?D False True RBlocked [UUpgrade] [] False" UUpgrade USwap _ source_orders] by (simp add: demo_run_defs)
  moreover have "wk_step source_orders (?D False True RBlocked [USwap] [] False) (?D True True RBlocked [ULoad] [] True)"
    using wk_thread [of 0 "?D False True RBlocked [USwap] [] False" USwap ULoad _ source_orders] by (simp add: demo_run_defs demo_park_def)
  ultimately show ?thesis by (meson converse_rtranclp_into_rtranclp rtranclp.rtrancl_refl)
qed

theorem unpark_not_lost_weak_witness:
  "\<exists>t s'. (wk_step source_orders)\<^sup>*\<^sup>* (wk_init demo_park) t \<and> ps_rpc (wk_sys t) = RBlocked \<and>
     wake_step\<^sup>*\<^sup>* (wk_sys t) s' \<and> ps_rpc s' = RReturned"
proof -
  have run: "(wk_step source_orders)\<^sup>*\<^sup>* (wk_init demo_park) (demo_wsys True True RBlocked [ULoad] [] True)"
    using demo_enter demo_blocked_weak by (rule rtranclp_trans)
  have "po_enter source_orders = SeqCst" "ps_rpc (wk_sys (demo_wsys True True RBlocked [ULoad] [] True)) = RBlocked"
    "sh_pending (ps_park (wk_sys (demo_wsys True True RBlocked [ULoad] [] True)))"
    by (simp_all add: source_orders_def demo_wsys_def)
  with unpark_not_lost_weak [OF demo_park_fresh run] run show ?thesis by blast
qed

text \<open>
  C29. The relaxed store of \<open>clear_unpark\<close> can swallow a wake-up. The reactor finishes a park; its store of
  \<open>pending\<close> is still in the store buffer when a thread calls \<open>unpark\<close>, finds the reactor not entered and
  returns; then the store reaches memory and overwrites the thread's. The next park goes to sleep, although \<open>unpark\<close> was
  called after the last park had ended, and neither the calls under way nor the kernel will end it. The
  buffer is drained in order here, as on x86.
\<close>

theorem relaxed_clear_loses_wakeup:
  "\<exists>t. (wk_step source_orders)\<^sup>*\<^sup>* (wk_init demo_park) t \<and> wk_owed t \<and> ps_rpc (wk_sys t) = RBlocked \<and>
    \<not> (\<exists>s'. wake_step\<^sup>*\<^sup>* (wk_sys t) s' \<and> ps_rpc s' \<noteq> RBlocked)"
proof (intro exI conjI)
  let ?D = demo_wsys and ?e = "(Relaxed, StEntered False)" and ?p = "(Relaxed, StPending False)"
  show "(wk_step source_orders)\<^sup>*\<^sup>* (wk_init demo_park) (?D False True RBlocked [UDone] [] True)"
    using demo_enter demo_leave demo_unpark_swallowed by (meson rtranclp_trans)
  have stuck: "s' = wk_sys (?D False True RBlocked [UDone] [] True)"
    if "wake_step\<^sup>*\<^sup>* (wk_sys (?D False True RBlocked [UDone] [] True)) s'" for s'
    using that
  proof (induction rule: rtranclp_induct)
    case (step y z)
    then show ?case
      by (auto simp: wake_step_def demo_wsys_def demo_park_def unpark_step_def elim!: unpark_thread_step.cases park_kernel_step.cases)
  qed simp
  show "\<not> (\<exists>s'. wake_step\<^sup>*\<^sup>* (wk_sys (?D False True RBlocked [UDone] [] True)) s' \<and> ps_rpc s' \<noteq> RBlocked)"
  proof
    assume "\<exists>s'. wake_step\<^sup>*\<^sup>* (wk_sys (?D False True RBlocked [UDone] [] True)) s' \<and> ps_rpc s' \<noteq> RBlocked"
    then obtain s' where s': "wake_step\<^sup>*\<^sup>* (wk_sys (?D False True RBlocked [UDone] [] True)) s'" "ps_rpc s' \<noteq> RBlocked" by blast
    from stuck [OF s'(1)] s'(2) show False by (simp add: demo_wsys_def)
  qed
qed (simp_all add: demo_wsys_def)



end
