(* ===== verification/Reactor.thy ===== *)
theory Reactor
  imports Uring_Setup Registration Unpark
begin

text \<open>
  \<open>tokio-uring-reactor/src/reactor.rs\<close>: the completion handler, \<open>park_inner\<close> with its two passes over
  the completion queue and the call of \<open>io_uring_enter\<close>, the operations that queue requests, and the
  reactor's construction. The record \<open>Reactor_Inner\<close> has the fields of \<open>Inner\<close>, the heap of
  registrations, and a log of the \<open>io_uring_enter\<close> calls. What happens concurrently is an argument:
  \<open>rx_env\<close> gives the completions the kernel posts during the loops over the queue, the effect of
  \<open>io_uring_enter\<close> on the rings, and what other threads do to the park flags at each point where the
  reactor reads or writes them. The timer (crate \<open>timerfd\<close>) is the state last set.
\<close>

section \<open>State\<close>

record iovec =
  iov_base :: u64
  iov_len :: usize

definition iovec_from :: "fat_ptr \<Rightarrow> iovec" where
  "iovec_from data = \<lparr>iov_base = fp_ptr data, iov_len = fp_len data\<rparr>"

definition iovec_empty :: iovec where
  "iovec_empty = \<lparr>iov_base = 0, iov_len = 0\<rparr>"

definition sq_full_map_err :: "unit SubmissionError \<Rightarrow> io_error" where
  "sq_full_map_err e = CustomError KindOther ''submission queue full''"

record CompletionState =
  cs_requeue_timer :: bool
  cs_timer_pending :: bool
  cs_requeue_park :: bool
  cs_active_wait :: usize
  cs_park :: Park

definition TIMER :: u64 where "TIMER = 0x1"
definition PARK :: u64 where "PARK = 0x3"

datatype TimerState = Disarmed | Oneshot nat
  \<comment> \<open>a duration is a number of nanoseconds\<close>

record enter_call =
  ec_to_submit :: u32
  ec_min_complete :: u32
  ec_flags :: u32
  ec_state :: CompletionState
  ec_timer :: TimerState

record 'd Reactor_Inner =
  rx_uring :: Uring
  rx_cs :: CompletionState
  rx_timerfd :: i32
  rx_timer :: TimerState
  rx_read_buf :: fat_ptr
  rx_read_iovec :: iovec
  rx_heap :: "'d rc_heap"
  rx_enters :: "enter_call list"

section \<open>Completions\<close>

definition CompletionState_new ::
  "('w, 'z) posix_scheme \<Rightarrow> nat \<Rightarrow> 'w \<Rightarrow> (CompletionState, io_error) rresult \<times> 'w"
where
  "CompletionState_new os cap w =
     (let (r, w) = Park_new os cap w in
      case r of
        Err e \<Rightarrow> (Err e, w)
      | Ok park \<Rightarrow>
          (Ok \<lparr>cs_requeue_timer = True, cs_timer_pending = False, cs_requeue_park = True,
               cs_active_wait = 0, cs_park = park\<rparr>, w))"

text \<open>The registration a completion designates is dropped at the end of its branch.\<close>

definition handle_completion ::
  "profile \<Rightarrow> u64 \<Rightarrow> UringResult \<Rightarrow> CompletionState \<times> 'd rc_heap \<Rightarrow> (CompletionState \<times> 'd rc_heap) outcome"
where
  "handle_completion p user_data result s =
     (let (cs, h) = s in
      if 0 = user_data then Done (cs, h)
      else
        obind (rust_sub p (cs_active_wait cs) 1) (\<lambda>n.
        let cs = cs\<lparr>cs_active_wait := n\<rparr> in
        if 0 = user_data AND 1 then
          let reg = from_user_data user_data in
          obind (RawRegistration_notify reg result h) (\<lambda>h.
          obind (rc_drop reg h) (\<lambda>h. Done (cs, h)))
        else if user_data = TIMER then
          Done (cs\<lparr>cs_requeue_timer := True, cs_timer_pending := True\<rparr>, h)
        else if user_data = PARK then
          obind (clear_event (cs_park cs)) (\<lambda>park.
            Done (cs\<lparr>cs_park := park, cs_requeue_park := True\<rparr>, h))
        else Panic ''unknown event''))"

definition completion_body ::
  "profile \<Rightarrow> CompletionEntry \<Rightarrow> bool \<times> CompletionState \<times> 'd rc_heap \<Rightarrow>
    (bool \<times> CompletionState \<times> 'd rc_heap) outcome"
where
  "completion_body p cqe s =
     (let (received_completion, st) = s;
          result = \<lparr>ur_result = ce_res cqe, ur_flags = ce_flags cqe\<rparr> in
      obind (handle_completion p (ce_user_data cqe) result st) (\<lambda>st. Done (True, st)))"

definition check_completions ::
  "profile \<Rightarrow> CompletionEntry list list \<Rightarrow> 'd Reactor_Inner \<Rightarrow> (bool \<times> 'd Reactor_Inner) outcome"
where
  "check_completions p posts s =
     obind (cq_for_each posts (completion_body p) (False, rx_cs s, rx_heap s) (u_cq (rx_uring s)))
       (\<lambda>((received, cs, h), cq, _).
         Done (received, s\<lparr>rx_uring := (rx_uring s)\<lparr>u_cq := cq\<rparr>, rx_cs := cs, rx_heap := h\<rparr>))"

section \<open>Queueing requests\<close>

text \<open>
  The reactor's own polls. \<open>'e\<close> of the closure is \<open>Infallible\<close>; the closures never return an error.
\<close>

definition queue_poll :: "profile \<Rightarrow> libc_poll \<Rightarrow> i32 \<Rightarrow> u64 \<Rightarrow> 'd Reactor_Inner \<Rightarrow>
  ((unit, unit SubmissionError) rresult \<times> 'd Reactor_Inner) outcome" where
  "queue_poll p lc fd user_data s =
     obind (sq_submit_one (u_sq (rx_uring s))
        (\<lambda>_ entry. Done ((), (SubmissionEntry_poll_add entry (FD fd) (PollFlags_IN lc))\<lparr>se_user_data := user_data\<rparr>, Ok ())) ())
     (\<lambda>(sq, _, r).
       let s = s\<lparr>rx_uring := (rx_uring s)\<lparr>u_sq := sq\<rparr>\<rparr> in
       case r of
         Err e \<Rightarrow> Done (Err e, s)
       | Ok _ \<Rightarrow> obind (rust_add p (cs_active_wait (rx_cs s)) 1) (\<lambda>n.
           Done (Ok (), s\<lparr>rx_cs := (rx_cs s)\<lparr>cs_active_wait := n\<rparr>\<rparr>)))"

definition queue_timer_poll :: "profile \<Rightarrow> libc_poll \<Rightarrow> 'd Reactor_Inner \<Rightarrow>
  ((unit, unit SubmissionError) rresult \<times> 'd Reactor_Inner) outcome" where
  "queue_timer_poll p lc s = (let fd = rx_timerfd s in queue_poll p lc fd TIMER s)"

definition queue_park_read :: "profile \<Rightarrow> libc_poll \<Rightarrow> 'd Reactor_Inner \<Rightarrow>
  ((unit, unit SubmissionError) rresult \<times> 'd Reactor_Inner) outcome" where
  "queue_park_read p lc s = (let fd = Park_as_raw_fd (cs_park (rx_cs s)) in queue_poll p lc fd PARK s)"

text \<open>
  A request on behalf of a registration. The closure owns the raw handle: it is consumed when the
  closure runs (its state becomes \<open>True\<close>) and dropped with the closure otherwise.
\<close>

definition queue_registered :: "profile \<Rightarrow> (SubmissionEntry \<Rightarrow> SubmissionEntry) \<Rightarrow> u64 \<Rightarrow> 'd Reactor_Inner \<Rightarrow>
  ((unit, io_error) rresult \<times> 'd Reactor_Inner) outcome" where
  "queue_registered p fill reg s =
     obind (sq_submit_one (u_sq (rx_uring s))
        (\<lambda>_ entry. obind (into_user_data reg) (\<lambda>ud. Done (True, (fill entry)\<lparr>se_user_data := ud\<rparr>, Ok ()))) False)
     (\<lambda>(sq, consumed, r).
       obind (if consumed then Done (rx_heap s) else rc_drop reg (rx_heap s)) (\<lambda>h.
       let s = s\<lparr>rx_uring := (rx_uring s)\<lparr>u_sq := sq\<rparr>, rx_heap := h\<rparr> in
       case map_err sq_full_map_err r of
         Err e \<Rightarrow> Done (Err e, s)
       | Ok _ \<Rightarrow> obind (rust_add p (cs_active_wait (rx_cs s)) 1) (\<lambda>n.
           Done (Ok (), s\<lparr>rx_cs := (rx_cs s)\<lparr>cs_active_wait := n\<rparr>\<rparr>))))"

definition queue_async_read :: "profile \<Rightarrow> i32 \<Rightarrow> u64 \<Rightarrow> fat_ptr \<Rightarrow> u64 \<Rightarrow> 'd Reactor_Inner \<Rightarrow>
  ((unit, io_error) rresult \<times> 'd Reactor_Inner) outcome" where
  "queue_async_read p fd offset iov reg s =
     queue_registered p
       (\<lambda>entry. SubmissionEntry_readv entry PrioNone (FD fd) offset ReadWriteFlags_default iov) reg s"

definition queue_async_write :: "profile \<Rightarrow> i32 \<Rightarrow> u64 \<Rightarrow> fat_ptr \<Rightarrow> u64 \<Rightarrow> 'd Reactor_Inner \<Rightarrow>
  ((unit, io_error) rresult \<times> 'd Reactor_Inner) outcome" where
  "queue_async_write p fd offset iov reg s =
     queue_registered p
       (\<lambda>entry. SubmissionEntry_writev entry PrioNone (FD fd) offset ReadWriteFlags_default iov) reg s"

definition queue_async_poll :: "profile \<Rightarrow> i32 \<Rightarrow> u16 \<Rightarrow> u64 \<Rightarrow> 'd Reactor_Inner \<Rightarrow>
  ((unit, io_error) rresult \<times> 'd Reactor_Inner) outcome" where
  "queue_async_poll p fd pflags reg s =
     queue_registered p (\<lambda>entry. SubmissionEntry_poll_add entry (FD fd) pflags) reg s"

section \<open>Parking\<close>

text \<open>
  The points at which other threads may act on the park flags: before the first look at
  \<open>pending\<close>, inside \<open>enter\<close>, during the system call and inside the guard's drop.
\<close>

record rx_env =
  env_posts :: "nat \<Rightarrow> CompletionEntry list list"
  env_enter :: "u32 \<Rightarrow> u32 \<Rightarrow> u32 \<Rightarrow> Uring \<Rightarrow> (unit, io_error) rresult \<times> Uring"
  env_threads :: "nat \<Rightarrow> Park \<Rightarrow> Park"

definition upd_park :: "(Park \<Rightarrow> Park) \<Rightarrow> 'd Reactor_Inner \<Rightarrow> 'd Reactor_Inner" where
  "upd_park f s = s\<lparr>rx_cs := (rx_cs s)\<lparr>cs_park := f (cs_park (rx_cs s))\<rparr>\<rparr>"

text \<open>The block \<open>if wait { ... }\<close>: the timer is set, disarmed or left alone, then polled.\<close>

definition set_timer :: "nat option \<Rightarrow> 'd Reactor_Inner \<Rightarrow> 'd Reactor_Inner" where
  "set_timer timeout s = (case timeout of
       Some t \<Rightarrow> s\<lparr>rx_timer := Oneshot t, rx_cs := (rx_cs s)\<lparr>cs_timer_pending := False\<rparr>\<rparr>
     | None \<Rightarrow>
         if cs_timer_pending (rx_cs s)
         then s\<lparr>rx_timer := Disarmed, rx_cs := (rx_cs s)\<lparr>cs_timer_pending := False\<rparr>\<rparr> else s)"

definition prepare_timer :: "profile \<Rightarrow> libc_poll \<Rightarrow> nat option \<Rightarrow> 'd Reactor_Inner \<Rightarrow>
  (bool \<times> 'd Reactor_Inner) outcome" where
  "prepare_timer p lc timeout s =
     obind (if p = Debug then rust_assert ''assertion failed: timeout != Duration::new(0, 0)'' (timeout \<noteq> Some 0)
            else Done ()) (\<lambda>_.
     let s = set_timer timeout s in
     if cs_requeue_timer (rx_cs s) then
       obind (queue_timer_poll p lc s) (\<lambda>(r, s).
         Done (if is_err r then (False, s) else (True, s\<lparr>rx_cs := (rx_cs s)\<lparr>cs_requeue_timer := False\<rparr>\<rparr>)))
     else Done (True, s))"

definition prepare_park :: "profile \<Rightarrow> libc_poll \<Rightarrow> 'd Reactor_Inner \<Rightarrow> (bool \<times> 'd Reactor_Inner) outcome" where
  "prepare_park p lc s =
     (if cs_requeue_park (rx_cs s) then
        obind (queue_park_read p lc s) (\<lambda>(r, s).
          Done (if is_err r then (False, s) else (True, s\<lparr>rx_cs := (rx_cs s)\<lparr>cs_requeue_park := False\<rparr>\<rparr>)))
      else Done (True, s))"

text \<open>The block that holds the guard: \<open>None\<close> when the system call is not made.\<close>

definition enter_guarded :: "profile \<Rightarrow> rx_env \<Rightarrow> bool \<Rightarrow> u32 \<Rightarrow> 'd Reactor_Inner \<Rightarrow>
  (unit, io_error) rresult option \<times> 'd Reactor_Inner" where
  "enter_guarded p env wait pending s =
     (let (allow_wait, park) = Park_enter (env_threads env 1) (cs_park (rx_cs s));
          s = upd_park (\<lambda>_. park) s;
          wait = (if \<not> allow_wait then False else wait) in
      if 0 = pending \<and> \<not> wait then (None, upd_park (ParkEntered_drop (env_threads env 3)) s)
      else
        let (min_complete, eflags) = (if wait then (1, EnterFlags_GETEVENTS) else (0, EnterFlags_default));
            call = \<lparr>ec_to_submit = pending, ec_min_complete = min_complete, ec_flags = eflags,
                    ec_state = rx_cs s, ec_timer = rx_timer s\<rparr>;
            (r, uring) = env_enter env pending min_complete eflags (rx_uring s);
            s = upd_park (env_threads env 2) (s\<lparr>rx_uring := uring, rx_enters := rx_enters s @ [call]\<rparr>)
        in (Some r, upd_park (ParkEntered_drop (env_threads env 3)) s))"

definition park_inner :: "profile \<Rightarrow> libc_poll \<Rightarrow> rx_env \<Rightarrow> bool \<Rightarrow> nat option \<Rightarrow> 'd Reactor_Inner \<Rightarrow>
  ((unit, io_error) rresult \<times> 'd Reactor_Inner) outcome" where
  "park_inner p lc env wait timeout s =
     obind (check_completions p (env_posts env 0) s) (\<lambda>(received, s).
     let wait = (if received then False else wait);
         s = upd_park (env_threads env 0) s;
         wait = (if Park_pending (cs_park (rx_cs s)) then False else wait) in
     obind (if wait then prepare_timer p lc timeout s else Done (wait, s)) (\<lambda>(wait, s).
     obind (if wait then prepare_park p lc s else Done (wait, s)) (\<lambda>(wait, s).
     obind (sq_pending_submissions p (u_sq (rx_uring s))) (\<lambda>(sq, pending).
     let s = s\<lparr>rx_uring := (rx_uring s)\<lparr>u_sq := sq\<rparr>\<rparr>;
         (entered, s) = enter_guarded p env wait pending s in
     case entered of
       None \<Rightarrow> Done (Ok (), s)
     | Some (Err e) \<Rightarrow> Done (Err e, s)
     | Some (Ok _) \<Rightarrow>
         obind (check_completions p (env_posts env 1) s) (\<lambda>(_, s). Done (Ok (), s))))))"

definition Inner_park :: "profile \<Rightarrow> libc_poll \<Rightarrow> rx_env \<Rightarrow> 'd Reactor_Inner \<Rightarrow>
  ((unit, io_error) rresult \<times> 'd Reactor_Inner) outcome" where
  "Inner_park p lc env s = park_inner p lc env True None s"

definition Inner_park_timeout :: "profile \<Rightarrow> libc_poll \<Rightarrow> rx_env \<Rightarrow> nat \<Rightarrow> 'd Reactor_Inner \<Rightarrow>
  ((unit, io_error) rresult \<times> 'd Reactor_Inner) outcome" where
  "Inner_park_timeout p lc env duration s =
     (if duration = 0 then park_inner p lc env False None s
      else park_inner p lc env True (Some duration) s)"

section \<open>Construction\<close>

text \<open>
  \<open>Inner::build\<close>: \<open>timerfd_new\<close> is \<open>TimerFd::new\<close> of the \<open>timerfd\<close> crate. An early return drops
  what was built so far, the ring's fields in the order of declaration.
\<close>

definition Uring_drop :: "('w, 'z) os_scheme \<Rightarrow> Uring \<Rightarrow> 'w \<Rightarrow> 'w" where
  "Uring_drop os u w =
     (let w = UringFile_drop os (u_file u) w;
          w = SubmissionQueue_drop os (u_sq u, u_sq_mmaps u) w
      in MappedMemory_drop os (u_cq_mmap u) w)"

definition Park_drop :: "('w, 'z) os_scheme \<Rightarrow> Park \<Rightarrow> 'w \<Rightarrow> 'w" where
  "Park_drop os park w = os_close os (pk_read_fd park) (os_close os (sh_write_fd park) w)"

definition Inner_build :: "profile \<Rightarrow> ('w, 'z) posix_scheme \<Rightarrow> ('w \<Rightarrow> (i32, io_error) rresult \<times> 'w) \<Rightarrow>
  nat \<Rightarrow> u64 \<Rightarrow> u64 \<Rightarrow> 'w \<Rightarrow> (('d Reactor_Inner, io_error) rresult \<times> 'w) outcome" where
  "Inner_build p os timerfd_new cap pp buf w =
     (let params = SetupParameters_new SetupFlags_default in
      obind (Uring_new p os 4096 params pp w) (\<lambda>(r, w).
      case r of Err e \<Rightarrow> Done (Err e, w) | Ok uring \<Rightarrow>
      let (r, w) = CompletionState_new os cap w in
      case r of Err e \<Rightarrow> Done (Err e, Uring_drop os uring w) | Ok cs \<Rightarrow>
      let (r, w) = timerfd_new w in
      case r of Err e \<Rightarrow> Done (Err e, Uring_drop os uring (Park_drop os (cs_park cs) w)) | Ok fd \<Rightarrow>
      Done (Ok \<lparr>rx_uring = uring, rx_cs = cs, rx_timerfd = fd, rx_timer = Disarmed,
                rx_read_buf = \<lparr>fp_ptr = buf, fp_len = 32\<rparr>, rx_read_iovec = iovec_empty,
                rx_heap = \<lparr>rh_cells = (\<lambda>_. None), rh_woken = []\<rparr>, rx_enters = []\<rparr>, w)))"

definition Inner_init :: "'d Reactor_Inner \<Rightarrow> 'd Reactor_Inner" where
  "Inner_init s = s\<lparr>rx_read_iovec := iovec_from (rx_read_buf s)\<rparr>"

definition Reactor_new :: "profile \<Rightarrow> ('w, 'z) posix_scheme \<Rightarrow> ('w \<Rightarrow> (i32, io_error) rresult \<times> 'w) \<Rightarrow>
  nat \<Rightarrow> u64 \<Rightarrow> u64 \<Rightarrow> 'w \<Rightarrow> (('d Reactor_Inner, io_error) rresult \<times> 'w) outcome" where
  "Reactor_new p os timerfd_new cap pp buf w =
     obind (Inner_build p os timerfd_new cap pp buf w) (\<lambda>(r, w).
       case r of Err e \<Rightarrow> Done (Err e, w) | Ok s \<Rightarrow> Done (Ok (Inner_init s), w))"

text \<open>A handle is a weak reference; \<open>alive\<close> says whether the reactor still exists.\<close>

definition Handle_inner_mut :: "bool \<Rightarrow> (unit, io_error) rresult" where
  "Handle_inner_mut alive =
     (if alive then Ok () else Err (CustomError KindOther ''uring reactor dead''))"

section \<open>Operations in flight\<close>

text \<open>
  \<open>inflight_ok fl own cs h\<close>: \<open>fl\<close> is the multiset of \<open>user_data\<close> of requests that were queued and
  whose completion was not handled yet, \<open>own\<close> the registrations held by futures. The wait counter is
  the number of requests in flight, the timer and the park poll are in flight at most once and exactly
  when they need no requeueing, every other request in flight designates an unfinished registration
  with one strong count of its own, and the strong counts are accounted for.
\<close>

definition registered :: "u64 \<Rightarrow> bool" where
  "registered ud \<longleftrightarrow> ud \<noteq> 0 \<and> ud AND 1 = 0"

definition unfinished :: "'d rc_heap \<Rightarrow> u64 \<Rightarrow> bool" where
  "unfinished h a \<longleftrightarrow> (case rh_cells h a of None \<Rightarrow> False | Some (_, i) \<Rightarrow> \<not> ri_finished i)"

definition inflight_ok :: "u64 multiset \<Rightarrow> u64 multiset \<Rightarrow> CompletionState \<Rightarrow> 'd rc_heap \<Rightarrow> bool" where
  "inflight_ok fl own cs h \<longleftrightarrow>
     unat (cs_active_wait cs) = size fl \<and>
     count fl TIMER = of_bool (\<not> cs_requeue_timer cs) \<and> count fl PARK = of_bool (\<not> cs_requeue_park cs) \<and>
     (\<forall>ud \<in># fl. ud = TIMER \<or> ud = PARK \<or> registered ud \<and> count fl ud = 1 \<and> unfinished h ud) \<and>
     owners_ok h (filter_mset registered fl + own)"

text \<open>
  The reactor's invariant: \<open>k\<close> are the requests the kernel has taken and not completed; together
  with those still in the submission ring and the completions in the completion ring they are in
  flight. A completed park poll means that the pipe is readable.
\<close>

definition sq_uds :: "SubmissionEntry list \<Rightarrow> u64 multiset" where
  "sq_uds es = mset (map se_user_data es)"

definition cq_uds :: "CompletionEntry list \<Rightarrow> u64 multiset" where
  "cq_uds es = mset (map ce_user_data es)"

definition rx_inflight :: "u64 multiset \<Rightarrow> 'd Reactor_Inner \<Rightarrow> u64 multiset" where
  "rx_inflight k s = sq_uds (sq_contents (u_sq (rx_uring s))) + k + cq_uds (cq_contents (u_cq (rx_uring s)))"

definition rx_inv :: "u64 multiset \<Rightarrow> u64 multiset \<Rightarrow> 'd Reactor_Inner \<Rightarrow> bool" where
  "rx_inv k own s \<longleftrightarrow>
     sq_wf (u_sq (rx_uring s)) \<and> cq_wf (u_cq (rx_uring s)) \<and>
     inflight_ok (rx_inflight k s) own (rx_cs s) (rx_heap s) \<and>
     (PARK \<in># cq_uds (cq_contents (u_cq (rx_uring s))) \<longrightarrow> 0 < pipe_bytes (cs_park (rx_cs s)))"

text \<open>
  What the reactor relies on. Other threads only set the pending flag and write to the pipe. The
  kernel only moves the rings by its own protocol, completes only requests it holds (each once), and
  completes the park poll only when the pipe is readable.
\<close>

definition threads_ok :: "(Park \<Rightarrow> Park) \<Rightarrow> bool" where
  "threads_ok f \<longleftrightarrow> (\<forall>sh. sh_entered (f sh) = sh_entered sh \<and> (sh_pending sh \<longrightarrow> sh_pending (f sh)) \<and>
     pipe_bytes sh \<le> pipe_bytes (f sh) \<and> pk_read_fd (f sh) = pk_read_fd sh \<and>
     sh_write_fd (f sh) = sh_write_fd sh \<and> pipe_capacity (f sh) = pipe_capacity sh)"

definition enter_ok :: "rx_env \<Rightarrow> u64 multiset \<Rightarrow> bool" where
  "enter_ok env k \<longleftrightarrow> (\<forall>n m fl u r u'. env_enter env n m fl u = (r, u') \<longrightarrow>
     (\<exists>taken posted. u_file u' = u_file u \<and>
        transport_run sq_user_step sq_kernel_step (u_sq u) [] taken (u_sq u') \<and>
        transport_run cq_kernel_step cq_user_step (u_cq u) posted [] (u_cq u') \<and>
        cq_uds posted + cq_uds (concat (env_posts env 1)) \<subseteq># k + sq_uds taken \<and>
        (PARK \<in># cq_uds posted + cq_uds (concat (env_posts env 1)) \<longrightarrow>
           (\<forall>sh. 0 < pipe_bytes (env_threads env 2 sh)))))"

definition env_ok :: "rx_env \<Rightarrow> u64 multiset \<Rightarrow> Park \<Rightarrow> bool" where
  "env_ok env k park \<longleftrightarrow>
     (\<forall>n. threads_ok (env_threads env n)) \<and>
     cq_uds (concat (env_posts env 0)) \<subseteq># k \<and>
     (PARK \<in># cq_uds (concat (env_posts env 0)) \<longrightarrow> 0 < pipe_bytes park) \<and>
     enter_ok env (k - cq_uds (concat (env_posts env 0)))"

section \<open>Submitting one entry\<close>

lemma sq_submit_one_cases:
  assumes wf: "sq_wf q" and f: "f s zeroed_entry = Done (s', e, Ok ())"
  shows "\<exists>q'. sq_wf q' \<and> sq_capacity q' = sq_capacity q \<and> sq_k_head q' = sq_k_head q \<and>
    sq_submit_one q f s = Done (q', if length (sq_contents q) = sq_capacity q then (s, Err QueueFull) else (s', Ok ())) \<and>
    sq_contents q' = sq_contents q @ (if length (sq_contents q) = sq_capacity q then [] else [e])"
proof -
  obtain q1 b where full: "sq_is_full q = (q1, b)" by fastforce
  note b = sq_is_full_exact [OF wf full] and wf1 = sq_is_full_wf [OF wf full] and fr = sq_is_full_frame [OF full]
  show ?thesis
  proof (cases b)
    case True
    with b fr bulk_drop_abs [OF wf1] show ?thesis
      by (simp add: sq_submit_one_def bulk_submit_with_eq [OF wf full]) (simp add: bulk_drop_def sq_flush_tail_def)
  next
    case False
    with full have room: "ring_dist (sq_cached_head q1) (sq_local_tail q1) < sq_capacity q1"
      using sq_not_full_room [OF wf] by simp
    note st = sq_stage_contents [OF wf1 room, of e]
    from False b fr bulk_drop_abs [OF st(1)] st f show ?thesis
      by (simp add: sq_submit_one_def bulk_submit_with_eq [OF wf full]) (simp add: bulk_drop_def sq_flush_tail_def)
  qed
qed

section \<open>Handling completions\<close>

lemma user_data_kinds [simp]:
  "TIMER \<noteq> 0" "PARK \<noteq> 0" "TIMER \<noteq> PARK" "PARK \<noteq> TIMER" "TIMER AND 1 \<noteq> 0" "PARK AND 1 \<noteq> 0"
  "\<not> registered TIMER" "\<not> registered PARK" "\<not> registered 0"
  by (simp_all add: TIMER_def PARK_def registered_def)

lemma inflightD:
  assumes "inflight_ok fl own cs h" "ud \<in># fl"
  shows "ud = TIMER \<or> ud = PARK \<or> registered ud \<and> count fl ud = 1 \<and> unfinished h ud"
    and "ud \<noteq> 0" "0 < unat (cs_active_wait cs)"
proof -
  show k: "ud = TIMER \<or> ud = PARK \<or> registered ud \<and> count fl ud = 1 \<and> unfinished h ud"
    using assms by (auto simp: inflight_ok_def)
  then show "ud \<noteq> 0" by auto
  show "0 < unat (cs_active_wait cs)" using assms by (auto simp: inflight_ok_def nonempty_has_size [symmetric])
qed

lemma active_wait_dec:
  assumes "inflight_ok fl own cs h" "ud \<in># fl"
  shows "rust_sub p (cs_active_wait cs) 1 = Done (cs_active_wait cs - 1)"
    "unat (cs_active_wait cs - 1) = size (fl - {#ud#})"
proof -
  have ne: "cs_active_wait cs \<noteq> 0" using inflightD(3) [OF assms] by (metis less_irrefl unat_0)
  then show "rust_sub p (cs_active_wait cs) 1 = Done (cs_active_wait cs - 1)"
    by (simp add: rust_sub_def word_less_1)
  have "unat (cs_active_wait cs - 1) = unat (cs_active_wait cs) - 1" using ne by (simp add: unat_minus_one)
  then show "unat (cs_active_wait cs - 1) = size (fl - {#ud#})"
    using assms by (simp add: inflight_ok_def size_Diff_singleton)
qed

lemma inflight_other:
  assumes "inflight_ok fl own cs h" "x \<in># fl - {#ud#}"
  shows "x = TIMER \<or> x = PARK \<or> registered x \<and> count (fl - {#ud#}) x = 1 \<and> unfinished h x"
proof -
  have "x \<in># fl" using assms(2) by (rule in_diffD)
  moreover have "1 \<le> count (fl - {#ud#}) x" using assms(2) by (metis count_greater_zero_iff One_nat_def Suc_le_eq)
  moreover have "count (fl - {#ud#}) x \<le> count fl x" by (rule mset_subset_eq_count) simp
  ultimately show ?thesis using inflightD(1) [OF assms(1), of x] by linarith
qed

lemma inflight_once:
  assumes "inflight_ok fl own cs h" "ud \<in># fl"
  shows "ud \<notin># fl - {#ud#}"
proof -
  have "count fl TIMER \<le> 1" "count fl PARK \<le> 1" using assms(1) by (simp_all add: inflight_ok_def)
  then have "count fl ud \<le> 1" using inflightD(1) [OF assms] by auto
  then have "count (fl - {#ud#}) ud = 0" by simp
  then show ?thesis by (simp only: not_in_iff)
qed

lemma unfinished_frame:
  "unfinished h a \<Longrightarrow> rh_cells h' a = rh_cells h a \<Longrightarrow> unfinished h' a"
  by (simp add: unfinished_def)

lemma inflight_remove:
  assumes inv: "inflight_ok fl own cs h" and ud: "ud \<in># fl"
    and cs': "cs_active_wait cs' = cs_active_wait cs - 1"
      "cs_requeue_timer cs' = (cs_requeue_timer cs \<or> ud = TIMER)"
      "cs_requeue_park cs' = (cs_requeue_park cs \<or> ud = PARK)"
    and own: "owners_ok h' (filter_mset registered (fl - {#ud#}) + own)"
    and frame: "\<And>a. a \<noteq> ud \<Longrightarrow> rh_cells h' a = rh_cells h a"
  shows "inflight_ok (fl - {#ud#}) own cs' h'"
proof -
  have c: "count fl TIMER = of_bool (\<not> cs_requeue_timer cs)" "count fl PARK = of_bool (\<not> cs_requeue_park cs)"
    using inv by (simp_all add: inflight_ok_def)
  have "x = TIMER \<or> x = PARK \<or> registered x \<and> count (fl - {#ud#}) x = 1 \<and> unfinished h' x"
    if x: "x \<in># fl - {#ud#}" for x
    using inflight_other [OF inv x] inflight_once [OF inv ud] frame [of x] x unfinished_frame by metis
  moreover have "count (fl - {#ud#}) TIMER = of_bool (\<not> cs_requeue_timer cs')"
    "count (fl - {#ud#}) PARK = of_bool (\<not> cs_requeue_park cs')"
    using c cs' by (simp_all add: of_bool_def)
  moreover have "unat (cs_active_wait cs') = size (fl - {#ud#})"
    using active_wait_dec(2) [OF inv ud] cs'(1) by simp
  ultimately show ?thesis using own unfolding inflight_ok_def by blast
qed

lemma rc_drop_frame:
  "rc_drop a h = Done h' \<Longrightarrow> b \<noteq> a \<Longrightarrow> rh_cells h' b = rh_cells h b"
  "rc_drop a h = Done h' \<Longrightarrow> rh_woken h' = rh_woken h"
  by (auto simp: rc_drop_def split: option.splits)

text \<open>One completion of a registration: the cell gets its result and loses the kernel's count.\<close>

lemma handle_registered:
  assumes inv: "inflight_ok fl own cs h" and ud: "ud \<in># fl" "registered ud"
  shows "\<exists>n i h'. rh_cells h ud = Some (n, i) \<and>
    handle_completion p ud r (cs, h) = Done (cs\<lparr>cs_active_wait := cs_active_wait cs - 1\<rparr>, h') \<and>
    inflight_ok (fl - {#ud#}) own (cs\<lparr>cs_active_wait := cs_active_wait cs - 1\<rparr>) h' \<and>
    rh_woken h' = rh_woken h @ snd (CompatWaker_notify (ri_waker i)) \<and>
    (ud \<in># own \<longrightarrow> rh_cells h' ud =
       Some (n - 1, i\<lparr>ri_finished := True, ri_result := r, ri_waker := Empty\<rparr>)) \<and>
    (\<forall>a. a \<noteq> ud \<longrightarrow> rh_cells h' a = rh_cells h a)"
proof -
  let ?own = "filter_mset registered fl + own"
  have own: "owners_ok h ?own" "ud \<in># ?own" using inv ud by (auto simp: inflight_ok_def)
  obtain n i where c: "rh_cells h ud = Some (n, i)" "n = count ?own ud" "0 < n" by (rule owned_cell [OF own])
  have fin: "\<not> ri_finished i" using inflightD(1) [OF inv ud(1)] ud(2) c(1) by (auto simp: unfinished_def)
  let ?i = "i\<lparr>ri_finished := True, ri_result := r, ri_waker := Empty\<rparr>"
  let ?h = "h\<lparr>rh_cells := (rh_cells h)(ud \<mapsto> (n, ?i)), rh_woken := rh_woken h @ snd (CompatWaker_notify (ri_waker i))\<rparr>"
  have "owners_ok (h\<lparr>rh_cells := (rh_cells h)(ud \<mapsto> (n, ?i))\<rparr>) ?own"
    using c own(1) by (intro owners_update [OF own(1)]) auto
  then have "owners_ok ?h ?own" by (simp add: owners_ok_def)
  from rc_drop_owned [OF this own(2)] obtain h' where
    h': "rc_drop ud ?h = Done h'" "owners_ok h' (?own - {#ud#})" by blast
  have m: "?own - {#ud#} = filter_mset registered (fl - {#ud#}) + own"
    using ud by simp
  have cells: "rh_cells h' a = rh_cells h a" if "a \<noteq> ud" for a using rc_drop_frame(1) [OF h'(1) that] that by simp
  have "inflight_ok (fl - {#ud#}) own (cs\<lparr>cs_active_wait := cs_active_wait cs - 1\<rparr>) h'"
    using ud(2) h'(2) m cells by (intro inflight_remove [OF inv ud(1)]) auto
  moreover have "handle_completion p ud r (cs, h) = Done (cs\<lparr>cs_active_wait := cs_active_wait cs - 1\<rparr>, h')"
    using ud(2) h'(1) notify_cell [OF c(1) fin, of r] active_wait_dec(1) [OF inv ud(1)]
    by (simp add: handle_completion_def registered_def from_user_data_def)
  moreover have "rh_cells h' ud = Some (n - 1, ?i)" if "ud \<in># own"
  proof -
    have "n = count fl ud + count own ud" using c(2) ud(2) by simp
    moreover have "count fl ud \<noteq> 0" "count own ud \<noteq> 0" using that ud(1) by (simp_all add: not_in_iff [symmetric])
    ultimately have "1 < n" by linarith
    with h'(1) show ?thesis by (auto simp: rc_drop_def)
  qed
  moreover have "rh_woken h' = rh_woken h @ snd (CompatWaker_notify (ri_waker i))"
    using rc_drop_frame(2) [OF h'(1)] by simp
  ultimately show ?thesis using c(1) cells by blast
qed

lemma handle_timer:
  assumes inv: "inflight_ok fl own cs h" and ud: "TIMER \<in># fl"
  defines "cs' \<equiv> cs\<lparr>cs_active_wait := cs_active_wait cs - 1, cs_requeue_timer := True, cs_timer_pending := True\<rparr>"
  shows "handle_completion p TIMER r (cs, h) = Done (cs', h) \<and> inflight_ok (fl - {#TIMER#}) own cs' h"
proof
  show "handle_completion p TIMER r (cs, h) = Done (cs', h)"
    using active_wait_dec(1) [OF inv ud] by (simp add: handle_completion_def cs'_def eq_commute [of 0])
  show "inflight_ok (fl - {#TIMER#}) own cs' h"
    by (rule inflight_remove [OF inv ud]) (use inv in \<open>simp_all add: cs'_def inflight_ok_def\<close>)
qed

lemma handle_park:
  assumes inv: "inflight_ok fl own cs h" and ud: "PARK \<in># fl" and bytes: "0 < pipe_bytes (cs_park cs)"
  defines "cs' \<equiv> cs\<lparr>cs_active_wait := cs_active_wait cs - 1, cs_requeue_park := True,
    cs_park := (cs_park cs)\<lparr>pipe_bytes := pipe_bytes (cs_park cs) - min 16 (pipe_bytes (cs_park cs))\<rparr>\<rparr>"
  shows "handle_completion p PARK r (cs, h) = Done (cs', h) \<and> inflight_ok (fl - {#PARK#}) own cs' h"
proof
  show "handle_completion p PARK r (cs, h) = Done (cs', h)"
    using active_wait_dec(1) [OF inv ud] bytes by (simp add: handle_completion_def cs'_def eq_commute [of 0] clear_event_def)
  show "inflight_ok (fl - {#PARK#}) own cs' h"
    by (rule inflight_remove [OF inv ud]) (use inv in \<open>simp_all add: cs'_def inflight_ok_def\<close>)
qed

lemma handle_completion_ok:
  assumes inv: "inflight_ok fl own cs h" and ud: "ud \<in># fl"
    and park: "ud = PARK \<Longrightarrow> 0 < pipe_bytes (cs_park cs)"
  shows "\<exists>cs' h'. handle_completion p ud r (cs, h) = Done (cs', h') \<and> inflight_ok (fl - {#ud#}) own cs' h' \<and>
    (ud \<noteq> PARK \<longrightarrow> cs_park cs' = cs_park cs) \<and>
    sh_pending (cs_park cs') = sh_pending (cs_park cs) \<and> sh_entered (cs_park cs') = sh_entered (cs_park cs)"
proof -
  from inflightD(1) [OF inv ud] consider "ud = TIMER" | "ud = PARK" | "registered ud" by blast
  then show ?thesis
  proof cases
    case 1
    with handle_timer [OF inv, of p r] ud show ?thesis by auto
  next
    case 2
    with handle_park [OF inv, of p r] ud park show ?thesis by auto
  next
    case 3
    with handle_registered [OF inv ud, of p r] show ?thesis by auto
  qed
qed

lemma handle_completion_inflight:
  assumes inv: "inflight_ok fl own cs h" and ud: "ud \<in># fl"
    and run: "handle_completion p ud r (cs, h) = Done (cs', h')"
  shows "inflight_ok (fl - {#ud#}) own cs' h'"
proof (cases "ud = PARK")
  case True
  then have "0 < pipe_bytes (cs_park cs)"
    using run by (auto simp: handle_completion_def Let_def eq_commute [of 0] clear_event_def split: if_splits)
  with handle_completion_ok [OF inv ud, of p r] run show ?thesis by auto
next
  case False
  with handle_completion_ok [OF inv ud, of p r] run show ?thesis by auto
qed

lemma completions_fold:
  assumes "inflight_ok fl own cs h" "mset (map ce_user_data es) \<subseteq># fl"
    and "PARK \<in> ce_user_data ` set es \<Longrightarrow> 0 < pipe_bytes (cs_park cs)"
  shows "\<exists>cs' h'. ofold (completion_body p) es (b, cs, h) = Done (b \<or> es \<noteq> [], cs', h') \<and>
    inflight_ok (fl - mset (map ce_user_data es)) own cs' h' \<and>
    sh_pending (cs_park cs') = sh_pending (cs_park cs) \<and> sh_entered (cs_park cs') = sh_entered (cs_park cs)"
  using assms
proof (induction es arbitrary: fl cs h b)
  case (Cons e es)
  let ?ud = "ce_user_data e"
  have ud: "?ud \<in># fl" using Cons.prems(2) by (simp add: insert_subset_eq_iff)
  have sub: "mset (map ce_user_data es) \<subseteq># fl - {#?ud#}"
    using Cons.prems(2) by (simp add: insert_subset_eq_iff)
  obtain cs1 h1 where 1: "handle_completion p ?ud \<lparr>ur_result = ce_res e, ur_flags = ce_flags e\<rparr> (cs, h) = Done (cs1, h1)"
    "inflight_ok (fl - {#?ud#}) own cs1 h1" "?ud \<noteq> PARK \<longrightarrow> cs_park cs1 = cs_park cs"
    "sh_pending (cs_park cs1) = sh_pending (cs_park cs)" "sh_entered (cs_park cs1) = sh_entered (cs_park cs)"
    using handle_completion_ok [OF Cons.prems(1) ud] Cons.prems(3) by fastforce
  have "0 < pipe_bytes (cs_park cs1)" if P: "PARK \<in> ce_user_data ` set es"
  proof -
    have "PARK \<in># fl - {#?ud#}" using P sub by (metis image_set in_multiset_in_set mset_subset_eqD set_mset_mset)
    then have "?ud \<noteq> PARK" using inflight_once [OF Cons.prems(1) ud] by metis
    with 1(3) Cons.prems(3) P show ?thesis by auto
  qed
  from Cons.IH [OF 1(2) sub this, of True] 1 show ?case
    by (auto simp: completion_body_def)
qed simp

lemma completion_body_Done:
  "completion_body p e (b, cs, h) = Done st \<Longrightarrow> \<exists>cs' h'. st = (True, cs', h') \<and>
    handle_completion p (ce_user_data e) \<lparr>ur_result = ce_res e, ur_flags = ce_flags e\<rparr> (cs, h) = Done (cs', h')"
  by (auto simp: completion_body_def obind_Done_iff)

lemma subseq_mset_subset: "subseq xs ys \<Longrightarrow> mset xs \<subseteq># mset ys"
  by (induction rule: list_emb.induct) (auto simp: subset_mset.add_increasing2 intro: subset_mset.order_trans)

lemma check_completions_ok:
  assumes inv: "inflight_ok fl own (rx_cs s) (rx_heap s)" and wf: "cq_wf (u_cq (rx_uring s))"
    and sub: "mset (map ce_user_data (cq_contents (u_cq (rx_uring s)) @ concat posts)) \<subseteq># fl"
    and park: "PARK \<in> ce_user_data ` set (cq_contents (u_cq (rx_uring s)) @ concat posts) \<Longrightarrow>
      0 < pipe_bytes (cs_park (rx_cs s))"
  shows "\<exists>es cq cs h. subseq es (concat posts) \<and>
    check_completions p posts s = Done (cq_contents (u_cq (rx_uring s)) @ es \<noteq> [],
      s\<lparr>rx_uring := (rx_uring s)\<lparr>u_cq := cq\<rparr>, rx_cs := cs, rx_heap := h\<rparr>) \<and>
    cq_wf cq \<and> cq_contents cq = [] \<and>
    inflight_ok (fl - mset (map ce_user_data (cq_contents (u_cq (rx_uring s)) @ es))) own cs h \<and>
    ofold (completion_body p) (cq_contents (u_cq (rx_uring s)) @ es) (False, rx_cs s, rx_heap s) =
      Done (cq_contents (u_cq (rx_uring s)) @ es \<noteq> [], cs, h) \<and>
    sh_pending (cs_park cs) = sh_pending (cs_park (rx_cs s)) \<and> sh_entered (cs_park cs) = sh_entered (cs_park (rx_cs s))"
proof -
  let ?q = "u_cq (rx_uring s)"
  obtain es cq rest where cq: "cq_wf cq" "cq_contents cq = []" and es: "subseq es (concat posts)"
    and loop: "\<And>body (st :: bool \<times> CompletionState \<times> 'a rc_heap). cq_for_each posts body st ?q =
       map_outcome (\<lambda>s'. (s', cq, rest)) (ofold body (cq_contents ?q @ es) st)"
    using cq_for_each_fold [OF wf, of posts] by (elim exE conjE) (rule that, auto)
  have "mset es \<subseteq># mset (concat posts)" by (rule subseq_mset_subset [OF es])
  then have "mset (map ce_user_data (cq_contents ?q @ es)) \<subseteq># mset (map ce_user_data (cq_contents ?q @ concat posts))"
    by (simp add: image_mset_subseteq_mono)
  then have sub': "mset (map ce_user_data (cq_contents ?q @ es)) \<subseteq># fl" using sub by (rule subset_mset.trans)
  have "set es \<subseteq> set (concat posts)" using es by (metis subseq_mset_subset set_mset_mset set_mset_mono)
  then have "ce_user_data ` set (cq_contents ?q @ es) \<subseteq> ce_user_data ` set (cq_contents ?q @ concat posts)" by auto
  then have park': "0 < pipe_bytes (cs_park (rx_cs s))" if "PARK \<in> ce_user_data ` set (cq_contents ?q @ es)"
    using park that by blast
  from completions_fold [OF inv sub' park', of p False] obtain cs h where
    "ofold (completion_body p) (cq_contents ?q @ es) (False, rx_cs s, rx_heap s) = Done (cq_contents ?q @ es \<noteq> [], cs, h)"
    "inflight_ok (fl - mset (map ce_user_data (cq_contents ?q @ es))) own cs h"
    "sh_pending (cs_park cs) = sh_pending (cs_park (rx_cs s))" "sh_entered (cs_park cs) = sh_entered (cs_park (rx_cs s))"
    by auto
  with loop cq es show ?thesis by (auto simp: check_completions_def)
qed

section \<open>Queueing requests\<close>

lemma inflight_size:
  assumes "inflight_ok fl own cs h"
  shows "Suc (size fl) < 2 ^ 64"
proof -
  have one: "count fl x = 1" if "x \<in># fl" for x
  proof -
    have "count fl TIMER \<le> 1" "count fl PARK \<le> 1" using assms by (simp_all add: inflight_ok_def)
    then have "count fl x \<le> 1" using inflightD(1) [OF assms that] by auto
    moreover have "count fl x \<noteq> 0" using that by (simp add: not_in_iff [symmetric])
    ultimately show ?thesis by linarith
  qed
  have "size fl = card (set_mset fl)" using one by (simp add: size_multiset_overloaded_eq)
  moreover have "set_mset fl \<subseteq> UNIV - {0, 5}"
    using inflightD(1,2) [OF assms] by (force simp: TIMER_def PARK_def registered_def)
  then have "card (set_mset fl) \<le> card (UNIV - {0, 5 :: u64})" by (intro card_mono) simp_all
  moreover have "card (UNIV - {0, 5 :: u64}) = 2 ^ 64 - 2" by (subst card_Diff_subset) (simp_all add: card_word)
  ultimately show ?thesis by simp
qed

lemma active_wait_inc:
  assumes "inflight_ok fl own cs h"
  shows "rust_add p (cs_active_wait cs) 1 = Done (cs_active_wait cs + 1)"
    "unat (cs_active_wait cs + 1) = Suc (size fl)"
proof -
  have n: "unat (cs_active_wait cs) = size fl" using assms by (simp add: inflight_ok_def)
  with inflight_size [OF assms] show "rust_add p (cs_active_wait cs) 1 = Done (cs_active_wait cs + 1)"
    by (simp add: rust_add_def)
  have "cs_active_wait cs + 1 \<noteq> 0"
  proof
    assume "cs_active_wait cs + 1 = 0"
    then have "cs_active_wait cs = - 1" by (simp add: eq_neg_iff_add_eq_0)
    with n inflight_size [OF assms] show False by (simp add: unsigned_minus_1_eq_mask mask_eq_exp_minus_1)
  qed
  then show "unat (cs_active_wait cs + 1) = Suc (size fl)" using n by (simp add: unatSuc add.commute)
qed

lemma inflight_add_special:
  assumes inv: "inflight_ok fl own cs h"
    and ud: "ud = TIMER \<and> cs_requeue_timer cs \<or> ud = PARK \<and> cs_requeue_park cs"
    and cs': "cs_active_wait cs' = cs_active_wait cs + 1"
      "cs_requeue_timer cs' = (cs_requeue_timer cs \<and> ud \<noteq> TIMER)"
      "cs_requeue_park cs' = (cs_requeue_park cs \<and> ud \<noteq> PARK)"
  shows "inflight_ok (add_mset ud fl) own cs' h"
proof -
  have c: "count fl TIMER = of_bool (\<not> cs_requeue_timer cs)" "count fl PARK = of_bool (\<not> cs_requeue_park cs)"
    and o: "owners_ok h (filter_mset registered fl + own)" using inv by (simp_all add: inflight_ok_def)
  have "x = TIMER \<or> x = PARK \<or> registered x \<and> count (add_mset ud fl) x = 1 \<and> unfinished h x"
    if "x \<in># add_mset ud fl" for x
    using that inflightD(1) [OF inv, of x] ud by auto
  moreover have "count (add_mset ud fl) TIMER = of_bool (\<not> cs_requeue_timer cs')"
    "count (add_mset ud fl) PARK = of_bool (\<not> cs_requeue_park cs')"
    using c cs' ud by auto
  moreover have "unat (cs_active_wait cs') = size (add_mset ud fl)" using active_wait_inc(2) [OF inv] cs'(1) by simp
  moreover have "owners_ok h (filter_mset registered (add_mset ud fl) + own)" using o ud by auto
  ultimately show ?thesis unfolding inflight_ok_def by blast
qed

lemma inflight_add_registered:
  assumes inv: "inflight_ok fl (add_mset a own) cs h"
    and a: "registered a" "a \<notin># fl" "unfinished h a"
    and cs': "cs_active_wait cs' = cs_active_wait cs + 1" "cs_requeue_timer cs' = cs_requeue_timer cs"
      "cs_requeue_park cs' = cs_requeue_park cs"
  shows "inflight_ok (add_mset a fl) own cs' h"
proof -
  have c: "count fl TIMER = of_bool (\<not> cs_requeue_timer cs)" "count fl PARK = of_bool (\<not> cs_requeue_park cs)"
    and o: "owners_ok h (filter_mset registered fl + add_mset a own)" using inv by (simp_all add: inflight_ok_def)
  have ne: "a \<noteq> TIMER" "a \<noteq> PARK" using a(1) by auto
  have "x = TIMER \<or> x = PARK \<or> registered x \<and> count (add_mset a fl) x = 1 \<and> unfinished h x"
    if "x \<in># add_mset a fl" for x
    using that inflightD(1) [OF inv, of x] a by (cases "x = a") (auto simp: not_in_iff)
  moreover have "count (add_mset a fl) TIMER = of_bool (\<not> cs_requeue_timer cs')"
    "count (add_mset a fl) PARK = of_bool (\<not> cs_requeue_park cs')"
    using c cs' ne by auto
  moreover have "unat (cs_active_wait cs') = size (add_mset a fl)" using active_wait_inc(2) [OF inv] cs'(1) by simp
  moreover have "owners_ok h (filter_mset registered (add_mset a fl) + own)" using o a(1) by simp
  ultimately show ?thesis unfolding inflight_ok_def by blast
qed

lemma inflight_cong:
  "inflight_ok fl own cs h \<Longrightarrow> cs_active_wait cs' = cs_active_wait cs \<Longrightarrow>
    cs_requeue_timer cs' = cs_requeue_timer cs \<Longrightarrow> cs_requeue_park cs' = cs_requeue_park cs \<Longrightarrow>
    inflight_ok fl own cs' h"
  by (simp add: inflight_ok_def)

lemma sq_uds_append [simp]: "sq_uds (xs @ ys) = sq_uds xs + sq_uds ys" "sq_uds [] = {#}"
    "sq_uds [e] = {#se_user_data e#}"
  by (simp_all add: sq_uds_def)

lemma cq_uds_append [simp]: "cq_uds (xs @ ys) = cq_uds xs + cq_uds ys" "cq_uds [] = {#}"
  by (simp_all add: cq_uds_def)

lemma cq_uds_mono: "subseq xs ys \<Longrightarrow> cq_uds xs \<subseteq># cq_uds ys"
  unfolding cq_uds_def mset_map by (intro image_mset_subseteq_mono subseq_mset_subset)

lemma in_cq_uds: "ud \<in># cq_uds es \<longleftrightarrow> ud \<in> ce_user_data ` set es"
  by (simp add: cq_uds_def)

text \<open>A pass over the completion queue keeps the reactor's invariant.\<close>

lemma rx_inv_check:
  assumes inv: "rx_inv k own s" and posts: "cq_uds (concat posts) \<subseteq># k"
    and park: "PARK \<in># cq_uds (concat posts) \<Longrightarrow> 0 < pipe_bytes (cs_park (rx_cs s))"
  shows "\<exists>b s' es. check_completions p posts s = Done (b, s') \<and> subseq es (concat posts) \<and>
    rx_inv (k - cq_uds es) own s' \<and> cq_contents (u_cq (rx_uring s')) = [] \<and>
    ofold (completion_body p) (cq_contents (u_cq (rx_uring s)) @ es) (False, rx_cs s, rx_heap s) =
      Done (b, rx_cs s', rx_heap s') \<and>
    cq_uds (cq_contents (u_cq (rx_uring s)) @ es) \<subseteq># rx_inflight k s \<and>
    rx_inflight (k - cq_uds es) s' = rx_inflight k s - cq_uds (cq_contents (u_cq (rx_uring s)) @ es)"
proof -
  let ?c = "cq_contents (u_cq (rx_uring s))"
  have wf: "cq_wf (u_cq (rx_uring s))" and i: "inflight_ok (rx_inflight k s) own (rx_cs s) (rx_heap s)"
    using inv by (auto simp: rx_inv_def)
  have "mset (map ce_user_data (?c @ concat posts)) = cq_uds ?c + cq_uds (concat posts)" by (simp add: cq_uds_def)
  also have "\<dots> \<subseteq># rx_inflight k s" using posts
    by (simp add: rx_inflight_def add.commute [of _ "cq_uds ?c"] subset_mset.add_increasing)
  finally have sub: "mset (map ce_user_data (?c @ concat posts)) \<subseteq># rx_inflight k s" .
  have pk: "0 < pipe_bytes (cs_park (rx_cs s))" if "PARK \<in> ce_user_data ` set (?c @ concat posts)"
    using that park inv by (auto simp: rx_inv_def in_cq_uds image_Un)
  from check_completions_ok [OF i wf sub pk, of p] obtain es cq cs h where
    es: "subseq es (concat posts)"
    and run: "check_completions p posts s = Done (?c @ es \<noteq> [],
        s\<lparr>rx_uring := (rx_uring s)\<lparr>u_cq := cq\<rparr>, rx_cs := cs, rx_heap := h\<rparr>)"
    and cq: "cq_wf cq" "cq_contents cq = []"
    and inv': "inflight_ok (rx_inflight k s - mset (map ce_user_data (?c @ es))) own cs h"
    and fold: "ofold (completion_body p) (?c @ es) (False, rx_cs s, rx_heap s) = Done (?c @ es \<noteq> [], cs, h)"
    by blast
  have "cq_uds es \<subseteq># k" using cq_uds_mono [OF es] posts by (rule subset_mset.trans)
  then have eq: "rx_inflight k s - mset (map ce_user_data (?c @ es)) =
      sq_uds (sq_contents (u_sq (rx_uring s))) + (k - cq_uds es)"
    by (intro multiset_eqI) (simp add: rx_inflight_def cq_uds_def mset_subset_eq_count)
  let ?s = "s\<lparr>rx_uring := (rx_uring s)\<lparr>u_cq := cq\<rparr>, rx_cs := cs, rx_heap := h\<rparr>"
  have fl: "rx_inflight (k - cq_uds es) ?s = rx_inflight k s - cq_uds (?c @ es)"
    using eq cq(2) by (simp add: rx_inflight_def cq_uds_def)
  have "rx_inv (k - cq_uds es) own ?s"
    using inv' cq inv unfolding rx_inv_def fl by (simp add: cq_uds_def)
  moreover have "cq_uds (?c @ es) \<subseteq># rx_inflight k s"
    using \<open>cq_uds es \<subseteq># k\<close> by (simp add: rx_inflight_def add.commute [of _ "cq_uds ?c"] subset_mset.add_increasing)
  ultimately show ?thesis using run es cq(2) fold fl by (intro exI [of _ "?c @ es \<noteq> []"] exI [of _ ?s] exI [of _ es]) simp
qed

section \<open>Parking\<close>

lemma rx_inv_threads:
  assumes "rx_inv k own s" "\<And>sh. pipe_bytes sh \<le> pipe_bytes (f sh)"
  shows "rx_inv k own (upd_park f s)"
proof -
  have "inflight_ok (rx_inflight k s) own (rx_cs (upd_park f s)) (rx_heap s)"
    by (rule inflight_cong [where cs = "rx_cs s"]) (use assms(1) in \<open>simp_all add: rx_inv_def upd_park_def\<close>)
  moreover have "pipe_bytes (cs_park (rx_cs s)) \<le> pipe_bytes (f (cs_park (rx_cs s)))" by (rule assms(2))
  ultimately show ?thesis using assms(1) by (auto simp: rx_inv_def rx_inflight_def upd_park_def)
qed

lemma queue_poll_cases:
  assumes wf: "sq_wf (u_sq (rx_uring s))" and inv: "inflight_ok fl own (rx_cs s) (rx_heap s)"
  defines "full \<equiv> length (sq_contents (u_sq (rx_uring s))) = sq_capacity (u_sq (rx_uring s))"
  shows "\<exists>sq e. sq_wf sq \<and> se_user_data e = ud \<and>
    sq_contents sq = sq_contents (u_sq (rx_uring s)) @ (if full then [] else [e]) \<and>
    queue_poll p lc fd ud s = Done (if full then (Err QueueFull, s\<lparr>rx_uring := (rx_uring s)\<lparr>u_sq := sq\<rparr>\<rparr>)
      else (Ok (), s\<lparr>rx_uring := (rx_uring s)\<lparr>u_sq := sq\<rparr>, rx_cs := (rx_cs s)\<lparr>cs_active_wait := cs_active_wait (rx_cs s) + 1\<rparr>\<rparr>))"
proof -
  let ?e = "(SubmissionEntry_poll_add zeroed_entry (FD fd) (PollFlags_IN lc))\<lparr>se_user_data := ud\<rparr>"
  let ?f = "\<lambda>_ entry. Done ((), (SubmissionEntry_poll_add entry (FD fd) (PollFlags_IN lc))\<lparr>se_user_data := ud\<rparr>,
      (Ok () :: (unit, unit) rresult))"
  obtain sq where "sq_wf sq"
    "sq_submit_one (u_sq (rx_uring s)) ?f () = Done (sq, if full then ((), Err QueueFull) else ((), Ok ()))"
    "sq_contents sq = sq_contents (u_sq (rx_uring s)) @ (if full then [] else [?e])"
    using sq_submit_one_cases [OF wf, of ?f "()" "()" ?e] by (auto simp: full_def)
  with active_wait_inc(1) [OF inv, of p] show ?thesis
    by (intro exI [of _ sq] exI [of _ ?e]) (simp add: queue_poll_def Let_def)
qed

text \<open>Queueing one of the reactor's own polls and clearing its requeue flag.\<close>

lemma rx_inv_queue_special:
  assumes inv: "rx_inv k own s"
    and ud: "ud = TIMER \<and> cs_requeue_timer (rx_cs s) \<or> ud = PARK \<and> cs_requeue_park (rx_cs s)"
  shows "(\<exists>s'. queue_poll p lc fd ud s = Done (Err QueueFull, s') \<and> rx_inv k own s' \<and>
      rx_cs s' = rx_cs s \<and> rx_heap s' = rx_heap s \<and> rx_inflight k s' = rx_inflight k s) \<or>
    (\<exists>s'. queue_poll p lc fd ud s = Done (Ok (), s') \<and>
      rx_inv k own (s'\<lparr>rx_cs := (rx_cs s')\<lparr>cs_requeue_timer := cs_requeue_timer (rx_cs s) \<and> ud \<noteq> TIMER,
        cs_requeue_park := cs_requeue_park (rx_cs s) \<and> ud \<noteq> PARK\<rparr>\<rparr>) \<and>
      rx_cs s' = (rx_cs s)\<lparr>cs_active_wait := cs_active_wait (rx_cs s) + 1\<rparr> \<and>
      rx_heap s' = rx_heap s \<and> rx_inflight k s' = add_mset ud (rx_inflight k s))"
proof -
  have wf: "sq_wf (u_sq (rx_uring s))" and i: "inflight_ok (rx_inflight k s) own (rx_cs s) (rx_heap s)"
    using inv by (auto simp: rx_inv_def)
  define full where "full \<longleftrightarrow> length (sq_contents (u_sq (rx_uring s))) = sq_capacity (u_sq (rx_uring s))"
  from queue_poll_cases [OF wf i, of ud p lc fd, folded full_def] obtain sq e where
    sq: "sq_wf sq" "se_user_data e = ud" "sq_contents sq = sq_contents (u_sq (rx_uring s)) @ (if full then [] else [e])"
    and run: "queue_poll p lc fd ud s = Done (if full then (Err QueueFull, s\<lparr>rx_uring := (rx_uring s)\<lparr>u_sq := sq\<rparr>\<rparr>)
      else (Ok (), s\<lparr>rx_uring := (rx_uring s)\<lparr>u_sq := sq\<rparr>, rx_cs := (rx_cs s)\<lparr>cs_active_wait := cs_active_wait (rx_cs s) + 1\<rparr>\<rparr>))"
    by blast
  show ?thesis
  proof (cases full)
    case True
    with sq run inv show ?thesis by (simp add: rx_inv_def rx_inflight_def)
  next
    case False
    let ?cs = "(rx_cs s)\<lparr>cs_active_wait := cs_active_wait (rx_cs s) + 1,
      cs_requeue_timer := cs_requeue_timer (rx_cs s) \<and> ud \<noteq> TIMER,
      cs_requeue_park := cs_requeue_park (rx_cs s) \<and> ud \<noteq> PARK\<rparr>"
    have "inflight_ok (add_mset ud (rx_inflight k s)) own ?cs (rx_heap s)"
      using ud by (intro inflight_add_special [OF i]) auto
    with False sq run inv show ?thesis by (simp add: rx_inv_def rx_inflight_def)
  qed
qed

lemma rx_inflight_cs [simp]: "rx_inflight k (s\<lparr>rx_cs := c\<rparr>) = rx_inflight k s"
  by (simp add: rx_inflight_def)

lemma rx_inv_prepare_park:
  assumes inv: "rx_inv k own s"
  shows "\<exists>w s'. prepare_park p lc s = Done (w, s') \<and> rx_inv k own s' \<and> rx_heap s' = rx_heap s \<and>
    rx_inflight k s' \<in> {rx_inflight k s, add_mset PARK (rx_inflight k s)}"
proof (cases "cs_requeue_park (rx_cs s)")
  case True
  then have "PARK = TIMER \<and> cs_requeue_timer (rx_cs s) \<or> PARK = PARK \<and> cs_requeue_park (rx_cs s)" by simp
  from rx_inv_queue_special [OF inv this, of p lc "Park_as_raw_fd (cs_park (rx_cs s))"] True
  show ?thesis by (elim disjE exE conjE) (auto simp: prepare_park_def queue_park_read_def)
next
  case False
  with inv show ?thesis by (auto simp: prepare_park_def)
qed

lemma rx_inv_timer_field [simp]:
  "rx_inv k own (s\<lparr>rx_timer := t, rx_cs := (rx_cs s)\<lparr>cs_timer_pending := b\<rparr>\<rparr>) = rx_inv k own s"
  by (simp add: rx_inv_def rx_inflight_def inflight_ok_def)

lemma rx_inv_prepare_timer:
  assumes inv: "rx_inv k own s" and t: "p = Debug \<Longrightarrow> timeout \<noteq> Some 0"
  shows "\<exists>w s'. prepare_timer p lc timeout s = Done (w, s') \<and> rx_inv k own s' \<and> rx_heap s' = rx_heap s \<and>
    rx_inflight k s' \<in> {rx_inflight k s, add_mset TIMER (rx_inflight k s)}"
proof -
  let ?s1 = "set_timer timeout s"
  have 1: "rx_inv k own ?s1" "rx_heap ?s1 = rx_heap s" "rx_inflight k ?s1 = rx_inflight k s"
    using inv by (auto simp: set_timer_def rx_inflight_def split: option.split)
  have eq: "prepare_timer p lc timeout s =
      (if cs_requeue_timer (rx_cs ?s1) then
         obind (queue_timer_poll p lc ?s1) (\<lambda>(r, s).
           Done (if is_err r then (False, s) else (True, s\<lparr>rx_cs := (rx_cs s)\<lparr>cs_requeue_timer := False\<rparr>\<rparr>)))
       else Done (True, ?s1))"
    using t by (simp add: prepare_timer_def rust_assert_def Let_def)
  show ?thesis
  proof (cases "cs_requeue_timer (rx_cs ?s1)")
    case True
    then have "TIMER = TIMER \<and> cs_requeue_timer (rx_cs ?s1) \<or> TIMER = PARK \<and> cs_requeue_park (rx_cs ?s1)" by simp
    from rx_inv_queue_special [OF 1(1) this, of p lc "rx_timerfd ?s1"] True 1
    show ?thesis by (elim disjE exE conjE) (auto simp: eq queue_timer_poll_def)
  next
    case False
    with 1 show ?thesis by (auto simp: eq)
  qed
qed

lemma rx_inv_cached_head:
  "rx_inv k own s \<Longrightarrow>
    rx_inv k own (s\<lparr>rx_uring := (rx_uring s)\<lparr>u_sq := (u_sq (rx_uring s))\<lparr>sq_cached_head := sq_k_head (u_sq (rx_uring s))\<rparr>\<rparr>\<rparr>)"
  by (simp add: rx_inv_def rx_inflight_def sq_refresh_wf)

text \<open>What a call of \<open>io_uring_enter\<close> does to the requests in flight: they move, none is lost.\<close>

lemma rx_inv_enter:
  assumes inv: "rx_inv k own s" and env: "enter_ok env k" "env_enter env n m fl (rx_uring s) = (r, u')"
    and thr: "threads_ok (env_threads env 2)"
  shows "\<exists>k'. rx_inv k' own (upd_park (env_threads env 2) (s\<lparr>rx_uring := u', rx_enters := es\<rparr>)) \<and>
    rx_inflight k' (s\<lparr>rx_uring := u', rx_enters := es\<rparr>) = rx_inflight k s \<and>
    cq_uds (concat (env_posts env 1)) \<subseteq># k' \<and>
    (PARK \<in># cq_uds (concat (env_posts env 1)) \<longrightarrow> 0 < pipe_bytes (env_threads env 2 (cs_park (rx_cs s))))"
proof -
  obtain taken posted where
    sqr: "transport_run sq_user_step sq_kernel_step (u_sq (rx_uring s)) [] taken (u_sq u')"
    and cqr: "transport_run cq_kernel_step cq_user_step (u_cq (rx_uring s)) posted [] (u_cq u')"
    and sub: "cq_uds posted + cq_uds (concat (env_posts env 1)) \<subseteq># k + sq_uds taken"
    and pk: "PARK \<in># cq_uds posted + cq_uds (concat (env_posts env 1)) \<longrightarrow> (\<forall>sh. 0 < pipe_bytes (env_threads env 2 sh))"
    using env unfolding enter_ok_def by blast
  have wf: "sq_wf (u_sq (rx_uring s))" "cq_wf (u_cq (rx_uring s))" using inv by (auto simp: rx_inv_def)
  have sq: "sq_wf (u_sq u')" "sq_contents (u_sq (rx_uring s)) = taken @ sq_contents (u_sq u')"
    using sq.run_invariant [OF sqr wf(1)] sq.run_fifo [OF sqr wf(1)] by auto
  have cq: "cq_wf (u_cq u')" "cq_contents (u_cq u') = cq_contents (u_cq (rx_uring s)) @ posted"
    using cq.run_invariant [OF cqr wf(2)] cq.run_fifo [OF cqr wf(2)] by auto
  define k' where "k' = k + sq_uds taken - cq_uds posted"
  let ?s = "s\<lparr>rx_uring := u', rx_enters := es\<rparr>"
  have le: "cq_uds posted \<subseteq># k + sq_uds taken"
    using sub by (meson mset_subset_eq_add_left subset_mset.trans)
  have same: "rx_inflight k' ?s = rx_inflight k s"
  proof (rule multiset_eqI)
    fix x
    from mset_subset_eq_count [OF le, of x] show "count (rx_inflight k' ?s) x = count (rx_inflight k s) x"
      by (simp add: rx_inflight_def sq cq k'_def)
  qed
  have bytes: "0 < pipe_bytes (env_threads env 2 (cs_park (rx_cs s)))" if "PARK \<in># cq_uds (cq_contents (u_cq u'))"
  proof -
    have "pipe_bytes (cs_park (rx_cs s)) \<le> pipe_bytes (env_threads env 2 (cs_park (rx_cs s)))"
      using thr by (simp add: threads_ok_def)
    then show ?thesis using that pk inv by (auto simp: cq rx_inv_def)
  qed
  have "inflight_ok (rx_inflight k s) own (rx_cs (upd_park (env_threads env 2) ?s)) (rx_heap s)"
    by (rule inflight_cong [where cs = "rx_cs s"]) (use inv in \<open>simp_all add: rx_inv_def upd_park_def\<close>)
  then have "rx_inv k' own (upd_park (env_threads env 2) ?s)"
    using sq(1) cq(1) bytes same by (simp add: rx_inv_def upd_park_def rx_inflight_def)
  moreover have "cq_uds (concat (env_posts env 1)) \<subseteq># k'"
  proof (rule mset_subset_eqI)
    fix x
    from mset_subset_eq_count [OF sub, of x]
    show "count (cq_uds (concat (env_posts env 1))) x \<le> count k' x" by (simp add: k'_def)
  qed
  ultimately show ?thesis using pk same by auto
qed

lemma upd_park_frame [simp]:
  "rx_heap (upd_park f s) = rx_heap s" "rx_inflight k (upd_park f s) = rx_inflight k s"
  by (simp_all add: upd_park_def rx_inflight_def)

lemma threads_bytes: "threads_ok f \<Longrightarrow> pipe_bytes sh \<le> pipe_bytes (f sh)"
  by (simp add: threads_ok_def)

lemma enter_drop_bytes:
  "threads_ok f \<Longrightarrow> pipe_bytes sh \<le> pipe_bytes (snd (Park_enter f sh))"
  "threads_ok f \<Longrightarrow> pipe_bytes sh \<le> pipe_bytes (ParkEntered_drop f sh)"
  using threads_bytes [of f "enter_store sh"] threads_bytes [of f "leave_store sh"]
  by (simp_all add: Park_enter_def ParkEntered_drop_def enter_store_def leave_store_def clear_unpark_def Let_def)

lemma rx_inv_guarded:
  assumes inv: "rx_inv k own s" and env: "enter_ok env k" and thr: "\<And>n. threads_ok (env_threads env n)"
    and run: "enter_guarded p env wait pending s = (r, s')"
  shows "\<exists>k'. rx_inv k' own s' \<and> rx_heap s' = rx_heap s \<and> rx_inflight k' s' = rx_inflight k s \<and> (r \<noteq> None \<longrightarrow> cq_uds (concat (env_posts env 1)) \<subseteq># k' \<and>
    (PARK \<in># cq_uds (concat (env_posts env 1)) \<longrightarrow> 0 < pipe_bytes (cs_park (rx_cs s'))))"
proof -
  obtain allow park where pe: "Park_enter (env_threads env 1) (cs_park (rx_cs s)) = (allow, park)" by fastforce
  let ?s1 = "upd_park (\<lambda>sh. snd (Park_enter (env_threads env 1) sh)) s"
  let ?drop = "upd_park (ParkEntered_drop (env_threads env 3))"
  have s1: "upd_park (\<lambda>_. park) s = ?s1" using pe by (simp add: upd_park_def)
  have inv1: "rx_inv k own ?s1" by (rule rx_inv_threads [OF inv]) (simp add: enter_drop_bytes thr)
  have drop: "rx_inv k2 own s2 \<Longrightarrow> rx_inv k2 own (?drop s2)" for k2 s2
    by (rule rx_inv_threads) (simp_all add: enter_drop_bytes thr)
  show ?thesis
  proof (cases "pending = 0 \<and> \<not> (allow \<and> wait)")
    case True
    then have "r = None" "s' = ?drop ?s1" using run pe s1 by (auto simp: enter_guarded_def split: if_splits)
    with drop [OF inv1] show ?thesis by auto
  next
    case False
    then obtain n m fl r' u' es where call: "env_enter env n m fl (rx_uring ?s1) = (r', u')"
      and s': "s' = ?drop (upd_park (env_threads env 2) (?s1\<lparr>rx_uring := u', rx_enters := es\<rparr>))"
      using run pe s1 by (auto simp: enter_guarded_def upd_park_def Let_def split: if_splits prod.splits)
    obtain k' where k': "rx_inv k' own (upd_park (env_threads env 2) (?s1\<lparr>rx_uring := u', rx_enters := es\<rparr>))"
      "rx_inflight k' (?s1\<lparr>rx_uring := u', rx_enters := es\<rparr>) = rx_inflight k ?s1"
      "cq_uds (concat (env_posts env 1)) \<subseteq># k'"
      "PARK \<in># cq_uds (concat (env_posts env 1)) \<longrightarrow> 0 < pipe_bytes (env_threads env 2 (cs_park (rx_cs ?s1)))"
      using rx_inv_enter [OF inv1 env call thr] by blast
    have "pipe_bytes (env_threads env 2 (cs_park (rx_cs ?s1))) \<le> pipe_bytes (cs_park (rx_cs s'))"
      using enter_drop_bytes(2) [OF thr [of 3]] unfolding s' by (simp add: upd_park_def)
    with k' drop [OF k'(1)] show ?thesis unfolding s' by (intro exI [of _ k']) auto
  qed
qed

lemma enter_ok_mono:
  assumes "enter_ok env (k - b)" "a \<subseteq># b"
  shows "enter_ok env (k - a)"
proof -
  have "k - b + x \<subseteq># k - a + x" for x
  proof (rule mset_subset_eqI)
    fix y show "count (k - b + x) y \<le> count (k - a + x) y" using mset_subset_eq_count [OF assms(2), of y] by simp
  qed
  then show ?thesis using assms(1) unfolding enter_ok_def by (meson subset_mset.trans)
qed

lemma rx_inv_pending:
  assumes inv: "rx_inv k own s"
  shows "(\<exists>n. sq_pending_submissions p (u_sq (rx_uring s)) =
      Done ((u_sq (rx_uring s))\<lparr>sq_cached_head := sq_k_head (u_sq (rx_uring s))\<rparr>, n)) \<or>
    p = Debug \<and> sq_pending_submissions p (u_sq (rx_uring s)) = Panic ''attempt to subtract with overflow''"
  by (auto simp: sq_pending_submissions_def sq_refresh_head_def rust_sub_def)

section \<open>Clients of the reactor\<close>

text \<open>
  A client keeps facts \<open>Q\<close> about registrations that depend on what is in flight, and may know which results \<open>Ans\<close> the kernel posts for a
  request. The reactor asks for two laws: the fact survives the completion of one registration with such a result, and it does not depend on the
  reactor's own polls. Then \<open>park_inner\<close> keeps the client's fact along with the reactor's invariant.
\<close>

definition entry_ans :: "(u64 \<Rightarrow> UringResult \<Rightarrow> bool) \<Rightarrow> CompletionEntry \<Rightarrow> bool" where
  "entry_ans Ans e \<longleftrightarrow> Ans (ce_user_data e) \<lparr>ur_result = ce_res e, ur_flags = ce_flags e\<rparr>"

definition ring_answers :: "(u64 \<Rightarrow> UringResult \<Rightarrow> bool) \<Rightarrow> 'd Reactor_Inner \<Rightarrow> bool" where
  "ring_answers Ans s \<longleftrightarrow> (\<forall>e \<in> set (cq_contents (u_cq (rx_uring s))). entry_ans Ans e)"

definition env_answers :: "(u64 \<Rightarrow> UringResult \<Rightarrow> bool) \<Rightarrow> rx_env \<Rightarrow> bool" where
  "env_answers Ans env \<longleftrightarrow> (\<forall>n. \<forall>e \<in> set (concat (env_posts env n)). entry_ans Ans e) \<and>
     (\<forall>n m fl u r u'. env_enter env n m fl u = (r, u') \<longrightarrow>
        (\<forall>e \<in> set (cq_contents (u_cq u')). e \<in> set (cq_contents (u_cq u)) \<or> entry_ans Ans e))"

lemma answers_True [simp]: "entry_ans (\<lambda>_ _. True) e" "ring_answers (\<lambda>_ _. True) s" "env_answers (\<lambda>_ _. True) env"
  by (simp_all add: entry_ans_def ring_answers_def env_answers_def)

lemma ring_answers_same: "u_cq (rx_uring s') = u_cq (rx_uring s) \<Longrightarrow> ring_answers Ans s' = ring_answers Ans s"
  by (simp add: ring_answers_def)

lemma upd_park_uring [simp]: "rx_uring (upd_park f s) = rx_uring s"
  by (simp add: upd_park_def)

lemma queue_poll_cq:
  assumes "queue_poll p lc fd ud s = Done (r, s')"
  shows "u_cq (rx_uring s') = u_cq (rx_uring s)"
proof -
  obtain sq r' where "sq_submit_one (u_sq (rx_uring s)) (\<lambda>_ entry. Done ((),
      (SubmissionEntry_poll_add entry (FD fd) (PollFlags_IN lc))\<lparr>se_user_data := ud\<rparr>, (Ok () :: (unit, unit) rresult))) () =
      Done (sq, (), r')"
    using assms unfolding queue_poll_def obind_Done_iff by auto
  with assms show ?thesis by (cases r'; auto simp: queue_poll_def Let_def)
qed

lemma prepare_cq:
  "prepare_timer p lc timeout s = Done (w, s') \<Longrightarrow> u_cq (rx_uring s') = u_cq (rx_uring s)"
  "prepare_park p lc s = Done (w, s') \<Longrightarrow> u_cq (rx_uring s') = u_cq (rx_uring s)"
proof -
  have t: "u_cq (rx_uring (set_timer timeout s)) = u_cq (rx_uring s)" by (simp add: set_timer_def split: option.split)
  show "prepare_timer p lc timeout s = Done (w, s') \<Longrightarrow> u_cq (rx_uring s') = u_cq (rx_uring s)"
    using t queue_poll_cq by (fastforce simp: prepare_timer_def queue_timer_poll_def Let_def split: if_splits)
  show "prepare_park p lc s = Done (w, s') \<Longrightarrow> u_cq (rx_uring s') = u_cq (rx_uring s)"
    using queue_poll_cq by (fastforce simp: prepare_park_def queue_park_read_def split: if_splits)
qed

lemma enter_guarded_answers:
  assumes "enter_guarded p env wait pending s = (r, s')" "env_answers Ans env" "ring_answers Ans s"
  shows "ring_answers Ans s'"
proof -
  have "rx_uring s' = rx_uring s \<or> (\<exists>n m fl r. env_enter env n m fl (rx_uring s) = (r, rx_uring s'))"
    using assms(1) by (auto simp: enter_guarded_def upd_park_def Let_def split: prod.splits if_splits)
  with assms(2,3) show ?thesis unfolding env_answers_def ring_answers_def by metis
qed

locale reactor_client =
  fixes Q :: "u64 multiset \<Rightarrow> 'd rc_heap \<Rightarrow> bool" and Ans :: "u64 \<Rightarrow> UringResult \<Rightarrow> bool"
  assumes complete: "Q fl h \<Longrightarrow> ud \<in># fl \<Longrightarrow> registered ud \<Longrightarrow> count fl ud = 1 \<Longrightarrow> unfinished h ud \<Longrightarrow> Ans ud r \<Longrightarrow>
      RawRegistration_notify ud r h = Done h1 \<Longrightarrow> rc_drop ud h1 = Done h2 \<Longrightarrow> Q (fl - {#ud#}) h2"
    and own_poll: "\<not> registered ud \<Longrightarrow> Q (add_mset ud fl) h = Q fl h"
begin

lemma client_handle:
  assumes inv: "inflight_ok fl own cs h" and ud: "ud \<in># fl" and Q: "Q fl h" and ans: "Ans ud r"
    and run: "handle_completion p ud r (cs, h) = Done (cs', h')"
  shows "Q (fl - {#ud#}) h'"
proof (cases "registered ud")
  case True
  then have "count fl ud = 1" "unfinished h ud" using inflightD(1) [OF inv ud] by auto
  moreover obtain h1 where "RawRegistration_notify ud r h = Done h1" "rc_drop ud h1 = Done h'"
    using run True by (auto simp: handle_completion_def registered_def from_user_data_def Let_def)
  ultimately show ?thesis using complete [OF Q ud True] ans by blast
next
  case False
  then have "ud = TIMER \<or> ud = PARK" using inflightD(1) [OF inv ud] by auto
  then have "h' = h" using run by (auto simp: handle_completion_def Let_def eq_commute [of 0])
  then show ?thesis using Q own_poll [OF False, of "fl - {#ud#}" h] ud by simp
qed

lemma client_fold:
  assumes "inflight_ok fl own cs h" "cq_uds es \<subseteq># fl" "Q fl h" "\<forall>e \<in> set es. entry_ans Ans e"
    and "ofold (completion_body p) es (b, cs, h) = Done (b', cs', h')"
  shows "Q (fl - cq_uds es) h'"
  using assms
proof (induction es arbitrary: fl cs h b)
  case (Cons e es)
  let ?ud = "ce_user_data e"
  have ud: "?ud \<in># fl" and sub: "cq_uds es \<subseteq># fl - {#?ud#}"
    using Cons.prems(2) by (simp_all add: cq_uds_def insert_subset_eq_iff)
  obtain cs1 h1 where 1: "handle_completion p ?ud \<lparr>ur_result = ce_res e, ur_flags = ce_flags e\<rparr> (cs, h) = Done (cs1, h1)"
    and rest: "ofold (completion_body p) es (True, cs1, h1) = Done (b', cs', h')"
    using Cons.prems(5) by (auto simp: obind_Done_iff dest!: completion_body_Done)
  have ans: "Ans ?ud \<lparr>ur_result = ce_res e, ur_flags = ce_flags e\<rparr>" "\<forall>e \<in> set es. entry_ans Ans e"
    using Cons.prems(4) by (simp_all add: entry_ans_def)
  have "inflight_ok (fl - {#?ud#}) own cs1 h1"
    using handle_completion_inflight [OF Cons.prems(1) ud 1] .
  from Cons.IH [OF this sub client_handle [OF Cons.prems(1) ud Cons.prems(3) ans(1) 1] ans(2) rest] show ?case
    by (simp add: cq_uds_def)
qed simp

lemma client_check:
  assumes inv: "rx_inv k own s" and Q: "Q (rx_inflight k s) (rx_heap s)" and posts: "cq_uds (concat posts) \<subseteq># k"
    and park: "PARK \<in># cq_uds (concat posts) \<Longrightarrow> 0 < pipe_bytes (cs_park (rx_cs s))"
    and ans: "ring_answers Ans s" "\<forall>e \<in> set (concat posts). entry_ans Ans e"
  shows "\<exists>b s' es. check_completions p posts s = Done (b, s') \<and> subseq es (concat posts) \<and>
    rx_inv (k - cq_uds es) own s' \<and> Q (rx_inflight (k - cq_uds es) s') (rx_heap s') \<and> ring_answers Ans s'"
proof -
  obtain b s' es where c: "check_completions p posts s = Done (b, s')" "subseq es (concat posts)"
    "rx_inv (k - cq_uds es) own s'" "cq_contents (u_cq (rx_uring s')) = []"
    and f: "ofold (completion_body p) (cq_contents (u_cq (rx_uring s)) @ es) (False, rx_cs s, rx_heap s) =
      Done (b, rx_cs s', rx_heap s')"
      "cq_uds (cq_contents (u_cq (rx_uring s)) @ es) \<subseteq># rx_inflight k s"
      "rx_inflight (k - cq_uds es) s' = rx_inflight k s - cq_uds (cq_contents (u_cq (rx_uring s)) @ es)"
    using rx_inv_check [OF inv posts park, of p] by blast
  have "inflight_ok (rx_inflight k s) own (rx_cs s) (rx_heap s)" using inv by (simp add: rx_inv_def)
  moreover have "\<forall>e \<in> set (cq_contents (u_cq (rx_uring s)) @ es). entry_ans Ans e"
    using ans list_emb_set [OF c(2)] unfolding ring_answers_def by (metis Un_iff set_append)
  moreover have "ring_answers Ans s'" using c(4) by (simp add: ring_answers_def)
  ultimately show ?thesis using client_fold [OF _ f(2) Q _ f(1)] c f(3) by auto
qed

lemma client_prepare:
  assumes inv: "rx_inv k own s" and Q: "Q (rx_inflight k s) (rx_heap s)" and t: "p = Debug \<Longrightarrow> timeout \<noteq> Some 0"
  shows "\<exists>w s'. (if b then prepare_timer p lc timeout s else Done (b, s)) = Done (w, s') \<and>
      rx_inv k own s' \<and> Q (rx_inflight k s') (rx_heap s')"
    and "\<exists>w s'. (if b then prepare_park p lc s else Done (b, s)) = Done (w, s') \<and>
      rx_inv k own s' \<and> Q (rx_inflight k s') (rx_heap s')"
  using rx_inv_prepare_timer [OF inv, of p timeout lc] rx_inv_prepare_park [OF inv, of p lc] inv Q t
    own_poll [OF user_data_kinds(7)] own_poll [OF user_data_kinds(8)] by (cases b; auto)+

text \<open>\<open>park_inner\<close> in all: the two branches of the final result.\<close>

lemma client_park_inner:
  assumes inv: "rx_inv k own s" and Q: "Q (rx_inflight k s) (rx_heap s)" and env: "env_ok env k (cs_park (rx_cs s))"
    and t: "p = Debug \<Longrightarrow> timeout \<noteq> Some 0" and ans: "ring_answers Ans s" "env_answers Ans env"
  shows "(\<exists>k' r s'. park_inner p lc env wait timeout s = Done (r, s') \<and> rx_inv k' own s' \<and>
      Q (rx_inflight k' s') (rx_heap s') \<and> ring_answers Ans s') \<or>
    p = Debug \<and> park_inner p lc env wait timeout s = Panic ''attempt to subtract with overflow''"
proof -
  have thr: "\<And>n. threads_ok (env_threads env n)"
    and p0: "cq_uds (concat (env_posts env 0)) \<subseteq># k"
      "PARK \<in># cq_uds (concat (env_posts env 0)) \<Longrightarrow> 0 < pipe_bytes (cs_park (rx_cs s))"
    and ent: "enter_ok env (k - cq_uds (concat (env_posts env 0)))"
    using env by (auto simp: env_ok_def)
  have posts: "\<forall>e \<in> set (concat (env_posts env n)). entry_ans Ans e" for n using ans(2) by (simp add: env_answers_def)
  obtain b s1 es where c1: "check_completions p (env_posts env 0) s = Done (b, s1)"
    and es: "subseq es (concat (env_posts env 0))" and inv1: "rx_inv (k - cq_uds es) own s1"
      "Q (rx_inflight (k - cq_uds es) s1) (rx_heap s1)" "ring_answers Ans s1"
    using client_check [OF inv Q p0 ans(1) posts, of p] by blast
  let ?k = "k - cq_uds es"
  have ent': "enter_ok env ?k" by (rule enter_ok_mono [OF ent cq_uds_mono [OF es]])
  let ?s2 = "upd_park (env_threads env 0) s1"
  have inv2: "rx_inv ?k own ?s2" "Q (rx_inflight ?k ?s2) (rx_heap ?s2)"
    using rx_inv_threads [OF inv1(1) threads_bytes [OF thr]] inv1(2) by simp_all
  define w2 where "w2 = (if Park_pending (cs_park (rx_cs ?s2)) then False else if b then False else wait)"
  obtain w3 s3 where 3: "(if w2 then prepare_timer p lc timeout ?s2 else Done (w2, ?s2)) = Done (w3, s3)"
    "rx_inv ?k own s3" "Q (rx_inflight ?k s3) (rx_heap s3)"
    using client_prepare(1) [OF inv2 t, where b = w2 and lc = lc] by blast
  obtain w4 s4 where 4: "(if w3 then prepare_park p lc s3 else Done (w3, s3)) = Done (w4, s4)" "rx_inv ?k own s4"
    "Q (rx_inflight ?k s4) (rx_heap s4)"
    using client_prepare(2) [OF 3(2,3) t, where b = w3 and lc = lc] by blast
  have "u_cq (rx_uring s4) = u_cq (rx_uring s1)"
    using 3(1) 4(1) prepare_cq(1) [of p lc timeout ?s2 w3 s3] prepare_cq(2) [of p lc s3 w4 s4] by (auto split: if_splits)
  then have a4: "ring_answers Ans s4" using ring_answers_same inv1(3) by blast
  let ?sq = "u_sq (rx_uring s4)"
  have run: "park_inner p lc env wait timeout s = obind (sq_pending_submissions p ?sq) (\<lambda>(sq, pending).
     let s = s4\<lparr>rx_uring := (rx_uring s4)\<lparr>u_sq := sq\<rparr>\<rparr>; (entered, s) = enter_guarded p env w4 pending s in
     case entered of
       None \<Rightarrow> Done (Ok (), s)
     | Some (Err e) \<Rightarrow> Done (Err e, s)
     | Some (Ok _) \<Rightarrow> obind (check_completions p (env_posts env 1) s) (\<lambda>(_, s). Done (Ok (), s)))"
    by (simp only: park_inner_def c1 obind.simps prod.case Let_def w2_def [symmetric] 3(1) 4(1))
  from rx_inv_pending [OF 4(2), of p] show ?thesis
  proof (elim disjE exE)
    fix n assume n: "sq_pending_submissions p ?sq = Done (?sq\<lparr>sq_cached_head := sq_k_head ?sq\<rparr>, n)"
    let ?s5 = "s4\<lparr>rx_uring := (rx_uring s4)\<lparr>u_sq := ?sq\<lparr>sq_cached_head := sq_k_head ?sq\<rparr>\<rparr>\<rparr>"
    obtain r s6 where g: "enter_guarded p env w4 n ?s5 = (r, s6)" by fastforce
    have "rx_inflight ?k ?s5 = rx_inflight ?k s4" "rx_heap ?s5 = rx_heap s4" by (simp_all add: rx_inflight_def)
    with 4(3) obtain k' where k': "rx_inv k' own s6" "Q (rx_inflight k' s6) (rx_heap s6)"
      "r \<noteq> None \<longrightarrow> cq_uds (concat (env_posts env 1)) \<subseteq># k' \<and>
        (PARK \<in># cq_uds (concat (env_posts env 1)) \<longrightarrow> 0 < pipe_bytes (cs_park (rx_cs s6)))"
      using rx_inv_guarded [OF rx_inv_cached_head [OF 4(2)] ent' thr g] by auto
    have a6: "ring_answers Ans s6" by (rule enter_guarded_answers [OF g ans(2)]) (use a4 in \<open>simp add: ring_answers_def\<close>)
    have "\<exists>b s7 es. check_completions p (env_posts env 1) s6 = Done (b, s7) \<and>
        rx_inv (k' - cq_uds es) own s7 \<and> Q (rx_inflight (k' - cq_uds es) s7) (rx_heap s7) \<and> ring_answers Ans s7" if "r \<noteq> None"
      using client_check [OF k'(1,2) _ _ a6 posts, of 1 p] k'(3) that by blast
    then show ?thesis using n g k'(1,2) a6 by (cases r) (auto simp: run split: rresult.split)
  next
    assume d: "p = Debug \<and> sq_pending_submissions p ?sq = Panic ''attempt to subtract with overflow''"
    then show ?thesis unfolding run conjunct2 [OF d] by simp
  qed
qed

end

text \<open>With no client facts at all, what remains is the reactor's own invariant.\<close>

interpretation no_client: reactor_client "\<lambda>fl h. True" "\<lambda>_ _. True"
  by unfold_locales simp_all

section \<open>When the reactor waits\<close>

lemma queue_poll_frame:
  assumes "queue_poll p lc fd ud s = Done (r, s')"
  shows "rx_enters s' = rx_enters s" "rx_timer s' = rx_timer s" "\<exists>n. rx_cs s' = (rx_cs s)\<lparr>cs_active_wait := n\<rparr>"
proof -
  obtain sq r' where "sq_submit_one (u_sq (rx_uring s)) (\<lambda>_ entry. Done ((),
      (SubmissionEntry_poll_add entry (FD fd) (PollFlags_IN lc))\<lparr>se_user_data := ud\<rparr>, (Ok () :: (unit, unit) rresult))) () =
      Done (sq, (), r')"
    using assms unfolding queue_poll_def obind_Done_iff by auto
  with assms show "rx_enters s' = rx_enters s" "rx_timer s' = rx_timer s" "\<exists>n. rx_cs s' = (rx_cs s)\<lparr>cs_active_wait := n\<rparr>"
    by (cases r'; auto simp: queue_poll_def Let_def intro: exI [of _ "cs_active_wait (rx_cs s)"])+
qed

lemma check_completions_frame:
  "check_completions p posts s = Done (b, s') \<Longrightarrow> rx_enters s' = rx_enters s \<and> rx_timer s' = rx_timer s"
  by (auto simp: check_completions_def)

lemma prepare_timer_armed:
  assumes "prepare_timer p lc timeout s = Done (w, s')"
  shows "rx_enters s' = rx_enters s \<and> cs_park (rx_cs s') = cs_park (rx_cs s) \<and>
    (w \<longrightarrow> \<not> cs_requeue_timer (rx_cs s') \<and> \<not> cs_timer_pending (rx_cs s') \<and>
       (\<forall>t. timeout = Some t \<longrightarrow> rx_timer s' = Oneshot t))"
proof -
  let ?s1 = "set_timer timeout s"
  have s1: "rx_enters ?s1 = rx_enters s" "cs_park (rx_cs ?s1) = cs_park (rx_cs s)"
    "\<not> cs_timer_pending (rx_cs ?s1)" "\<forall>t. timeout = Some t \<longrightarrow> rx_timer ?s1 = Oneshot t"
    by (auto simp: set_timer_def split: option.split)
  show ?thesis
  proof (cases "cs_requeue_timer (rx_cs ?s1)")
    case True
    then obtain r s2 where q: "queue_poll p lc (rx_timerfd ?s1) TIMER ?s1 = Done (r, s2)"
      and out: "(w, s') = (if is_err r then (False, s2) else (True, s2\<lparr>rx_cs := (rx_cs s2)\<lparr>cs_requeue_timer := False\<rparr>\<rparr>))"
      using assms by (auto simp: prepare_timer_def queue_timer_poll_def Let_def)
    from queue_poll_frame [OF q] out s1 show ?thesis by (auto split: if_splits)
  next
    case False
    with assms s1 show ?thesis by (auto simp: prepare_timer_def Let_def)
  qed
qed

lemma prepare_park_armed:
  assumes "prepare_park p lc s = Done (w, s')"
  shows "rx_enters s' = rx_enters s \<and> rx_timer s' = rx_timer s \<and> cs_park (rx_cs s') = cs_park (rx_cs s) \<and>
    cs_requeue_timer (rx_cs s') = cs_requeue_timer (rx_cs s) \<and> cs_timer_pending (rx_cs s') = cs_timer_pending (rx_cs s) \<and>
    (w \<longrightarrow> \<not> cs_requeue_park (rx_cs s'))"
proof (cases "cs_requeue_park (rx_cs s)")
  case True
  then obtain r s2 where q: "queue_poll p lc (Park_as_raw_fd (cs_park (rx_cs s))) PARK s = Done (r, s2)"
    and out: "(w, s') = (if is_err r then (False, s2) else (True, s2\<lparr>rx_cs := (rx_cs s2)\<lparr>cs_requeue_park := False\<rparr>\<rparr>))"
    using assms by (auto simp: prepare_park_def queue_park_read_def)
  from queue_poll_frame [OF q] out show ?thesis by (auto split: if_splits)
next
  case False
  with assms show ?thesis by (auto simp: prepare_park_def)
qed

lemma enter_guarded_call:
  assumes "enter_guarded p env wait pending s = (r, s')"
  shows "(r = None \<and> rx_enters s' = rx_enters s) \<or>
    (\<exists>call. r \<noteq> None \<and> rx_enters s' = rx_enters s @ [call] \<and> ec_to_submit call = pending \<and> ec_timer call = rx_timer s \<and>
      cs_requeue_timer (ec_state call) = cs_requeue_timer (rx_cs s) \<and>
      cs_requeue_park (ec_state call) = cs_requeue_park (rx_cs s) \<and>
      cs_timer_pending (ec_state call) = cs_timer_pending (rx_cs s) \<and>
      (if wait \<and> \<not> sh_pending (cs_park (ec_state call))
       then ec_min_complete call = 1 \<and> ec_flags call = EnterFlags_GETEVENTS
       else ec_min_complete call = 0 \<and> ec_flags call = EnterFlags_default \<and> pending \<noteq> 0))"
  using assms unfolding enter_guarded_def
  by (auto simp: Park_enter_def enter_load_def upd_park_def Let_def split: if_splits prod.splits)

end
