(* ===== verification/Reactor_Safety.thy ===== *)
theory Reactor_Safety
  imports Reactor
begin

text \<open>
  What the reactor guarantees: handling a completion never touches freed memory and never panics while
  the kernel completes only what is in flight; \<open>park\<close> keeps the accounting of requests in flight in
  every environment and waits only when it can be woken; a request is queued, or refused with its
  handle released; construction establishes the invariant and leaks nothing.
\<close>

section \<open>Example states\<close>

text \<open>
  A reactor with a timer and a park completion in its completion ring, one registration held twice by
  futures, and an environment in which nothing else happens.
\<close>

definition demo_cs :: CompletionState where
  "demo_cs = \<lparr>cs_requeue_timer = False, cs_timer_pending = False, cs_requeue_park = False,
     cs_active_wait = 2, cs_park = demo_park\<lparr>pipe_bytes := 1\<rparr>\<rparr>"

definition demo_rx :: "nat Reactor_Inner" where
  "demo_rx = \<lparr>rx_uring = \<lparr>u_file = UringFile 3, u_sq = sample_sq,
       u_sq_mmaps = (\<lparr>mm_addr = 0x1000, mm_len = 64\<rparr>, \<lparr>mm_addr = 0x2000, mm_len = 128\<rparr>),
       u_cq = sample_cq, u_cq_mmap = \<lparr>mm_addr = 0x3000, mm_len = 64\<rparr>\<rparr>,
     rx_cs = demo_cs, rx_timerfd = 6, rx_timer = Disarmed, rx_read_buf = \<lparr>fp_ptr = 0x4000, fp_len = 32\<rparr>,
     rx_read_iovec = iovec_empty, rx_heap = demo_heap, rx_enters = []\<rparr>"

definition quiet_env :: rx_env where
  "quiet_env = \<lparr>env_posts = (\<lambda>_. []), env_enter = (\<lambda>n m fl u. (Ok (), u)), env_threads = (\<lambda>_ sh. sh)\<rparr>"

definition demo_lc :: libc_poll where
  "demo_lc = \<lparr>libc_POLLIN = 1, libc_POLLOUT = 4, libc_POLLPRI = 2, libc_POLLERR = 8, libc_POLLNVAL = 0x20, libc_POLLRDNORM = 0x40,
     libc_POLLRDBAND = 0x80, libc_POLLWRNORM = 0x100, libc_POLLWRBAND = 0x200, libc_POLLHUP = 0x10\<rparr>"

text \<open>Whether \<open>park_inner\<close> still intends to wait after its first pass over the completions.\<close>

definition park_wait :: "rx_env \<Rightarrow> bool \<Rightarrow> bool \<Rightarrow> 'd Reactor_Inner \<Rightarrow> bool" where
  "park_wait env received wait s1 =
     (if Park_pending (cs_park (rx_cs (upd_park (env_threads env 0) s1))) then False
      else if received then False else wait)"

lemma sample_cq_contents: "cq_contents sample_cq =
    [\<lparr>ce_user_data = TIMER, ce_res = 1, ce_flags = 0\<rparr>, \<lparr>ce_user_data = PARK, ce_res = 1, ce_flags = 0\<rparr>]"
  by (simp add: cq_contents_def ring_view_def ring_dist_def slot_def sample_cq_def TIMER_def PARK_def upt_rec)

lemma sample_cq_uds: "cq_uds (cq_contents sample_cq) = {#TIMER, PARK#}"
  by (simp add: cq_uds_def sample_cq_contents)

lemma demo_rx_inv: "rx_inv {#} {#0x1000, 0x1000#} demo_rx"
proof -
  have "sq_contents sample_sq = []" by (simp add: sq_contents_def ring_dist_def sample_sq_def)
  then have fl: "rx_inflight {#} demo_rx = {#TIMER, PARK#}"
    by (simp add: rx_inflight_def demo_rx_def sample_cq_uds)
  have "inflight_ok {#TIMER, PARK#} {#0x1000, 0x1000#} demo_cs demo_heap"
    by (simp add: inflight_ok_def demo_cs_def demo_heap_owners)
  then show ?thesis
    unfolding rx_inv_def fl using sample_sq_wf sample_cq_wf by (simp add: demo_rx_def demo_cs_def)
qed

lemma quiet_env_ok: "env_ok quiet_env k park"
  by (auto simp: env_ok_def enter_ok_def quiet_env_def threads_ok_def cq_uds_def
      intro!: exI [of _ "[]"] transport_run.run_start)

text \<open>
  Resources of the reactor's construction: besides those of the ring, a successful \<open>pipe2\<close> acquires
  both ends, \<open>TimerFd::new\<close> its descriptor, and \<open>fcntl\<close> neither acquires nor releases anything.
\<close>

definition posix_accounting ::
  "('w, 'z) posix_scheme \<Rightarrow> ('w \<Rightarrow> (i32, io_error) rresult \<times> 'w) \<Rightarrow> ('w \<Rightarrow> resource multiset) \<Rightarrow> bool"
where
  "posix_accounting os timerfd_new held \<longleftrightarrow> os_accounting os held \<and>
     (\<forall>fl w res r wr w'. px_pipe2 os fl w = ((res, r, wr), w') \<longrightarrow>
        held w' = held w + (if res = 0 then {#ResFd r, ResFd wr#} else {#})) \<and>
     (\<forall>fd cmd arg w. held (snd (px_fcntl os fd cmd arg w)) = held w) \<and>
     (\<forall>w r w'. timerfd_new w = (r, w') \<longrightarrow>
        held w' = held w + (case r of Ok fd \<Rightarrow> {#ResFd fd#} | Err e \<Rightarrow> {#}))"

definition reactor_resources :: "'d Reactor_Inner \<Rightarrow> resource multiset" where
  "reactor_resources s = uring_resources (rx_uring s) +
     {#ResFd (pk_read_fd (cs_park (rx_cs s))), ResFd (sh_write_fd (cs_park (rx_cs s))), ResFd (rx_timerfd s)#}"

definition demo_posix2 :: "demo_world posix" where
  "demo_posix2 = os.extend (demo_os False) (posix.fields
     (\<lambda>fl w. ((0, 4, 5), w\<lparr>dw_held := dw_held w + {#ResFd 4, ResFd 5#}\<rparr>)) (\<lambda>fd cmd arg w. (0, w)) 0x80000 0x800 3 4)"

definition demo_timerfd :: "demo_world \<Rightarrow> (i32, io_error) rresult \<times> demo_world" where
  "demo_timerfd w = (Err (RawOsError 24), w)"

section \<open>Queueing a request for a registration\<close>

lemma inflight_drop_handle:
  assumes inv: "inflight_ok fl (add_mset a own) cs h" and a: "a \<notin># fl"
  shows "\<exists>h'. rc_drop a h = Done h' \<and> inflight_ok fl own cs h' \<and> rh_woken h' = rh_woken h"
proof -
  have o: "owners_ok h (filter_mset registered fl + add_mset a own)" using inv by (simp add: inflight_ok_def)
  from rc_drop_owned [OF o, of a] obtain h' where
    h': "rc_drop a h = Done h'" "owners_ok h' (filter_mset registered fl + own)" by auto
  have "unfinished h' x" if "x \<in># fl" "unfinished h x" for x
    using that a rc_drop_frame(1) [OF h'(1), of x] unfinished_frame by metis
  with inv h'(2) have "inflight_ok fl own cs h'" unfolding inflight_ok_def by blast
  with h'(1) rc_drop_frame(2) [OF h'(1)] show ?thesis by blast
qed

lemma queue_registered_cases:
  assumes inv: "rx_inv k (add_mset a own) s"
    and a: "registered a" "a \<notin># rx_inflight k s" "unfinished (rx_heap s) a"
  defines "sq \<equiv> u_sq (rx_uring s)"
  shows "if length (sq_contents sq) = sq_capacity sq
    then \<exists>s'. queue_registered p fill a s = Done (Err (CustomError KindOther ''submission queue full''), s') \<and>
      rx_inv k own s' \<and> sq_contents (u_sq (rx_uring s')) = sq_contents sq \<and> rx_inflight k s' = rx_inflight k s \<and>
      rx_cs s' = rx_cs s \<and> rc_drop a (rx_heap s) = Done (rx_heap s')
    else \<exists>s'. queue_registered p fill a s = Done (Ok (), s') \<and> rx_inv k own s' \<and>
      sq_contents (u_sq (rx_uring s')) = sq_contents sq @ [(fill zeroed_entry)\<lparr>se_user_data := a\<rparr>] \<and>
      rx_inflight k s' = add_mset a (rx_inflight k s) \<and>
      unat (cs_active_wait (rx_cs s')) = Suc (unat (cs_active_wait (rx_cs s))) \<and> rx_heap s' = rx_heap s"
proof -
  have wf: "sq_wf sq" and i: "inflight_ok (rx_inflight k s) (add_mset a own) (rx_cs s) (rx_heap s)"
    using inv by (auto simp: rx_inv_def sq_def)
  let ?e = "(fill zeroed_entry)\<lparr>se_user_data := a\<rparr>"
  let ?f = "\<lambda>(_ :: bool) entry. obind (into_user_data a) (\<lambda>ud. Done (True, (fill entry)\<lparr>se_user_data := ud\<rparr>, (Ok () :: (unit, unit) rresult)))"
  define full where "full \<longleftrightarrow> length (sq_contents sq) = sq_capacity sq"
  have "?f False zeroed_entry = Done (True, ?e, Ok ())" using a(1) by (simp add: into_user_data_def registered_def rust_assert_def)
  from sq_submit_one_cases [where f = ?f, OF wf this, folded full_def] obtain q' where q': "sq_wf q'"
    "sq_submit_one sq ?f False = Done (q', if full then (False, Err QueueFull) else (True, Ok ()))"
    "sq_contents q' = sq_contents sq @ (if full then [] else [?e])"
    by auto
  show ?thesis
  proof (cases full)
    case True
    obtain h' where h': "rc_drop a (rx_heap s) = Done h'" "inflight_ok (rx_inflight k s) own (rx_cs s) h'"
      using inflight_drop_handle [OF i a(2)] by blast
    let ?s = "s\<lparr>rx_uring := (rx_uring s)\<lparr>u_sq := q'\<rparr>, rx_heap := h'\<rparr>"
    have "queue_registered p fill a s = Done (Err (CustomError KindOther ''submission queue full''), ?s)"
      using True q'(2) h'(1) by (simp add: queue_registered_def sq_full_map_err_def Let_def flip: sq_def)
    moreover have "rx_inflight k ?s = rx_inflight k s" using True q'(3) by (simp add: rx_inflight_def sq_def)
    moreover from this have "rx_inv k own ?s" using q'(1) h'(2) inv unfolding rx_inv_def by simp
    ultimately show ?thesis using True q'(3) h'(1) by (simp flip: full_def)
  next
    case False
    let ?cs = "(rx_cs s)\<lparr>cs_active_wait := cs_active_wait (rx_cs s) + 1\<rparr>"
    let ?s = "s\<lparr>rx_uring := (rx_uring s)\<lparr>u_sq := q'\<rparr>, rx_cs := ?cs\<rparr>"
    have "queue_registered p fill a s = Done (Ok (), ?s)"
      using False q'(2) active_wait_inc(1) [OF i, of p] by (simp add: queue_registered_def Let_def flip: sq_def)
    moreover have fl: "rx_inflight k ?s = add_mset a (rx_inflight k s)" using False q'(3) by (simp add: rx_inflight_def sq_def)
    moreover have "inflight_ok (add_mset a (rx_inflight k s)) own ?cs (rx_heap s)"
      by (rule inflight_add_registered [OF i a]) simp_all
    with fl have "rx_inv k own ?s" using q'(1) inv unfolding rx_inv_def by simp
    moreover have "unat (cs_active_wait (rx_cs ?s)) = Suc (unat (cs_active_wait (rx_cs s)))"
      using active_wait_inc(2) [OF i] i by (simp add: inflight_ok_def)
    ultimately show ?thesis using False q'(3) by (simp flip: full_def)
  qed
qed

section \<open>The phases of \<open>park_inner\<close>\<close>

lemma park_inner_phases:
  assumes "park_inner p lc env wait timeout s = Done (r, s')"
  obtains b s1 w3 s3 w4 s4 sq n e s6 where "check_completions p (env_posts env 0) s = Done (b, s1)"
    "(if park_wait env b wait s1 then prepare_timer p lc timeout (upd_park (env_threads env 0) s1)
      else Done (park_wait env b wait s1, upd_park (env_threads env 0) s1)) = Done (w3, s3)"
    "(if w3 then prepare_park p lc s3 else Done (w3, s3)) = Done (w4, s4)"
    "sq_pending_submissions p (u_sq (rx_uring s4)) = Done (sq, n)"
    "enter_guarded p env w4 n (s4\<lparr>rx_uring := (rx_uring s4)\<lparr>u_sq := sq\<rparr>\<rparr>) = (e, s6)"
    "(case e of None \<Rightarrow> Done (Ok (), s6) | Some (Err x) \<Rightarrow> Done (Err x, s6)
     | Some (Ok _) \<Rightarrow> obind (check_completions p (env_posts env 1) s6) (\<lambda>(_, s). Done (Ok (), s))) = Done (r, s')"
proof -
  obtain b s1 where c1: "check_completions p (env_posts env 0) s = Done (b, s1)"
    using assms by (auto simp: park_inner_def)
  note unf = park_inner_def c1 obind.simps prod.case Let_def park_wait_def [symmetric] obind_Done_iff
  let ?s2 = "upd_park (env_threads env 0) s1"
  obtain w3 s3 where 3: "(if park_wait env b wait s1 then prepare_timer p lc timeout ?s2
      else Done (park_wait env b wait s1, ?s2)) = Done (w3, s3)"
    using assms unfolding unf by (elim exE conjE) (metis surj_pair)
  obtain w4 s4 where 4: "(if w3 then prepare_park p lc s3 else Done (w3, s3)) = Done (w4, s4)"
    using assms unfolding unf 3 by (elim exE conjE) (metis surj_pair)
  obtain sq n where q: "sq_pending_submissions p (u_sq (rx_uring s4)) = Done (sq, n)"
    using assms unfolding unf 3 4 by (elim exE conjE) (metis surj_pair)
  obtain e s6 where g: "enter_guarded p env w4 n (s4\<lparr>rx_uring := (rx_uring s4)\<lparr>u_sq := sq\<rparr>\<rparr>) = (e, s6)" by fastforce
  show ?thesis by (rule that [OF c1 3 4 q g]) (use assms in \<open>simp only: unf 3 4 q g\<close>)
qed

section \<open>Properties\<close>

text \<open>
  C6. A completion is handled safely. When it belongs to a request in flight (and, for the park poll,
  the pipe is readable), \<open>handle_completion\<close> neither panics nor touches freed memory nor blocks: the
  wait counter does not underflow, the registration still exists and was not completed before. Exactly
  that request stops being in flight, and a future that still holds the registration finds the kernel's
  result in it.
\<close>

theorem handle_completion_safe:
  assumes "inflight_ok fl own cs h" "ud \<in># fl"
    and "ud = PARK \<Longrightarrow> 0 < pipe_bytes (cs_park cs)"
  shows "\<exists>cs' h'. handle_completion p ud r (cs, h) = Done (cs', h') \<and> inflight_ok (fl - {#ud#}) own cs' h' \<and>
    (\<forall>n i. registered ud \<longrightarrow> ud \<in># own \<longrightarrow> rh_cells h ud = Some (n, i) \<longrightarrow>
       rh_cells h' ud = Some (n - 1, i\<lparr>ri_finished := True, ri_result := r, ri_waker := Empty\<rparr>))"
proof (cases "registered ud")
  case True
  then show ?thesis using handle_registered [OF assms(1,2), of p r] by auto
next
  case False
  with handle_completion_ok [OF assms, of p r] show ?thesis by blast
qed

theorem handle_completion_safe_witness:
  "\<exists>cs' h'. handle_completion Debug PARK \<lparr>ur_result = 1, ur_flags = 0\<rparr> (demo_cs, demo_heap) = Done (cs', h') \<and>
     inflight_ok {#TIMER#} {#0x1000, 0x1000#} cs' h'"
proof -
  have "inflight_ok {#TIMER, PARK#} {#0x1000, 0x1000#} demo_cs demo_heap"
    by (simp add: inflight_ok_def demo_cs_def demo_heap_owners)
  moreover have "0 < pipe_bytes (cs_park demo_cs)" by (simp add: demo_cs_def)
  ultimately show ?thesis
    using handle_completion_safe [of "{#TIMER, PARK#}" "{#0x1000, 0x1000#}" demo_cs demo_heap PARK Debug
        "\<lparr>ur_result = 1, ur_flags = 0\<rparr>"] by auto
qed



text \<open>
  C15. The reactor waits only when it can be woken. \<open>park_inner\<close> makes at most one \<open>io_uring_enter\<close>
  call. A call that waits (one completion, \<open>GETEVENTS\<close>) is made only when the caller asked for it, the
  first pass over the completion queue found nothing, neither the timer poll nor the park poll needs
  requeueing, no \<open>unpark\<close> is pending at the second look after \<open>entered\<close> was set, and the timer is set
  to the requested timeout. Any other call only submits, and is made only when there is something to
  submit. Without a call the result is \<open>Ok\<close>.
\<close>

theorem park_waits_only_when_armed:
  assumes "park_inner p lc env wait timeout s = Done (r, s')"
  shows "(rx_enters s' = rx_enters s \<and> r = Ok ()) \<or>
    (\<exists>call. rx_enters s' = rx_enters s @ [call] \<and>
      (ec_min_complete call = 0 \<and> ec_flags call = EnterFlags_default \<and> ec_to_submit call \<noteq> 0 \<or>
       ec_min_complete call = 1 \<and> ec_flags call = EnterFlags_GETEVENTS \<and> wait \<and>
       (\<exists>s1. check_completions p (env_posts env 0) s = Done (False, s1)) \<and>
       \<not> cs_requeue_timer (ec_state call) \<and> \<not> cs_requeue_park (ec_state call) \<and>
       \<not> sh_pending (cs_park (ec_state call)) \<and> \<not> cs_timer_pending (ec_state call) \<and>
       (\<forall>t. timeout = Some t \<longrightarrow> ec_timer call = Oneshot t)))"
proof -
  obtain b s1 w3 s3 w4 s4 sq n e s6 where c1: "check_completions p (env_posts env 0) s = Done (b, s1)"
    and 3: "(if park_wait env b wait s1 then prepare_timer p lc timeout (upd_park (env_threads env 0) s1)
      else Done (park_wait env b wait s1, upd_park (env_threads env 0) s1)) = Done (w3, s3)"
    and 4: "(if w3 then prepare_park p lc s3 else Done (w3, s3)) = Done (w4, s4)"
    and "sq_pending_submissions p (u_sq (rx_uring s4)) = Done (sq, n)"
    and g: "enter_guarded p env w4 n (s4\<lparr>rx_uring := (rx_uring s4)\<lparr>u_sq := sq\<rparr>\<rparr>) = (e, s6)"
    and run: "(case e of None \<Rightarrow> Done (Ok (), s6) | Some (Err x) \<Rightarrow> Done (Err x, s6)
     | Some (Ok _) \<Rightarrow> obind (check_completions p (env_posts env 1) s6) (\<lambda>(_, s). Done (Ok (), s))) = Done (r, s')"
    using assms by (rule park_inner_phases)
  let ?s2 = "upd_park (env_threads env 0) s1"
  have log: "rx_enters s' = rx_enters s6" "e = None \<longrightarrow> r = Ok ()"
    using run check_completions_frame [of p "env_posts env 1" s6] by (auto split: option.splits rresult.splits)
  have en: "rx_enters s4 = rx_enters s"
    using 3 4 prepare_timer_armed [of p lc timeout ?s2 w3 s3] prepare_park_armed [of p lc s3 w4 s4]
      check_completions_frame [OF c1] by (auto simp: upd_park_def split: if_splits)
  have armed: "wait \<and> \<not> b \<and> \<not> cs_requeue_timer (rx_cs s4) \<and> \<not> cs_requeue_park (rx_cs s4) \<and>
      \<not> cs_timer_pending (rx_cs s4) \<and> (\<forall>t. timeout = Some t \<longrightarrow> rx_timer s4 = Oneshot t)" if "w4"
    using that 3 4 prepare_timer_armed [of p lc timeout ?s2 w3 s3] prepare_park_armed [of p lc s3 w4 s4]
    by (auto simp: park_wait_def split: if_splits)
  show ?thesis using enter_guarded_call [OF g] log en armed c1 by (auto split: if_splits)
qed

theorem park_waits_only_when_armed_witness:
  "\<exists>r s'. park_inner Release demo_lc quiet_env True None demo_rx = Done (r, s') \<and>
     (rx_enters s' = rx_enters demo_rx \<or> (\<exists>call. rx_enters s' = rx_enters demo_rx @ [call]))"
proof -
  obtain r s' where run: "park_inner Release demo_lc quiet_env True None demo_rx = Done (r, s')"
    using no_client.client_park_inner [OF demo_rx_inv TrueI quiet_env_ok, of Release None demo_lc True] by auto
  from park_waits_only_when_armed [OF run] run show ?thesis by blast
qed

text \<open>
  C17. Queueing a read, a write or a poll for a registration. If the ring is full the caller gets
  \<open>submission queue full\<close>, nothing is queued or counted, and the raw handle passed in is dropped.
  Otherwise exactly one entry is appended and published, carrying the operation's arguments and the
  registration's address, the request is in flight and counted, and the handle now belongs to it. Both
  ways the reactor's invariant is kept.
\<close>

theorem queue_async_operations:
  assumes "rx_inv k (add_mset a own) s" "registered a" "a \<notin># rx_inflight k s" "unfinished (rx_heap s) a"
    and "(op, rq) \<in> {(queue_async_read p fd off iov, ReqReadv PrioNone (FD fd) off ReadWriteFlags_default iov),
      (queue_async_write p fd off iov, ReqWritev PrioNone (FD fd) off ReadWriteFlags_default iov),
      (queue_async_poll p fd pfl, ReqPollAdd (FD fd) pfl)}"
  shows "if length (sq_contents (u_sq (rx_uring s))) = sq_capacity (u_sq (rx_uring s))
    then \<exists>s'. op a s = Done (Err (CustomError KindOther ''submission queue full''), s') \<and> rx_inv k own s' \<and>
      rx_inflight k s' = rx_inflight k s \<and> rx_cs s' = rx_cs s \<and> rc_drop a (rx_heap s) = Done (rx_heap s')
    else \<exists>s'. op a s = Done (Ok (), s') \<and> rx_inv k own s' \<and>
      sq_contents (u_sq (rx_uring s')) =
        sq_contents (u_sq (rx_uring s)) @ [(fill_entry zeroed_entry rq)\<lparr>se_user_data := a\<rparr>] \<and>
      rx_inflight k s' = add_mset a (rx_inflight k s) \<and>
      unat (cs_active_wait (rx_cs s')) = Suc (unat (cs_active_wait (rx_cs s)))"
proof -
  have "op a s = queue_registered p (\<lambda>e. fill_entry e rq) a s"
    using assms(5) by (auto simp: queue_async_read_def queue_async_write_def queue_async_poll_def)
  with queue_registered_cases [OF assms(1-4), of p "\<lambda>e. fill_entry e rq"] show ?thesis by (auto split: if_splits)
qed

lemma demo_heap_unfinished: "unfinished demo_heap 0x1000"
  by (simp add: unfinished_def demo_heap_def RegInner_default_def)

theorem queue_async_operations_witness:
  "\<exists>s'. queue_async_read Debug 9 0 \<lparr>fp_ptr = 0x5000, fp_len = 1\<rparr> 0x1000 demo_rx = Done (Ok (), s') \<and>
     rx_inv {#} {#0x1000#} s' \<and> rx_inflight {#} s' = add_mset 0x1000 (rx_inflight {#} demo_rx)"
proof -
  let ?iov = "\<lparr>fp_ptr = 0x5000, fp_len = 1\<rparr>"
  have sq: "sq_contents sample_sq = []" "sq_capacity sample_sq = 2"
    by (simp_all add: sq_contents_def ring_dist_def sq_capacity_def sample_sq_def)
  then have fl: "rx_inflight {#} demo_rx = {#TIMER, PARK#}"
    by (simp add: rx_inflight_def demo_rx_def sample_cq_uds)
  have a: "registered (0x1000 :: u64)" "0x1000 \<notin># rx_inflight {#} demo_rx" "unfinished (rx_heap demo_rx) 0x1000"
    unfolding fl by (simp_all add: registered_def TIMER_def PARK_def demo_rx_def demo_heap_unfinished)
  have m: "rx_inv {#} (add_mset 0x1000 {#0x1000#}) demo_rx" by (rule demo_rx_inv)
  from queue_async_operations [OF m a, of "queue_async_read Debug 9 0 ?iov" "ReqReadv PrioNone (FD 9) 0 ReadWriteFlags_default ?iov"
      Debug 9 0 ?iov 0] sq show ?thesis by (auto simp: demo_rx_def)
qed

section \<open>Construction\<close>

lemma Uring_drop_accounting:
  assumes acc: "os_accounting os held" and maps: "uring_maps_ok u"
  shows "held (Uring_drop os u w) = held w - uring_resources u"
proof -
  obtain m m' where m: "u_sq_mmaps u = (m, m')" by (cases "u_sq_mmaps u")
  show ?thesis
    using maps unfolding uring_maps_ok_def
    by (simp add: m Uring_drop_def UringFile_drop_def SubmissionQueue_drop_def Let_def drop_accounting [OF acc]
        os_accountingD(4) [OF acc] uring_resources_def map_res_def add_mset_commute)
qed

lemma CompletionState_new_accounting:
  assumes acc: "posix_accounting os tn held" and new: "CompletionState_new os cap w = (r, w')"
  shows "held w' = held w + (case r of Ok cs \<Rightarrow>
    {#ResFd (pk_read_fd (cs_park cs)), ResFd (sh_write_fd (cs_park cs))#} | Err e \<Rightarrow> {#})"
proof -
  obtain res a b w1 where p: "px_pipe2 os (px_O_CLOEXEC os) w = ((res, a, b), w1)" by (metis surj_pair)
  have h1: "held w1 = held w + (if res = 0 then {#ResFd a, ResFd b#} else {#})"
    using acc p by (auto simp: posix_accounting_def)
  have nb: "held (set_non_block os fd w2) = held w2" for fd w2
    using acc by (simp add: posix_accounting_def set_non_block_def case_prod_unfold Let_def)
  show ?thesis
    using new h1 nb by (auto simp: CompletionState_new_def Park_new_def p Let_def split: if_splits)
qed

lemma Inner_build_accounting:
  assumes acc: "posix_accounting os tn held" and new: "Inner_build p os tn cap pp buf w = Done (r, w')"
  shows "held w' = held w + (case r of Ok s \<Rightarrow> reactor_resources s | Err e \<Rightarrow> {#})"
proof -
  have os: "os_accounting os held" using acc by (simp add: posix_accounting_def)
  note close = os_accountingD(4) [OF os]
  obtain r1 w1 where u: "Uring_new p os 4096 (SetupParameters_new SetupFlags_default) pp w = Done (r1, w1)"
    using new by (auto simp: Inner_build_def)
  note h1 = Uring_new_accounting [OF os u]
  show ?thesis
  proof (cases r1)
    case (Err e)
    with new u h1 show ?thesis by (auto simp: Inner_build_def)
  next
    case (Ok ur)
    note ur = this
    have maps: "uring_maps_ok ur" using Uring_new_maps_ok [OF os] u Ok by blast
    obtain r2 w2 where c: "CompletionState_new os cap w1 = (r2, w2)" by fastforce
    note h2 = CompletionState_new_accounting [OF acc c]
    show ?thesis
    proof (cases r2)
      case (Err e)
      with new u ur c h1 h2 show ?thesis by (auto simp: Inner_build_def Uring_drop_accounting [OF os maps])
    next
      case (Ok cs)
      obtain r3 w3 where t: "tn w2 = (r3, w3)" by fastforce
      have h3: "held w3 = held w2 + (case r3 of Ok fd \<Rightarrow> {#ResFd fd#} | Err e \<Rightarrow> {#})"
        using acc t by (auto simp: posix_accounting_def)
      show ?thesis
        using new u ur c Ok t h1 h2 h3
        by (cases r3) (auto simp: Inner_build_def Uring_drop_accounting [OF os maps] Park_drop_def close reactor_resources_def)
    qed
  qed
qed

text \<open>
  Constructing a reactor leaks nothing: when any of its parts (the ring, the park pipe, the timer)
  cannot be created, everything created before is released again, and a reactor that was built holds
  exactly the ring's descriptor and mappings, both ends of the pipe and the timer descriptor.
\<close>

theorem reactor_new_resources:
  fixes r :: "('d Reactor_Inner, io_error) rresult"
  assumes "posix_accounting os timerfd_new held" "Reactor_new p os timerfd_new cap pp buf w = Done (r, w')"
  shows "held w' = held w + (case r of Ok s \<Rightarrow> reactor_resources s | Err e \<Rightarrow> {#})"
proof -
  obtain r1 :: "('d Reactor_Inner, io_error) rresult" and w1 where
    b: "Inner_build p os timerfd_new cap pp buf w = Done (r1, w1)"
    using assms(2) by (auto simp: Reactor_new_def)
  with Inner_build_accounting [OF assms(1) b] assms(2) show ?thesis
    by (cases r1) (auto simp: Reactor_new_def reactor_resources_def Inner_init_def)
qed

lemma demo_posix_accounting: "posix_accounting demo_posix2 demo_timerfd dw_held"
proof -
  have "os_accounting demo_posix2 dw_held"
    using demo_accounting [of False] unfolding os_accounting_def demo_posix2_def os.defs by simp
  then show ?thesis by (simp add: posix_accounting_def demo_posix2_def os.defs posix.defs demo_timerfd_def)
qed

theorem reactor_new_resources_witness:
  "\<exists>(r :: (nat Reactor_Inner, io_error) rresult) w'.
     Reactor_new Debug demo_posix2 demo_timerfd 65536 0x500 0x600 demo_world0 = Done (r, w') \<and> is_err r \<and> dw_held w' = {#}"
proof -
  have "case Reactor_new Debug demo_posix2 demo_timerfd 65536 0x500 0x600 demo_world0 of
      Done (r :: (nat Reactor_Inner, io_error) rresult, w') \<Rightarrow> is_err r | _ \<Rightarrow> False"
    by (simp add: Reactor_new_def Inner_build_def demo_posix2_def os.defs posix.defs demo_new_defs Let_def
        CompletionState_new_def Park_new_def set_non_block_def demo_timerfd_def)
  then obtain r :: "(nat Reactor_Inner, io_error) rresult" and w' where
    run: "Reactor_new Debug demo_posix2 demo_timerfd 65536 0x500 0x600 demo_world0 = Done (r, w')" and e: "is_err r"
    by (auto split: outcome.splits)
  from reactor_new_resources [OF demo_posix_accounting run] e run show ?thesis
    by (cases r) (auto simp: demo_world0_def)
qed

text \<open>
  A new reactor satisfies the invariant with nothing in flight: both rings are empty and well
  formed, both of its own polls are marked for queueing, the park flags are clear and the pipe empty,
  and its read vector designates its read buffer. (On memory that behaves as memory, with offsets that
  keep the index array clear of head and tail, and rings reported empty.)
\<close>

theorem reactor_new_establishes_invariant:
  fixes s :: "'d Reactor_Inner"
  assumes "mem_laws os" "Reactor_new p os timerfd_new cap pp buf w = Done (Ok s, w')" "0 < cap"
    and "\<And>w. sq_layout_ok (sp_sq_off (mem_load_params os w pp)) (sp_sq_entries (mem_load_params os w pp))"
    and "sq_k_head (u_sq (rx_uring s)) = sq_k_tail (u_sq (rx_uring s))"
    and "cq_k_head (u_cq (rx_uring s)) = cq_k_tail (u_cq (rx_uring s))"
  shows "rx_inv {#} {#} s \<and> rx_inflight {#} s = {#} \<and> cs_requeue_timer (rx_cs s) \<and> cs_requeue_park (rx_cs s) \<and>
    fresh_park (cs_park (rx_cs s)) \<and> rx_read_iovec s = \<lparr>iov_base = buf, iov_len = 32\<rparr>"
proof -
  obtain s0 :: "'d Reactor_Inner" where b: "Inner_build p os timerfd_new cap pp buf w = Done (Ok s0, w')"
    and s: "s = Inner_init s0"
  proof -
    obtain r1 :: "('d Reactor_Inner, io_error) rresult" and w1 where
      b: "Inner_build p os timerfd_new cap pp buf w = Done (r1, w1)"
      using assms(2) by (auto simp: Reactor_new_def)
    with assms(2) that show ?thesis by (cases r1) (auto simp: Reactor_new_def)
  qed
  obtain r1 w1 where u: "Uring_new p os 4096 (SetupParameters_new SetupFlags_default) pp w = Done (r1, w1)"
    using b by (auto simp: Inner_build_def)
  obtain ur where ur: "r1 = Ok ur" using b u by (cases r1) (auto simp: Inner_build_def)
  obtain r2 w2 where c: "CompletionState_new os cap w1 = (r2, w2)" by fastforce
  obtain cs where cs: "r2 = Ok cs" using b u ur c by (cases r2) (auto simp: Inner_build_def)
  obtain r3 w3 where t: "timerfd_new w2 = (r3, w3)" by fastforce
  obtain fd where fd: "r3 = Ok fd" using b u ur c cs t by (cases r3) (auto simp: Inner_build_def)
  have s0: "s0 = \<lparr>rx_uring = ur, rx_cs = cs, rx_timerfd = fd, rx_timer = Disarmed,
      rx_read_buf = \<lparr>fp_ptr = buf, fp_len = 32\<rparr>, rx_read_iovec = iovec_empty,
      rx_heap = \<lparr>rh_cells = (\<lambda>_. None), rh_woken = []\<rparr>, rx_enters = []\<rparr>"
    using b u ur c cs t fd by (simp add: Inner_build_def)
  have cs': "cs_requeue_timer cs" "cs_requeue_park cs" "cs_active_wait cs = 0" "fresh_park (cs_park cs)"
    using c cs assms(3) by (auto simp: CompletionState_new_def Park_new_def fresh_park_def Let_def
        split: prod.splits if_splits)
  have e: "sq_k_head (u_sq ur) = sq_k_tail (u_sq ur)" "cq_k_head (u_cq ur) = cq_k_tail (u_cq ur)"
    using assms(5,6) by (simp_all add: s Inner_init_def s0)
  have wf: "sq_wf (u_sq ur)" "sq_contents (u_sq ur) = []" "cq_wf (u_cq ur)" "cq_contents (u_cq ur) = []"
    using Uring_new_wf [OF assms(1) u [unfolded ur] assms(4) e] sq_idle_contents by (auto simp: sq_idle_at_def)
  have "inflight_ok {#} {#} cs \<lparr>rh_cells = (\<lambda>_. None), rh_woken = []\<rparr>"
    using cs' by (simp add: inflight_ok_def owners_ok_def)
  with cs' wf show ?thesis
    by (simp add: s Inner_init_def s0 rx_inv_def rx_inflight_def iovec_from_def)
qed

lemma demo_posix2_mem: "mem_laws demo_posix2" "mem_load_params demo_posix2 w a = demo_params"
  using demo_mem_laws [of False] by (simp_all add: mem_laws_def demo_posix2_def os.defs demo_os_def)

lemma demo_reactor_built:
  obtains s :: "nat Reactor_Inner" and w' where "Reactor_new Debug demo_posix2 (\<lambda>w. (Ok 6, w)) 65536 0x500 0x600 demo_world0 = Done (Ok s, w')"
    "sq_k_head (u_sq (rx_uring s)) = sq_k_tail (u_sq (rx_uring s))" "cq_k_head (u_cq (rx_uring s)) = cq_k_tail (u_cq (rx_uring s))"
proof -
  have "case Reactor_new Debug demo_posix2 (\<lambda>w. (Ok 6, w)) 65536 0x500 0x600 demo_world0 of
      Done (r :: (nat Reactor_Inner, io_error) rresult, w') \<Rightarrow> (case r of
        Ok s \<Rightarrow> sq_k_head (u_sq (rx_uring s)) = sq_k_tail (u_sq (rx_uring s)) \<and>
          cq_k_head (u_cq (rx_uring s)) = cq_k_tail (u_cq (rx_uring s)) | Err e \<Rightarrow> False) | _ \<Rightarrow> False"
    by (simp add: Reactor_new_def Inner_build_def demo_posix2_def os.defs posix.defs demo_new_defs Let_def
        CompletionState_new_def Park_new_def set_non_block_def Inner_init_def)
  then show ?thesis using that by (auto split: outcome.splits rresult.splits)
qed

theorem reactor_new_establishes_invariant_witness:
  "\<exists>(s :: nat Reactor_Inner) w'. Reactor_new Debug demo_posix2 (\<lambda>w. (Ok 6, w)) 65536 0x500 0x600 demo_world0 = Done (Ok s, w') \<and>
     rx_inv {#} {#} s"
proof -
  obtain s :: "nat Reactor_Inner" and w' where
    run: "Reactor_new Debug demo_posix2 (\<lambda>w. (Ok 6, w)) 65536 0x500 0x600 demo_world0 = Done (Ok s, w')"
    and e: "sq_k_head (u_sq (rx_uring s)) = sq_k_tail (u_sq (rx_uring s))"
      "cq_k_head (u_cq (rx_uring s)) = cq_k_tail (u_cq (rx_uring s))" by (rule demo_reactor_built)
  from reactor_new_establishes_invariant [OF demo_posix2_mem(1) run _ _ e] run show ?thesis
    by (auto simp: demo_posix2_mem demo_layout)
qed

end
