(* ===== verification/Reactor_Lifetime.thy ===== *)
theory Reactor_Lifetime
  imports Reactor_Safety
begin

text \<open>
  The lifetime of a reactor: \<open>Reactor\<close>, \<open>InnerMut\<close>, \<open>Handle\<close> and the implementation of \<open>Park\<close> in
  \<open>tokio-uring-reactor/src/reactor.rs\<close>. The state behind the \<open>Rc\<close> is a cell with a strong count, which
  is \<open>None\<close> when it was freed; every access takes a strong reference (\<open>InnerMut\<close>) for its time. When the last
  one goes, the fields of \<open>Inner\<close> are dropped in the order of their declaration. \<open>'w\<close> is the state of
  the operating system.
\<close>

section \<open>Ownership\<close>

record 'd reactor_cell =
  rr_strong :: nat
  rr_inner :: "'d Reactor_Inner"

type_synonym ('d, 'w) rstate = "'d reactor_cell option \<times> 'w"

definition Inner_drop :: "('w, 'z) os_scheme \<Rightarrow> 'd Reactor_Inner \<Rightarrow> 'w \<Rightarrow> 'w" where
  "Inner_drop os s w =
     (let w = Uring_drop os (rx_uring s) w;
          w = Park_drop os (cs_park (rx_cs s)) w
      in os_close os (rx_timerfd s) w)"

definition InnerMut_clone :: "('d, 'w) rstate \<Rightarrow> ('d, 'w) rstate outcome" where
  "InnerMut_clone st = (case fst st of
       None \<Rightarrow> Undefined ''access to a freed reactor''
     | Some c \<Rightarrow> Done (Some (c\<lparr>rr_strong := Suc (rr_strong c)\<rparr>), snd st))"

definition InnerMut_drop :: "('w, 'z) os_scheme \<Rightarrow> ('d, 'w) rstate \<Rightarrow> ('d, 'w) rstate outcome" where
  "InnerMut_drop os st = (case fst st of
       None \<Rightarrow> Undefined ''drop of a freed reactor''
     | Some c \<Rightarrow>
         if rr_strong c \<le> 1 then Done (None, Inner_drop os (rr_inner c) (snd st))
         else Done (Some (c\<lparr>rr_strong := rr_strong c - 1\<rparr>), snd st))"

text \<open>\<open>self.inner_mut().pinned().f()\<close>: the temporary lives until the end of the statement.\<close>

definition InnerMut_pinned :: "('d Reactor_Inner \<Rightarrow> ('a \<times> 'd Reactor_Inner) outcome) \<Rightarrow> ('d, 'w) rstate \<Rightarrow> ('a \<times> ('d, 'w) rstate) outcome" where
  "InnerMut_pinned f st = (case fst st of
       None \<Rightarrow> Undefined ''access to a freed reactor''
     | Some c \<Rightarrow> obind (f (rr_inner c)) (\<lambda>(r, s). Done (r, Some (c\<lparr>rr_inner := s\<rparr>), snd st)))"

definition with_inner_mut :: "('w, 'z) os_scheme \<Rightarrow> ('d Reactor_Inner \<Rightarrow> ('a \<times> 'd Reactor_Inner) outcome) \<Rightarrow> ('d, 'w) rstate \<Rightarrow>
  ('a \<times> ('d, 'w) rstate) outcome" where
  "with_inner_mut os f st =
     obind (InnerMut_clone st) (\<lambda>st.
     obind (InnerMut_pinned f st) (\<lambda>(r, st).
     obind (InnerMut_drop os st) (\<lambda>st. Done (r, st))))"

section \<open>Reactor\<close>

definition Reactor_build :: "profile \<Rightarrow> ('w, 'z) posix_scheme \<Rightarrow> ('w \<Rightarrow> (i32, io_error) rresult \<times> 'w) \<Rightarrow> nat \<Rightarrow> u64 \<Rightarrow> u64 \<Rightarrow> 'w \<Rightarrow>
  ((unit, io_error) rresult \<times> ('d, 'w) rstate) outcome" where
  "Reactor_build p os timerfd_new cap pp buf w =
     obind (Inner_build p os timerfd_new cap pp buf w) (\<lambda>(r, w).
       case r of Err e \<Rightarrow> Done (Err e, None, w) | Ok s \<Rightarrow> Done (Ok (), Some \<lparr>rr_strong = 1, rr_inner = s\<rparr>, w))"

definition Reactor_create :: "profile \<Rightarrow> ('w, 'z) posix_scheme \<Rightarrow> ('w \<Rightarrow> (i32, io_error) rresult \<times> 'w) \<Rightarrow> nat \<Rightarrow> u64 \<Rightarrow> u64 \<Rightarrow> 'w \<Rightarrow>
  ((unit, io_error) rresult \<times> ('d, 'w) rstate) outcome" where
  "Reactor_create p os timerfd_new cap pp buf w =
     obind (Reactor_build p os timerfd_new cap pp buf w) (\<lambda>(r, st).
       case r of
         Err e \<Rightarrow> Done (Err e, st)
       | Ok _ \<Rightarrow> obind (with_inner_mut os (\<lambda>s. Done ((), Inner_init s)) st) (\<lambda>(_, st). Done (Ok (), st)))"

definition Reactor_park :: "('w, 'z) os_scheme \<Rightarrow> profile \<Rightarrow> libc_poll \<Rightarrow> rx_env \<Rightarrow> ('d, 'w) rstate \<Rightarrow>
  ((unit, io_error) rresult \<times> ('d, 'w) rstate) outcome" where
  "Reactor_park os p lc env = with_inner_mut os (Inner_park p lc env)"

definition Reactor_park_timeout :: "('w, 'z) os_scheme \<Rightarrow> profile \<Rightarrow> libc_poll \<Rightarrow> rx_env \<Rightarrow> nat \<Rightarrow> ('d, 'w) rstate \<Rightarrow>
  ((unit, io_error) rresult \<times> ('d, 'w) rstate) outcome" where
  "Reactor_park_timeout os p lc env duration = with_inner_mut os (Inner_park_timeout p lc env duration)"

definition Reactor_unpark :: "('w, 'z) os_scheme \<Rightarrow> ('d, 'w) rstate \<Rightarrow> (i32 \<times> ('d, 'w) rstate) outcome" where
  "Reactor_unpark os = with_inner_mut os (\<lambda>s. Done (Park_unpark (cs_park (rx_cs s)), s))"

text \<open>The \<open>Unpark\<close> of \<open>reactor.rs\<close>, around the one of \<open>unpark.rs\<close>.\<close>

definition RxUnpark_unpark :: "bool \<Rightarrow> Park \<Rightarrow> Park" where
  "RxUnpark_unpark alive sh = Unpark_unpark alive sh"

definition Reactor_drop :: "('w, 'z) os_scheme \<Rightarrow> ('d, 'w) rstate \<Rightarrow> ('d, 'w) rstate outcome" where
  "Reactor_drop os st = InnerMut_drop os st"

text \<open>A handle's methods: \<open>Weak::upgrade\<close>, then a request is queued through the temporary reference.\<close>

definition Handle_queue :: "('w, 'z) os_scheme \<Rightarrow> ('d Reactor_Inner \<Rightarrow> ((unit, io_error) rresult \<times> 'd Reactor_Inner) outcome) \<Rightarrow>
  ('d, 'w) rstate \<Rightarrow> ((unit, io_error) rresult \<times> ('d, 'w) rstate) outcome" where
  "Handle_queue os queue st = (case Handle_inner_mut (fst st \<noteq> None) of
       Err e \<Rightarrow> Done (Err e, st)
     | Ok _ \<Rightarrow> with_inner_mut os queue st)"

section \<open>Specification\<close>

text \<open>What no operation changes: the descriptors and mappings.\<close>

definition rx_frame :: "'d Reactor_Inner \<Rightarrow> UringFile \<times> (MappedMemory \<times> MappedMemory) \<times> MappedMemory \<times> i32 \<times> i32 \<times> i32" where
  "rx_frame s = (u_file (rx_uring s), u_sq_mmaps (rx_uring s), u_cq_mmap (rx_uring s),
     pk_read_fd (cs_park (rx_cs s)), sh_write_fd (cs_park (rx_cs s)), rx_timerfd s)"

text \<open>The kernel writes to the rings, not to the fields that describe them; threads do not swap the pipe.\<close>

definition env_frame :: "rx_env \<Rightarrow> bool" where
  "env_frame env \<longleftrightarrow> (\<forall>n. threads_ok (env_threads env n)) \<and>
     (\<forall>n m fl u. case env_enter env n m fl u of (r, u') \<Rightarrow>
        u_file u' = u_file u \<and> u_sq_mmaps u' = u_sq_mmaps u \<and> u_cq_mmap u' = u_cq_mmap u)"

text \<open>The use of a reactor. Futures change the registrations, and the program the rest of the world.\<close>

inductive rl_step :: "('w, 'z) os_scheme \<Rightarrow> ('d, 'w) rstate \<Rightarrow> ('d, 'w) rstate \<Rightarrow> bool" for os where
  park: "env_frame env \<Longrightarrow> Reactor_park os p lc env st = Done (r, st') \<Longrightarrow> rl_step os st st'"
| park_timeout: "env_frame env \<Longrightarrow> Reactor_park_timeout os p lc env d st = Done (r, st') \<Longrightarrow> rl_step os st st'"
| start_read: "Handle_queue os (queue_async_read p fd off iov reg) st = Done (r, st') \<Longrightarrow> rl_step os st st'"
| start_write: "Handle_queue os (queue_async_write p fd off iov reg) st = Done (r, st') \<Longrightarrow> rl_step os st st'"
| start_poll: "Handle_queue os (queue_async_poll p fd fl reg) st = Done (r, st') \<Longrightarrow> rl_step os st st'"
| heap: "rl_step os (Some c, w) (Some (c\<lparr>rr_inner := (rr_inner c)\<lparr>rx_heap := h\<rparr>\<rparr>), w)"
| world: "rl_step os (c, w) (c, w')"

definition rl_inv :: "'d Reactor_Inner \<Rightarrow> ('d, 'w) rstate \<Rightarrow> bool" where
  "rl_inv s0 st \<longleftrightarrow> (case fst st of None \<Rightarrow> False | Some c \<Rightarrow> rr_strong c = 1 \<and> rx_frame (rr_inner c) = rx_frame s0)"

text \<open>Between two states the reactor queued nothing on behalf of a registration; entries may have been taken.\<close>

definition ring_le :: "'d Reactor_Inner \<Rightarrow> 'd Reactor_Inner \<Rightarrow> bool" where
  "ring_le s s' \<longleftrightarrow> (sq_wf (u_sq (rx_uring s)) \<longrightarrow> sq_wf (u_sq (rx_uring s')) \<and>
     (\<forall>e \<in> set (sq_contents (u_sq (rx_uring s'))). registered (se_user_data e) \<longrightarrow> e \<in> set (sq_contents (u_sq (rx_uring s)))))"

definition demo_timerfd_ok :: "demo_world \<Rightarrow> (i32, io_error) rresult \<times> demo_world" where
  "demo_timerfd_ok w = (Ok 6, w\<lparr>dw_held := dw_held w + {#ResFd 6#}\<rparr>)"

section \<open>Lemmas\<close>

lemma case_rresult_Done:
  "(case r of Ok x \<Rightarrow> f x | Err e \<Rightarrow> g e) = Done y \<longleftrightarrow> (\<exists>x. r = Ok x \<and> f x = Done y) \<or> (\<exists>e. r = Err e \<and> g e = Done y)"
  by (cases r) auto

lemma cq_for_each_pres:
  shows "(\<And>e s s'. body e s = Done s' \<Longrightarrow> P s \<Longrightarrow> P s') \<Longrightarrow> cq_for_each sched body s q = Done (s', q', rest) \<Longrightarrow> P s \<Longrightarrow> P s'"
proof (induction sched body s q arbitrary: s' q' rest rule: cq_for_each.induct)
  case (1 sched body s q)
  obtain q1 o1 where n: "bulk_next (cq_post_all (case sched of [] \<Rightarrow> [] | b # _ \<Rightarrow> b) q) = Done (q1, o1)"
    using 1(3) unfolding cq_for_each.simps [of sched body s q] by (auto split: outcome.split_asm)
  show ?case
  proof (cases o1)
    case None
    with 1(3,4) n show ?thesis unfolding cq_for_each.simps [of sched body s q] by simp
  next
    case (Some e)
    obtain s1 where b: "body e s = Done s1"
      using 1(3) n Some unfolding cq_for_each.simps [of sched body s q] by (auto split: outcome.split_asm)
    with 1(3) n Some have "cq_for_each (tl sched) body s1 q1 = Done (s', q', rest)"
      unfolding cq_for_each.simps [of sched body s q] by simp
    from 1(1) [OF n refl Some b 1(2) this] 1(2) [OF b 1(4)] show ?thesis by simp
  qed
qed

lemma handle_completion_fds:
  assumes "handle_completion p ud r (cs, h) = Done (cs', h')"
  shows "pk_read_fd (cs_park cs') = pk_read_fd (cs_park cs) \<and> sh_write_fd (cs_park cs') = sh_write_fd (cs_park cs)"
  using assms by (auto simp: handle_completion_def Let_def clear_event_def split: if_splits)

lemma check_completions_rx_frame: "check_completions p posts s = Done (b, s') \<Longrightarrow> rx_frame s' = rx_frame s"
proof -
  let ?P = "\<lambda>(b :: bool, cs, h). pk_read_fd (cs_park cs) = pk_read_fd (cs_park (rx_cs s)) \<and> sh_write_fd (cs_park cs) = sh_write_fd (cs_park (rx_cs s))"
  assume run: "check_completions p posts s = Done (b, s')"
  have pres: "?P st'" if "completion_body p e st = Done st'" "?P st" for e st st'
    using that by (cases st) (auto dest!: completion_body_Done handle_completion_fds)
  from run obtain cs h cq rest where
    "cq_for_each posts (completion_body p) (False, rx_cs s, rx_heap s) (u_cq (rx_uring s)) = Done ((b, cs, h), cq, rest)"
    "s' = s\<lparr>rx_uring := (rx_uring s)\<lparr>u_cq := cq\<rparr>, rx_cs := cs, rx_heap := h\<rparr>"
    by (auto simp: check_completions_def)
  with cq_for_each_pres [where P = ?P, OF pres this(1)] show ?thesis by (simp add: rx_frame_def)
qed

lemma queue_poll_rx_frame: "queue_poll p lc fd ud s = Done (r, s') \<Longrightarrow> rx_frame s' = rx_frame s"
  by (auto simp: queue_poll_def Let_def rx_frame_def case_rresult_Done)

lemma queue_registered_rx_frame: "queue_registered p fill reg s = Done (r, s') \<Longrightarrow> rx_frame s' = rx_frame s"
  by (auto simp: queue_registered_def Let_def rx_frame_def case_rresult_Done)

lemma set_timer_rx_frame [simp]: "rx_frame (set_timer t s) = rx_frame s"
  by (simp add: set_timer_def rx_frame_def split: option.split)

lemma upd_park_rx_frame [simp]: "threads_ok f \<Longrightarrow> rx_frame (upd_park f s) = rx_frame s"
  by (simp add: threads_ok_def upd_park_def rx_frame_def)

lemma prepare_timer_rx_frame: "prepare_timer p lc t s = Done (b, s') \<Longrightarrow> rx_frame s' = rx_frame s"
  by (auto simp: prepare_timer_def queue_timer_poll_def Let_def split: if_splits dest!: queue_poll_rx_frame)
    (simp_all add: rx_frame_def)

lemma prepare_park_rx_frame: "prepare_park p lc s = Done (b, s') \<Longrightarrow> rx_frame s' = rx_frame s"
  by (auto simp: prepare_park_def queue_park_read_def Let_def split: if_splits dest!: queue_poll_rx_frame)
    (simp_all add: rx_frame_def)

lemma enter_guarded_rx_frame:
  assumes env: "env_frame env" and run: "enter_guarded p env wait n s = (r, s')"
  shows "rx_frame s' = rx_frame s"
proof -
  have t: "threads_ok (env_threads env n)" for n using env by (simp add: env_frame_def)
  have e: "u_file (snd (env_enter env n m fl u)) = u_file u \<and> u_sq_mmaps (snd (env_enter env n m fl u)) = u_sq_mmaps u \<and>
      u_cq_mmap (snd (env_enter env n m fl u)) = u_cq_mmap u" for n m fl u
    using env unfolding env_frame_def by (metis (mono_tags, lifting) case_prod_unfold)
  from t have fds: "pk_read_fd (env_threads env n sh) = pk_read_fd sh" "sh_write_fd (env_threads env n sh) = sh_write_fd sh" for n sh
    by (simp_all add: threads_ok_def)
  from run show ?thesis
    by (auto simp: enter_guarded_def Park_enter_def ParkEntered_drop_def clear_unpark_def leave_store_def enter_store_def upd_park_def
        rx_frame_def Let_def fds case_prod_unfold e split: if_splits)
qed

lemma park_inner_rx_frame:
  assumes env: "env_frame env" and run: "park_inner p lc env wait timeout s = Done (r, s')"
  shows "rx_frame s' = rx_frame s"
proof -
  have t: "threads_ok (env_threads env 0)" using env by (simp add: env_frame_def)
  from run show ?thesis
  proof (rule park_inner_phases)
    fix b s1 w3 s3 w4 s4 sq n e s6
    assume "check_completions p (env_posts env 0) s = Done (b, s1)"
      and "(if park_wait env b wait s1 then prepare_timer p lc timeout (upd_park (env_threads env 0) s1)
        else Done (park_wait env b wait s1, upd_park (env_threads env 0) s1)) = Done (w3, s3)"
      and "(if w3 then prepare_park p lc s3 else Done (w3, s3)) = Done (w4, s4)"
      and "enter_guarded p env w4 n (s4\<lparr>rx_uring := (rx_uring s4)\<lparr>u_sq := sq\<rparr>\<rparr>) = (e, s6)"
      and last: "(case e of None \<Rightarrow> Done (Ok (), s6) | Some (Err x) \<Rightarrow> Done (Err x, s6)
        | Some (Ok _) \<Rightarrow> obind (check_completions p (env_posts env 1) s6) (\<lambda>(_, s). Done (Ok (), s))) = Done (r, s')"
    then have "rx_frame s1 = rx_frame s" "rx_frame s3 = rx_frame s1" "rx_frame s4 = rx_frame s3"
      "rx_frame s6 = rx_frame (s4\<lparr>rx_uring := (rx_uring s4)\<lparr>u_sq := sq\<rparr>\<rparr>)"
      using t by (auto split: if_splits dest: check_completions_rx_frame prepare_timer_rx_frame prepare_park_rx_frame enter_guarded_rx_frame [OF env])
    moreover have "rx_frame (s4\<lparr>rx_uring := (rx_uring s4)\<lparr>u_sq := sq\<rparr>\<rparr>) = rx_frame s4" by (simp add: rx_frame_def)
    moreover have "rx_frame s' = rx_frame s6" using last by (auto split: option.split_asm rresult.split_asm dest: check_completions_rx_frame)
    ultimately show ?thesis by simp
  qed
qed

text \<open>\<open>park_inner\<close> queues nothing but the reactor's own polls.\<close>

lemma sq_submit_ring:
  assumes "sq_wf q" "f s zeroed_entry = Done (s', e, Ok ())" "sq_submit_one q f s = Done (q', x)"
  shows "sq_wf q' \<and> set (sq_contents q') \<subseteq> insert e (set (sq_contents q))"
  using sq_submit_one_cases [where f = f, OF assms(1,2)] assms(3) by auto

lemma ring_le_trans: "ring_le s1 s2 \<Longrightarrow> ring_le s2 s3 \<Longrightarrow> ring_le s1 s3"
  by (auto simp: ring_le_def)

lemma ring_le_same: "u_sq (rx_uring s') = u_sq (rx_uring s) \<Longrightarrow> ring_le s s'"
  by (simp add: ring_le_def)

lemma queue_poll_ring:
  assumes "queue_poll p lc fd ud s = Done (r, s')" "\<not> registered ud"
  shows "ring_le s s'"
proof -
  let ?f = "\<lambda>_ entry. Done ((), (SubmissionEntry_poll_add entry (FD fd) (PollFlags_IN lc))\<lparr>se_user_data := ud\<rparr>, (Ok () :: (unit, unit) rresult))"
  let ?e = "(SubmissionEntry_poll_add zeroed_entry (FD fd) (PollFlags_IN lc))\<lparr>se_user_data := ud\<rparr>"
  obtain sq x where sq: "sq_submit_one (u_sq (rx_uring s)) ?f () = Done (sq, x)" "u_sq (rx_uring s') = sq"
    using assms(1) by (auto simp: queue_poll_def Let_def case_rresult_Done)
  show ?thesis
    using sq_submit_ring [where f = ?f, OF _ refl sq(1)] sq(2) assms(2) by (fastforce simp: ring_le_def)
qed

lemma prepare_timer_ring:
  assumes "prepare_timer p lc timeout s = Done (w, s')"
  shows "ring_le s s'"
proof -
  let ?s1 = "set_timer timeout s"
  have s1: "ring_le s ?s1" by (rule ring_le_same) (simp add: set_timer_def split: option.split)
  show ?thesis
  proof (cases "cs_requeue_timer (rx_cs ?s1)")
    case True
    then obtain r s2 where q: "queue_poll p lc (rx_timerfd ?s1) TIMER ?s1 = Done (r, s2)" "rx_uring s' = rx_uring s2"
      using assms by (auto simp: prepare_timer_def queue_timer_poll_def Let_def split: if_splits)
    from queue_poll_ring [OF q(1)] s1 q(2) show ?thesis by (auto simp: ring_le_def)
  next
    case False
    with assms s1 show ?thesis by (auto simp: prepare_timer_def Let_def)
  qed
qed

lemma prepare_park_ring:
  assumes "prepare_park p lc s = Done (w, s')"
  shows "ring_le s s'"
proof (cases "cs_requeue_park (rx_cs s)")
  case True
  then obtain r s2 where q: "queue_poll p lc (Park_as_raw_fd (cs_park (rx_cs s))) PARK s = Done (r, s2)" "rx_uring s' = rx_uring s2"
    using assms by (auto simp: prepare_park_def queue_park_read_def split: if_splits)
  from queue_poll_ring [OF q(1)] q(2) show ?thesis by (auto simp: ring_le_def)
qed (use assms in \<open>simp add: prepare_park_def ring_le_def\<close>)

lemma enter_guarded_ring:
  assumes "enter_guarded p env w n s = (e, s')" "enter_ok env k"
  shows "ring_le s s'"
proof -
  have run: "\<exists>taken. transport_run sq_user_step sq_kernel_step (u_sq u) [] taken (u_sq u')" if "env_enter env n m fl u = (r, u')" for n m fl u r u'
    using assms(2) that unfolding enter_ok_def by blast
  have call: "sq_wf (u_sq u) \<Longrightarrow> sq_wf (u_sq u') \<and> set (sq_contents (u_sq u')) \<subseteq> set (sq_contents (u_sq u))"
    if "env_enter env n m fl u = (r, u')" for n m fl u r u'
    using run [OF that] sq.run_invariant sq.run_fifo by (metis append_Nil2 set_append sup_ge2)
  have "rx_uring s' = rx_uring s \<or> (\<exists>n m fl r. env_enter env n m fl (rx_uring s) = (r, rx_uring s'))"
    using assms(1) by (auto simp: enter_guarded_def upd_park_def Let_def split: prod.splits if_splits)
  with call show ?thesis unfolding ring_le_def by (elim disjE exE) (auto, blast)
qed

lemma park_inner_ring:
  assumes inv: "rx_inv k own s" and env: "env_ok env k park" and run: "park_inner p lc env wait timeout s = Done (r, s')"
  shows "\<forall>e \<in> set (sq_contents (u_sq (rx_uring s'))). registered (se_user_data e) \<longrightarrow> e \<in> set (sq_contents (u_sq (rx_uring s)))"
proof -
  have ent: "enter_ok env (k - cq_uds (concat (env_posts env 0)))" using env by (simp add: env_ok_def)
  have check: "ring_le s1 s2" if "check_completions p posts s1 = Done (b, s2)" for posts s1 b s2
    using that by (intro ring_le_same) (auto simp: check_completions_def)
  from run have "ring_le s s'"
  proof (rule park_inner_phases)
    fix b s1 w3 s3 w4 s4 sq n e s6
    assume 1: "check_completions p (env_posts env 0) s = Done (b, s1)"
      and 3: "(if park_wait env b wait s1 then prepare_timer p lc timeout (upd_park (env_threads env 0) s1)
        else Done (park_wait env b wait s1, upd_park (env_threads env 0) s1)) = Done (w3, s3)"
      and 4: "(if w3 then prepare_park p lc s3 else Done (w3, s3)) = Done (w4, s4)"
      and 5: "sq_pending_submissions p (u_sq (rx_uring s4)) = Done (sq, n)"
      and 6: "enter_guarded p env w4 n (s4\<lparr>rx_uring := (rx_uring s4)\<lparr>u_sq := sq\<rparr>\<rparr>) = (e, s6)"
      and 7: "(case e of None \<Rightarrow> Done (Ok (), s6) | Some (Err x) \<Rightarrow> Done (Err x, s6)
        | Some (Ok _) \<Rightarrow> obind (check_completions p (env_posts env 1) s6) (\<lambda>(_, s). Done (Ok (), s))) = Done (r, s')"
    have "ring_le s1 s3" using 3 prepare_timer_ring [of p lc timeout "upd_park (env_threads env 0) s1" w3 s3]
      by (auto simp: ring_le_def upd_park_def split: if_splits)
    moreover have "ring_le s3 s4" using 4 prepare_park_ring [of p lc s3 w4 s4] by (auto simp: ring_le_def split: if_splits)
    moreover have "ring_le s4 (s4\<lparr>rx_uring := (rx_uring s4)\<lparr>u_sq := sq\<rparr>\<rparr>)"
      using sq_pending_Done [OF 5] sq_refresh_wf by (auto simp: ring_le_def)
    moreover have "ring_le s6 s'" using 7 check by (auto simp: ring_le_def split: option.split_asm rresult.split_asm)
    ultimately show ?thesis using check [OF 1] enter_guarded_ring [OF 6 ent] by (blast intro: ring_le_trans)
  qed
  with inv show ?thesis by (simp add: ring_le_def rx_inv_def)
qed

lemma with_inner_mut_keeps:
  assumes "rl_inv s0 st" "with_inner_mut os f st = Done (r, st')" "\<And>s r s'. f s = Done (r, s') \<Longrightarrow> rx_frame s' = rx_frame s"
  shows "rl_inv s0 st'"
  using assms(1,2)
  by (auto simp: rl_inv_def with_inner_mut_def InnerMut_clone_def InnerMut_pinned_def InnerMut_drop_def split: option.split_asm dest!: assms(3))

lemma Handle_queue_keeps:
  assumes "rl_inv s0 st" "Handle_queue os f st = Done (r, st')" "\<And>s r s'. f s = Done (r, s') \<Longrightarrow> rx_frame s' = rx_frame s"
  shows "rl_inv s0 st'"
proof (cases "fst st")
  case (Some c)
  with assms(2) have "with_inner_mut os f st = Done (r, st')" by (simp add: Handle_queue_def Handle_inner_mut_def)
  from with_inner_mut_keeps [OF assms(1) this assms(3)] show ?thesis .
qed (use assms(1) in \<open>simp add: rl_inv_def\<close>)

lemma rl_step_keeps: "rl_inv s0 st \<Longrightarrow> rl_step os st st' \<Longrightarrow> rl_inv s0 st'"
proof (erule rl_step.cases, goal_cases)
  case (1 env p lc st r st')
  with with_inner_mut_keeps [of s0 st os "Inner_park p lc env"] show ?case
    by (simp add: Reactor_park_def Inner_park_def park_inner_rx_frame)
next
  case (2 env p lc d st r st')
  with with_inner_mut_keeps [of s0 st os "Inner_park_timeout p lc env d"] show ?case
    by (simp add: Reactor_park_timeout_def Inner_park_timeout_def park_inner_rx_frame split: if_splits)
next
  case (3 p fd off iov reg st r st')
  with Handle_queue_keeps [of s0 st os "queue_async_read p fd off iov reg"] show ?case
    by (simp add: queue_async_read_def queue_registered_rx_frame)
next
  case (4 p fd off iov reg st r st')
  with Handle_queue_keeps [of s0 st os "queue_async_write p fd off iov reg"] show ?case
    by (simp add: queue_async_write_def queue_registered_rx_frame)
next
  case (5 p fd fl reg st r st')
  with Handle_queue_keeps [of s0 st os "queue_async_poll p fd fl reg"] show ?case
    by (simp add: queue_async_poll_def queue_registered_rx_frame)
qed (simp_all add: rl_inv_def rx_frame_def)

interpretation lifetime: step_invariant "rl_inv s0" "rl_step os" "rl_inv s0" for s0 os
  by unfold_locales (assumption, fact rl_step_keeps)

lemma Reactor_create_Ok:
  fixes st :: "('d, 'w) rstate"
  assumes "Reactor_create p os tn cap pp buf w = Done (Ok (), st)"
  obtains s :: "'d Reactor_Inner" and w1 where "Inner_build p os tn cap pp buf w = Done (Ok s, w1)"
    "st = (Some \<lparr>rr_strong = 1, rr_inner = Inner_init s\<rparr>, w1)"
proof -
  obtain r :: "('d Reactor_Inner, io_error) rresult" and w1 where b: "Inner_build p os tn cap pp buf w = Done (r, w1)"
    using assms by (auto simp: Reactor_create_def Reactor_build_def)
  with assms that show ?thesis
    by (cases r) (auto simp: Reactor_create_def Reactor_build_def with_inner_mut_def InnerMut_clone_def InnerMut_pinned_def InnerMut_drop_def)
qed

lemma Inner_build_maps_ok:
  fixes s :: "'d Reactor_Inner"
  assumes acc: "posix_accounting os tn held" and new: "Inner_build p os tn cap pp buf w = Done (Ok s, w')"
  shows "uring_maps_ok (rx_uring s)"
proof -
  have os: "os_accounting os held" using acc by (simp add: posix_accounting_def)
  obtain r1 w1 where u: "Uring_new p os 4096 (SetupParameters_new SetupFlags_default) pp w = Done (r1, w1)"
    using new by (auto simp: Inner_build_def)
  then obtain ur where ur: "r1 = Ok ur" using new by (cases r1) (auto simp: Inner_build_def)
  obtain r2 w2 where c: "CompletionState_new os cap w1 = (r2, w2)" by fastforce
  obtain r3 w3 where "tn w2 = (r3, w3)" by fastforce
  with new u ur c have "rx_uring s = ur" by (auto simp: Inner_build_def case_rresult_Done)
  with Uring_new_maps_ok [OF os] u ur show ?thesis by blast
qed

lemma frame_resources:
  assumes "rx_frame s = rx_frame s0"
  shows "reactor_resources s = reactor_resources s0" "uring_maps_ok (rx_uring s) = uring_maps_ok (rx_uring s0)"
  using assms by (simp_all add: rx_frame_def reactor_resources_def uring_resources_def uring_maps_ok_def)

lemma Inner_drop_accounting:
  assumes "os_accounting os held" "uring_maps_ok (rx_uring s)"
  shows "held (Inner_drop os s w) = held w - reactor_resources s"
  using assms by (simp add: Inner_drop_def Let_def Park_drop_def Uring_drop_accounting os_accountingD(4) [OF assms(1)] reactor_resources_def
      add_mset_commute diff_diff_add_mset [symmetric])

text \<open>Dropping the handles of all futures, in some order.\<close>

lemma drop_all_owned:
  "owners_ok h (mset xs + rest) \<Longrightarrow> \<exists>h'. ofold rc_drop xs h = Done h' \<and> owners_ok h' rest \<and>
     (\<forall>a n i. rh_cells h' a = Some (n, i) \<longrightarrow> (\<exists>m. rh_cells h a = Some (m, i)))"
proof (induction xs arbitrary: h)
  case (Cons x xs)
  from rc_drop_owned [OF Cons.prems, of x] obtain h1 where h1: "rc_drop x h = Done h1" "owners_ok h1 (mset xs + rest)" by auto
  from Cons.IH [OF h1(2)] obtain h' where h': "ofold rc_drop xs h1 = Done h'" "owners_ok h' rest"
    "\<forall>a n i. rh_cells h' a = Some (n, i) \<longrightarrow> (\<exists>m. rh_cells h1 a = Some (m, i))" by blast
  have "\<exists>m. rh_cells h a = Some (m, i)" if "rh_cells h1 a = Some (n, i)" for a n i
    using h1(1) that by (auto simp: rc_drop_def split: option.splits if_splits)
  with h1 h' show ?case by fastforce
qed simp

section \<open>Properties\<close>

text \<open>
  C28. A reactor releases exactly what it acquired. However it is parked and used through its handles, and
  whatever registrations and the rest of the program do in between, its strong count is one between
  calls, and dropping it closes the ring and the three mappings, both ends of the pipe and the timer: what its
  construction added. Handles that outlive it report that the reactor is dead and touch nothing.
\<close>

theorem reactor_lifetime:
  fixes cell :: "'d reactor_cell option"
  assumes "posix_accounting os timerfd_new held" "Reactor_create p os timerfd_new cap pp buf w0 = Done (Ok (), st1)"
    and "(rl_step os)\<^sup>*\<^sup>* st1 (cell, w2)"
  shows "\<exists>R w3. held (snd st1) = held w0 + R \<and> Reactor_drop os (cell, w2) = Done (None, w3) \<and> held w3 = held w2 - R \<and>
    Handle_queue os queue (None :: 'd reactor_cell option, w3) = Done (Err (CustomError KindOther ''uring reactor dead''), None, w3)"
proof -
  obtain s :: "'d Reactor_Inner" and w1 where s: "Inner_build p os timerfd_new cap pp buf w0 = Done (Ok s, w1)"
    "st1 = (Some \<lparr>rr_strong = 1, rr_inner = Inner_init s\<rparr>, w1)" by (rule Reactor_create_Ok [OF assms(2)])
  have os: "os_accounting os held" using assms(1) by (simp add: posix_accounting_def)
  have "rl_inv s st1" by (simp add: s(2) rl_inv_def Inner_init_def rx_frame_def)
  from lifetime.inv_reachable [OF this assms(3)] obtain c where
    c: "cell = Some c" "rr_strong c = 1" "rx_frame (rr_inner c) = rx_frame s" by (auto simp: rl_inv_def split: option.splits)
  note fr = frame_resources [OF c(3)]
  have "held w1 = held w0 + reactor_resources s" using Inner_build_accounting [OF assms(1) s(1)] by simp
  moreover have "held (Inner_drop os (rr_inner c) w2) = held w2 - reactor_resources s"
    using Inner_drop_accounting [OF os] fr Inner_build_maps_ok [OF assms(1) s(1)] by metis
  ultimately show ?thesis using c s(2)
    by (auto simp: Reactor_drop_def InnerMut_drop_def Handle_queue_def Handle_inner_mut_def)
qed

lemma demo_timerfd_accounting: "posix_accounting demo_posix2 demo_timerfd_ok dw_held"
  using demo_posix_accounting by (simp add: posix_accounting_def demo_timerfd_ok_def)

theorem reactor_lifetime_witness:
  "\<exists>(st1 :: (nat, demo_world) rstate) w3. Reactor_create Debug demo_posix2 demo_timerfd_ok 65536 0x500 0x600 demo_world0 = Done (Ok (), st1) \<and>
     Reactor_drop demo_posix2 st1 = Done (None, w3) \<and> dw_held w3 = {#}"
proof -
  have "case Reactor_create Debug demo_posix2 demo_timerfd_ok 65536 0x500 0x600 demo_world0 of
      Done (r, st :: (nat, demo_world) rstate) \<Rightarrow> r = Ok () | _ \<Rightarrow> False"
    by (simp add: Reactor_create_def Reactor_build_def Inner_build_def demo_posix2_def os.defs posix.defs demo_new_defs Let_def
        CompletionState_new_def Park_new_def set_non_block_def demo_timerfd_ok_def with_inner_mut_def InnerMut_clone_def
        InnerMut_pinned_def InnerMut_drop_def)
  then obtain st1 :: "(nat, demo_world) rstate" where
    new: "Reactor_create Debug demo_posix2 demo_timerfd_ok 65536 0x500 0x600 demo_world0 = Done (Ok (), st1)"
    by (auto split: outcome.split_asm)
  obtain cell w2 where st1: "st1 = (cell, w2)" by fastforce
  have "(rl_step demo_posix2)\<^sup>*\<^sup>* st1 (cell, w2)" by (simp add: st1)
  from reactor_lifetime [OF demo_timerfd_accounting new this, of "\<lambda>s. Done (Ok (), s)"] new st1 show ?thesis
    by (auto simp: demo_world0_def)
qed

text \<open>
  Memory lent to the kernel outlives the reactor. When the reactor is gone and every future
  has dropped its handle, in any order, nothing was touched after being freed, the registrations
  of requests in flight are still allocated, with the context they had, one strong count each, and every other
  registration is freed. (So buffers the kernel may still write to are never reused; they leak,
  as the comment in \<open>Inner\<close> notes.)
\<close>

theorem shutdown_keeps_lent_memory:
  assumes "rx_inv k own s" "mset handles = own"
  shows "\<exists>h'. ofold rc_drop handles (rx_heap s) = Done h' \<and>
    (\<forall>a. if registered a \<and> a \<in># rx_inflight k s
         then \<exists>n i. rh_cells (rx_heap s) a = Some (n, i) \<and> rh_cells h' a = Some (1, i) \<and> \<not> ri_finished i
         else rh_cells h' a = None)"
proof -
  let ?fl = "rx_inflight k s"
  have i: "inflight_ok ?fl own (rx_cs s) (rx_heap s)" using assms(1) by (simp add: rx_inv_def)
  then have "owners_ok (rx_heap s) (mset handles + filter_mset registered ?fl)"
    by (simp add: assms(2) inflight_ok_def add.commute)
  from drop_all_owned [OF this] obtain h' where h': "ofold rc_drop handles (rx_heap s) = Done h'" "owners_ok h' (filter_mset registered ?fl)"
    "\<forall>a n i. rh_cells h' a = Some (n, i) \<longrightarrow> (\<exists>m. rh_cells (rx_heap s) a = Some (m, i))" by blast
  have "if registered a \<and> a \<in># ?fl
         then \<exists>n i. rh_cells (rx_heap s) a = Some (n, i) \<and> rh_cells h' a = Some (1, i) \<and> \<not> ri_finished i
         else rh_cells h' a = None" for a
  proof (cases "registered a \<and> a \<in># ?fl")
    case True
    then have a: "a \<in># filter_mset registered ?fl" by simp
    obtain n i where c: "rh_cells h' a = Some (n, i)" "n = count (filter_mset registered ?fl) a" by (rule owned_cell [OF h'(2) a])
    have "count ?fl a = 1" "unfinished (rx_heap s) a" using inflightD(1) [OF i, of a] True by auto
    with c h'(3) True show ?thesis by (fastforce simp: unfinished_def)
  next
    case False
    then have "a \<notin># filter_mset registered ?fl" by auto
    with owners_freed_iff [OF h'(2), of a] False show ?thesis by auto
  qed
  with h'(1) show ?thesis by blast
qed

text \<open>The example state with a read in flight.\<close>

lemma demo_rx_reading:
  obtains s :: "nat Reactor_Inner" where "rx_inv {#} {#0x1000#} s" "0x1000 \<in># rx_inflight {#} s"
proof -
  have "sq_contents sample_sq = []" "sq_capacity sample_sq = 2"
    by (simp_all add: sq_contents_def ring_dist_def sq_capacity_def sample_sq_def)
  then have sq: "length (sq_contents (u_sq (rx_uring demo_rx))) \<noteq> sq_capacity (u_sq (rx_uring demo_rx))"
    and fl: "rx_inflight {#} demo_rx = {#TIMER, PARK#}"
    by (simp_all add: rx_inflight_def demo_rx_def sample_cq_uds)
  have a: "registered (0x1000 :: u64)" "0x1000 \<notin># rx_inflight {#} demo_rx" "unfinished (rx_heap demo_rx) 0x1000"
    unfolding fl by (simp_all add: registered_def TIMER_def PARK_def demo_rx_def demo_heap_unfinished)
  from queue_registered_cases [OF demo_rx_inv a, of Debug id] sq that show ?thesis by auto
qed

theorem shutdown_keeps_lent_memory_witness:
  "\<exists>(s :: nat Reactor_Inner) h' n i. rx_inv {#} {#0x1000#} s \<and> ofold rc_drop [0x1000] (rx_heap s) = Done h' \<and>
     rh_cells (rx_heap s) 0x1000 = Some (n, i) \<and> rh_cells h' 0x1000 = Some (1, i)"
proof -
  obtain s :: "nat Reactor_Inner" where s: "rx_inv {#} {#0x1000#} s" "0x1000 \<in># rx_inflight {#} s" by (rule demo_rx_reading)
  have "registered (0x1000 :: u64)" by (simp add: registered_def)
  moreover from shutdown_keeps_lent_memory [OF s(1), of "[0x1000]"] obtain h' where
    "ofold rc_drop [0x1000] (rx_heap s) = Done h'"
    "\<forall>a. if registered a \<and> a \<in># rx_inflight {#} s
         then \<exists>n i. rh_cells (rx_heap s) a = Some (n, i) \<and> rh_cells h' a = Some (1, i) \<and> \<not> ri_finished i
         else rh_cells h' a = None" by auto
  ultimately show ?thesis using s by (metis (no_types, lifting))
qed

end
