(* ===== verification/Async_Ops.thy ===== *)
theory Async_Ops
  imports Reactor_Safety
begin

text \<open>
  The futures of \<open>tokio-uring-reactor/src/reactor/\<close>: \<open>async_read.rs\<close>, \<open>async_write.rs\<close> and
  \<open>async_poll.rs\<close>. A read or a write hands its buffer and its file to a registration for as long as the
  kernel works on them and gives both back with the result. \<open>AsyncRead\<close> and \<open>AsyncWrite\<close> are the same
  code up to the operation they queue and the type of their context; the shared body is \<open>op_new\<close> and
  \<open>op_poll\<close>, with the downcast to the context's type as an argument. The registrations of one thread
  carry contexts of several types: \<open>any_data\<close> is their sum, as \<open>dyn Any\<close> is in the code.
\<close>

section \<open>Reads and writes\<close>

record ('t, 'f) Context =
  cx_iovec :: iovec
  cx_buffer :: 't
  cx_file :: 'f

record ('t, 'f) AsyncError =
  ae_error :: io_error
  ae_buffer :: 't
  ae_file :: 'f

definition Context_with_error :: "('t, 'f) Context \<Rightarrow> io_error \<Rightarrow> ('t, 'f) AsyncError" where
  "Context_with_error c e = \<lparr>ae_error = e, ae_buffer = cx_buffer c, ae_file = cx_file c\<rparr>"

text \<open>\<open>impl From<AsyncReadError<T, F>> for io::Error\<close>: the buffer and the file are dropped.\<close>

definition AsyncError_into_io :: "('t, 'f) AsyncError \<Rightarrow> io_error" where
  "AsyncError_into_io e = ae_error e"

text \<open>The same of \<open>async_write.rs\<close>, where the type is called \<open>AsyncWriteError\<close>.\<close>

definition AsyncWrite_with_error :: "('t, 'f) Context \<Rightarrow> io_error \<Rightarrow> ('t, 'f) AsyncError" where
  "AsyncWrite_with_error c e = \<lparr>ae_error = e, ae_buffer = cx_buffer c, ae_file = cx_file c\<rparr>"

definition AsyncWriteError_into_io :: "('t, 'f) AsyncError \<Rightarrow> io_error" where
  "AsyncWriteError_into_io e = ae_error e"

datatype ('t, 'f) op_state = Pending u64 | InitFailed "('t, 'f) AsyncError" | Closed

datatype ('t, 'f) any_data = AnyRead "('t, 'f) Context" | AnyWrite "('t, 'f) Context" | AnyUnit

fun downcast_read :: "('t, 'f) any_data \<Rightarrow> ('t, 'f) Context option" where
  "downcast_read (AnyRead c) = Some c"
| "downcast_read _ = None"

fun downcast_write :: "('t, 'f) any_data \<Rightarrow> ('t, 'f) Context option" where
  "downcast_write (AnyWrite c) = Some c"
| "downcast_write _ = None"

text \<open>
  What the code gets from its environment: the allocator, the slice of a buffer (\<open>AsMut<[u8]>\<close> or
  \<open>AsRef<[u8]>\<close>), the descriptor of a file (\<open>AsRawFd\<close>) and the address of the context's \<open>iovec\<close>
  inside the box of a registration.
\<close>

record ('t, 'f) op_env =
  oe_alloc :: "('t, 'f) any_data rc_heap \<Rightarrow> u64"
  oe_slice :: "'t \<Rightarrow> fat_ptr"
  oe_fd :: "'f \<Rightarrow> i32"
  oe_iovec :: "u64 \<Rightarrow> u64"

type_synonym ('t, 'f) any_rx = "('t, 'f) any_data Reactor_Inner"

type_synonym ('t, 'f) queue_op =
  "i32 \<Rightarrow> u64 \<Rightarrow> fat_ptr \<Rightarrow> u64 \<Rightarrow> ('t, 'f) any_rx \<Rightarrow> ((unit, io_error) rresult \<times> ('t, 'f) any_rx) outcome"

definition fill_iovec :: "('t, 'f) op_env \<Rightarrow> ('t, 'f) Context \<Rightarrow> ('t, 'f) Context" where
  "fill_iovec E d = d\<lparr>cx_iovec := iovec_from (oe_slice E (cx_buffer d))\<rparr>"

definition op_new ::
  "('t, 'f) op_env \<Rightarrow> (('t, 'f) any_data \<Rightarrow> ('t, 'f) Context option) \<Rightarrow> (('t, 'f) Context \<Rightarrow> ('t, 'f) any_data) \<Rightarrow>
   ('t, 'f) queue_op \<Rightarrow> bool \<Rightarrow> 'f \<Rightarrow> u64 \<Rightarrow> 't \<Rightarrow> ('t, 'f) any_rx \<Rightarrow> (('t, 'f) op_state \<times> ('t, 'f) any_rx) outcome"
where
  "op_new E downcast upcast queue alive file offset buffer s =
     (let fd = oe_fd E file;
          context = \<lparr>cx_iovec = iovec_empty, cx_buffer = buffer, cx_file = file\<rparr> in
      case Handle_inner_mut alive of
        Err e \<Rightarrow> Done (InitFailed (Context_with_error context e), s)
      | Ok _ \<Rightarrow>
          let (reg, h) = Registration_new (oe_alloc E) (upcast context) (rx_heap s) in
          obind (Registration_data_mut downcast upcast reg (fill_iovec E) h) (\<lambda>(_, h).
          let iovec = \<lparr>fp_ptr = oe_iovec E reg, fp_len = 1\<rparr> in
          obind (Registration_to_raw reg h) (\<lambda>(raw, h).
          obind (queue fd offset iovec raw (s\<lparr>rx_heap := h\<rparr>)) (\<lambda>(queue_result, s).
          case queue_result of
            Err e \<Rightarrow>
              obind (Registration_abort downcast reg (rx_heap s)) (\<lambda>(aborted, h).
              obind (expect ''registration context'' aborted) (\<lambda>context.
                Done (InitFailed (Context_with_error context e), s\<lparr>rx_heap := h\<rparr>)))
          | Ok _ \<Rightarrow> Done (Pending reg, s)))))"

definition AsyncRead_new :: "profile \<Rightarrow> ('t, 'f) op_env \<Rightarrow> bool \<Rightarrow> 'f \<Rightarrow> u64 \<Rightarrow> 't \<Rightarrow> ('t, 'f) any_rx \<Rightarrow>
  (('t, 'f) op_state \<times> ('t, 'f) any_rx) outcome" where
  "AsyncRead_new p E = op_new E downcast_read AnyRead (queue_async_read p)"

definition AsyncWrite_new :: "profile \<Rightarrow> ('t, 'f) op_env \<Rightarrow> bool \<Rightarrow> 'f \<Rightarrow> u64 \<Rightarrow> 't \<Rightarrow> ('t, 'f) any_rx \<Rightarrow>
  (('t, 'f) op_state \<times> ('t, 'f) any_rx) outcome" where
  "AsyncWrite_new p E = op_new E downcast_write AnyWrite (queue_async_write p)"

text \<open>The result of a finished operation: a negative result is an error number.\<close>

definition op_result :: "profile \<Rightarrow> UringResult \<Rightarrow> ('t, 'f) Context \<Rightarrow>
  (usize \<times> 't \<times> 'f, ('t, 'f) AsyncError) rresult outcome" where
  "op_result p r context =
     (if sint (ur_result r) < 0 then
        obind (rust_neg_i32 p (ur_result r)) (\<lambda>e. Done (Err (Context_with_error context (RawOsError e))))
      else Done (Ok (scast (ur_result r), cx_buffer context, cx_file context)))"

text \<open>
  \<open>poll\<close> of the two kinds of futures. Replacing the state by \<open>Closed\<close> drops the old one, with the
  registration it holds.
\<close>

definition op_poll :: "profile \<Rightarrow> (('t, 'f) any_data \<Rightarrow> ('t, 'f) Context option) \<Rightarrow> task option \<Rightarrow>
  ('t, 'f) op_state \<Rightarrow> ('t, 'f) any_data rc_heap \<Rightarrow>
  (((usize \<times> 't \<times> 'f) Async, ('t, 'f) AsyncError) rresult \<times> ('t, 'f) op_state \<times> ('t, 'f) any_data rc_heap) outcome" where
  "op_poll p downcast cur st h =
     (case st of
        Pending reg \<Rightarrow>
          obind (Registration_poll cur downcast reg h) (\<lambda>(polled, h).
          case polled of
            NotReady \<Rightarrow> Done (Ok NotReady, Pending reg, h)
          | Ready (r, context) \<Rightarrow>
              obind (op_result p r context) (\<lambda>result.
              obind (rc_drop reg h) (\<lambda>h.
                Done (case result of Ok x \<Rightarrow> Ok (Ready x) | Err e \<Rightarrow> Err e, Closed, h))))
      | InitFailed e \<Rightarrow> Done (Err e, Closed, h)
      | Closed \<Rightarrow> Panic ''already finished'')"

definition op_poll_async :: "profile \<Rightarrow> (('t, 'f) any_data \<Rightarrow> ('t, 'f) Context option) \<Rightarrow> task \<Rightarrow>
  ('t, 'f) op_state \<Rightarrow> ('t, 'f) any_data rc_heap \<Rightarrow>
  ((usize \<times> 't \<times> 'f, ('t, 'f) AsyncError) rresult Async \<times> ('t, 'f) op_state \<times> ('t, 'f) any_data rc_heap) outcome" where
  "op_poll_async p downcast waker st h =
     (case st of
        Pending reg \<Rightarrow>
          obind (Registration_poll_async waker downcast reg h) (\<lambda>(polled, h).
          case polled of
            NotReady \<Rightarrow> Done (NotReady, Pending reg, h)
          | Ready (r, context) \<Rightarrow>
              obind (op_result p r context) (\<lambda>result.
              obind (rc_drop reg h) (\<lambda>h. Done (Ready result, Closed, h))))
      | InitFailed e \<Rightarrow> Done (Ready (Err e), Closed, h)
      | Closed \<Rightarrow> Panic ''already finished'')"

definition AsyncRead_poll where "AsyncRead_poll p = op_poll p downcast_read"
definition AsyncWrite_poll where "AsyncWrite_poll p = op_poll p downcast_write"
definition AsyncRead_poll_async where "AsyncRead_poll_async p = op_poll_async p downcast_read"
definition AsyncWrite_poll_async where "AsyncWrite_poll_async p = op_poll_async p downcast_write"

text \<open>Dropping a future drops the registration of a pending operation, and nothing else.\<close>

definition op_drop :: "('t, 'f) op_state \<Rightarrow> ('t, 'f) any_data rc_heap \<Rightarrow> ('t, 'f) any_data rc_heap outcome" where
  "op_drop st h = (case st of Pending reg \<Rightarrow> rc_drop reg h | _ \<Rightarrow> Done h)"

section \<open>Handles\<close>

definition Handle_async_read where "Handle_async_read p E alive f offset buf s = AsyncRead_new p E alive f offset buf s"
definition Handle_async_write where "Handle_async_write p E alive f offset buf s = AsyncWrite_new p E alive f offset buf s"

section \<open>Polls\<close>

text \<open>The field \<open>handle\<close> is the reactor's weak reference; whether it is alive is an argument.\<close>

record AsyncPoll =
  ap_fd :: i32
  ap_active :: bool
  ap_flags :: u16
  ap_registration :: u64

definition AsyncPoll_new :: "('t, 'f) op_env \<Rightarrow> i32 \<Rightarrow> u16 \<Rightarrow> ('t, 'f) any_data rc_heap \<Rightarrow>
  AsyncPoll \<times> ('t, 'f) any_data rc_heap" where
  "AsyncPoll_new E fd pflags h =
     (let (registration, h) = Registration_new (oe_alloc E) AnyUnit h in
      (\<lparr>ap_fd = fd, ap_active = False, ap_flags = pflags, ap_registration = registration\<rparr>, h))"

definition Handle_async_poll where "Handle_async_poll E fd pflags h = AsyncPoll_new E fd pflags h"

definition PollFlags_from_bits_truncate :: "libc_poll \<Rightarrow> u16 \<Rightarrow> u16" where
  "PollFlags_from_bits_truncate lc bits = bits AND PollFlags_all lc"

text \<open>The part before and after the registration is asked, for both kinds of tasks.\<close>

definition AsyncPoll_start :: "profile \<Rightarrow> bool \<Rightarrow> AsyncPoll \<Rightarrow> ('t, 'f) any_rx \<Rightarrow>
  ((unit, io_error) rresult \<times> AsyncPoll \<times> ('t, 'f) any_rx) outcome" where
  "AsyncPoll_start p alive ap s =
     (case Handle_inner_mut alive of
        Err e \<Rightarrow> Done (Err e, ap, s)
      | Ok _ \<Rightarrow>
          obind (Registration_to_raw (ap_registration ap) (rx_heap s)) (\<lambda>(raw, h).
          obind (queue_async_poll p (ap_fd ap) (ap_flags ap) raw (s\<lparr>rx_heap := h\<rparr>)) (\<lambda>(r, s).
          case r of
            Err e \<Rightarrow> Done (Err e, ap, s)
          | Ok _ \<Rightarrow> Done (Ok (), ap\<lparr>ap_active := True\<rparr>, s))))"

definition AsyncPoll_result :: "profile \<Rightarrow> libc_poll \<Rightarrow> UringResult \<Rightarrow> (u16, io_error) rresult outcome" where
  "AsyncPoll_result p lc r =
     (if sint (ur_result r) < 0 then obind (rust_neg_i32 p (ur_result r)) (\<lambda>e. Done (Err (RawOsError e)))
      else Done (Ok (PollFlags_from_bits_truncate lc (ucast (ur_result r)))))"

definition AsyncPoll_poll :: "profile \<Rightarrow> libc_poll \<Rightarrow> bool \<Rightarrow> task option \<Rightarrow> AsyncPoll \<Rightarrow> ('t, 'f) any_rx \<Rightarrow>
  ((u16 option Async, io_error) rresult \<times> AsyncPoll \<times> ('t, 'f) any_rx) outcome" where
  "AsyncPoll_poll p lc alive cur ap s =
     (if \<not> ap_active ap then
        obind (AsyncPoll_start p alive ap s) (\<lambda>(r, ap, s).
        case r of
          Err e \<Rightarrow> Done (Err e, ap, s)
        | Ok _ \<Rightarrow> obind (Registration_track cur (ap_registration ap) (rx_heap s)) (\<lambda>h.
            Done (Ok NotReady, ap, s\<lparr>rx_heap := h\<rparr>)))
      else
        obind (poll_stream_and_reset cur (ap_registration ap) (rx_heap s)) (\<lambda>(polled, h).
        let s = s\<lparr>rx_heap := h\<rparr> in
        case polled of
          NotReady \<Rightarrow> Done (Ok NotReady, ap, s)
        | Ready r \<Rightarrow> obind (AsyncPoll_result p lc r) (\<lambda>result.
            Done (case result of Ok fl \<Rightarrow> Ok (Ready (Some fl)) | Err e \<Rightarrow> Err e, ap\<lparr>ap_active := False\<rparr>, s))))"

definition AsyncPoll_poll_async :: "profile \<Rightarrow> libc_poll \<Rightarrow> bool \<Rightarrow> task \<Rightarrow> AsyncPoll \<Rightarrow> ('t, 'f) any_rx \<Rightarrow>
  ((u16, io_error) rresult Async \<times> AsyncPoll \<times> ('t, 'f) any_rx) outcome" where
  "AsyncPoll_poll_async p lc alive waker ap s =
     (if \<not> ap_active ap then
        obind (AsyncPoll_start p alive ap s) (\<lambda>(r, ap, s).
        case r of
          Err e \<Rightarrow> Done (Ready (Err e), ap, s)
        | Ok _ \<Rightarrow> obind (Registration_track_async waker (ap_registration ap) (rx_heap s)) (\<lambda>h.
            Done (NotReady, ap, s\<lparr>rx_heap := h\<rparr>)))
      else
        obind (poll_stream_and_reset_async waker (ap_registration ap) (rx_heap s)) (\<lambda>(polled, h).
        let s = s\<lparr>rx_heap := h\<rparr> in
        case polled of
          NotReady \<Rightarrow> Done (NotReady, ap, s)
        | Ready r \<Rightarrow> obind (AsyncPoll_result p lc r) (\<lambda>result.
            Done (Ready result, ap\<lparr>ap_active := False\<rparr>, s))))"

definition AsyncPoll_drop :: "AsyncPoll \<Rightarrow> ('t, 'f) any_data rc_heap \<Rightarrow> ('t, 'f) any_data rc_heap outcome" where
  "AsyncPoll_drop ap h = rc_drop (ap_registration ap) h"


text \<open>The cell of a started operation.\<close>

definition op_cell :: "('t, 'f) op_env \<Rightarrow> (('t, 'f) Context \<Rightarrow> ('t, 'f) any_data) \<Rightarrow> 'f \<Rightarrow> 't \<Rightarrow> ('t, 'f) any_data RegInner" where
  "op_cell E upcast file buffer = RegInner_default\<lparr>ri_data := Some (upcast
     \<lparr>cx_iovec = iovec_from (oe_slice E buffer), cx_buffer = buffer, cx_file = file\<rparr>)\<rparr>"

section \<open>Example states\<close>

text \<open>
  A reactor without registrations whose completion ring holds a timer and a park completion; buffers
  and files are numbers, and the allocator's next cell is at 0x1000.
\<close>

definition demo_arx :: "(nat, nat) any_rx" where
  "demo_arx = \<lparr>rx_uring = rx_uring demo_rx, rx_cs = demo_cs, rx_timerfd = 6, rx_timer = Disarmed,
     rx_read_buf = \<lparr>fp_ptr = 0x4000, fp_len = 32\<rparr>, rx_read_iovec = iovec_empty,
     rx_heap = \<lparr>rh_cells = (\<lambda>_. None), rh_woken = []\<rparr>, rx_enters = []\<rparr>"

definition demo_env :: "(nat, nat) op_env" where
  "demo_env = \<lparr>oe_alloc = (\<lambda>_. 0x1000), oe_slice = (\<lambda>n. \<lparr>fp_ptr = 0x9000, fp_len = of_nat n\<rparr>),
     oe_fd = of_nat, oe_iovec = (\<lambda>a. a + 0x20)\<rparr>"

section \<open>Changing the heap under the reactor\<close>

lemma rx_inv_heap:
  assumes inv: "rx_inv k own s" and own: "owners_ok h (filter_mset registered (rx_inflight k s) + own')"
    and unf: "\<And>a. a \<in># rx_inflight k s \<Longrightarrow> registered a \<Longrightarrow> unfinished (rx_heap s) a \<Longrightarrow> unfinished h a"
  shows "rx_inv k own' (s\<lparr>rx_heap := h\<rparr>)"
proof -
  have "inflight_ok (rx_inflight k s) own (rx_cs s) (rx_heap s)" using inv by (simp add: rx_inv_def)
  then have "inflight_ok (rx_inflight k s) own' (rx_cs s) h" using own unf unfolding inflight_ok_def by blast
  with inv show ?thesis by (simp add: rx_inv_def rx_inflight_def)
qed

lemma rx_inflight_heap [simp]: "rx_inflight k (s\<lparr>rx_heap := h\<rparr>) = rx_inflight k s"
  by (simp add: rx_inflight_def)

lemma rx_inv_owners: "rx_inv k own s \<Longrightarrow> owners_ok (rx_heap s) (filter_mset registered (rx_inflight k s) + own)"
  by (simp add: rx_inv_def inflight_ok_def)

lemma rx_inv_fresh:
  assumes inv: "rx_inv k own s" and fresh: "rh_cells (rx_heap s) a = None"
  shows "a \<notin># own" "registered a \<Longrightarrow> a \<notin># rx_inflight k s"
  using owners_freed_iff [OF rx_inv_owners [OF inv], of a] fresh by auto

text \<open>Allocating a cell with some handles on it.\<close>

lemma rx_inv_alloc:
  assumes inv: "rx_inv k own s" and fresh: "rh_cells (rx_heap s) a = None" and a: "registered a" and n: "0 < n"
  shows "rx_inv k (replicate_mset n a + own) (s\<lparr>rx_heap := (rx_heap s)\<lparr>rh_cells := (rh_cells (rx_heap s))(a \<mapsto> (n, i))\<rparr>\<rparr>)"
proof (rule rx_inv_heap [OF inv])
  let ?fl = "filter_mset registered (rx_inflight k s)"
  have "count (?fl + own) a = 0" using owners_okD(1) [OF rx_inv_owners [OF inv] fresh] .
  with n show "owners_ok ((rx_heap s)\<lparr>rh_cells := (rh_cells (rx_heap s))(a \<mapsto> (n, i))\<rparr>) (?fl + (replicate_mset n a + own))"
    by (intro owners_update [OF rx_inv_owners [OF inv]]) auto
next
  fix b assume "b \<in># rx_inflight k s" "registered b" "unfinished (rx_heap s) b"
  with rx_inv_fresh(2) [OF inv fresh a] show
    "unfinished ((rx_heap s)\<lparr>rh_cells := (rh_cells (rx_heap s))(a \<mapsto> (n, i))\<rparr>) b"
    by (auto simp: unfinished_def)
qed

lemma alloc_okD:
  assumes "alloc_ok alloc h"
  shows "rh_cells h (alloc h) = None" "registered (alloc h)"
  using assms by (auto simp: alloc_ok_def registered_def)

section \<open>Starting a read or a write\<close>

lemma op_new_alive:
  fixes s :: "('t, 'f) any_rx" and E :: "('t, 'f) op_env"
  assumes dc: "\<And>c. downcast (upcast c) = Some c"
  defines "h \<equiv> rx_heap s" and "a \<equiv> oe_alloc E (rx_heap s)"
  shows "op_new E downcast upcast queue True f offset buffer s =
    obind (queue (oe_fd E f) offset \<lparr>fp_ptr = oe_iovec E a, fp_len = 1\<rparr> a
        (s\<lparr>rx_heap := h\<lparr>rh_cells := (rh_cells h)(a \<mapsto> (2, op_cell E upcast f buffer))\<rparr>\<rparr>))
      (\<lambda>(r, s). case r of
         Err e \<Rightarrow> obind (Registration_abort downcast a (rx_heap s)) (\<lambda>(aborted, h).
           obind (expect ''registration context'' aborted) (\<lambda>context.
             Done (InitFailed (Context_with_error context e), s\<lparr>rx_heap := h\<rparr>)))
       | Ok _ \<Rightarrow> Done (Pending a, s))"
  unfolding h_def a_def using dc by (simp add: op_new_def Handle_inner_mut_def Registration_new_def rc_new_def Registration_data_mut_def
      rc_get_def Registration_to_raw_def rc_clone_def rc_put_def strong_def fill_iovec_def op_cell_def
      numeral_2_eq_2 Let_def)

lemma op_new_cases:
  fixes s :: "('t, 'f) any_rx"
  assumes inv: "rx_inv k own s" and alloc: "alloc_ok (oe_alloc E) (rx_heap s)"
    and dc: "\<And>c. downcast (upcast c) = Some c"
    and queue: "\<And>fd off iov reg s. queue fd off iov reg s = queue_registered p (\<lambda>e. fill_entry e (rq fd off iov)) reg s"
  defines "a \<equiv> oe_alloc E (rx_heap s)" and "sq \<equiv> u_sq (rx_uring s)"
  shows "if length (sq_contents sq) = sq_capacity sq
    then \<exists>s'. op_new E downcast upcast queue True f offset buffer s =
        Done (InitFailed \<lparr>ae_error = CustomError KindOther ''submission queue full'', ae_buffer = buffer, ae_file = f\<rparr>, s') \<and>
      rx_inv k own s' \<and> rx_heap s' = rx_heap s \<and> rx_inflight k s' = rx_inflight k s \<and> rx_cs s' = rx_cs s \<and>
      sq_contents (u_sq (rx_uring s')) = sq_contents sq
    else \<exists>s'. op_new E downcast upcast queue True f offset buffer s = Done (Pending a, s') \<and>
      rx_inv k (add_mset a own) s' \<and> rx_inflight k s' = add_mset a (rx_inflight k s) \<and>
      rx_heap s' = (rx_heap s)\<lparr>rh_cells := (rh_cells (rx_heap s))(a \<mapsto> (2, op_cell E upcast f buffer))\<rparr> \<and>
      sq_contents (u_sq (rx_uring s')) = sq_contents sq @
        [(fill_entry zeroed_entry (rq (oe_fd E f) offset \<lparr>fp_ptr = oe_iovec E a, fp_len = 1\<rparr>))\<lparr>se_user_data := a\<rparr>]"
proof -
  have a: "rh_cells (rx_heap s) a = None" "registered a" using alloc_okD [OF alloc] by (simp_all add: a_def)
  let ?h = "(rx_heap s)\<lparr>rh_cells := (rh_cells (rx_heap s))(a \<mapsto> (2, op_cell E upcast f buffer))\<rparr>"
  let ?s = "s\<lparr>rx_heap := ?h\<rparr>"
  have "replicate_mset 2 a + own = add_mset a (add_mset a own)" by (simp add: numeral_2_eq_2)
  then have inv': "rx_inv k (add_mset a (add_mset a own)) ?s" using rx_inv_alloc [OF inv a, of 2] by simp
  have fl: "a \<notin># rx_inflight k ?s" using rx_inv_fresh(2) [OF inv a] by simp
  have unf: "unfinished (rx_heap ?s) a" by (simp add: unfinished_def op_cell_def RegInner_default_def)
  have new: "op_new E downcast upcast queue True f offset buffer s =
    obind (queue_registered p (\<lambda>e. fill_entry e (rq (oe_fd E f) offset \<lparr>fp_ptr = oe_iovec E a, fp_len = 1\<rparr>)) a ?s)
      (\<lambda>(r, s). case r of
         Err e \<Rightarrow> obind (Registration_abort downcast a (rx_heap s)) (\<lambda>(aborted, h).
           obind (expect ''registration context'' aborted) (\<lambda>context.
             Done (InitFailed (Context_with_error context e), s\<lparr>rx_heap := h\<rparr>)))
       | Ok _ \<Rightarrow> Done (Pending a, s))"
    unfolding a_def using op_new_alive [of downcast upcast, OF dc, where E = E and s = s and queue = queue and f = f
      and offset = offset and buffer = buffer] by (simp add: queue)
  note q = queue_registered_cases [OF inv' a(2) fl unf, of p
      "\<lambda>e. fill_entry e (rq (oe_fd E f) offset \<lparr>fp_ptr = oe_iovec E a, fp_len = 1\<rparr>)"]
  show ?thesis
  proof (cases "length (sq_contents sq) = sq_capacity sq")
    case True
    with q obtain s1 where s1: "queue_registered p (\<lambda>e. fill_entry e (rq (oe_fd E f) offset \<lparr>fp_ptr = oe_iovec E a, fp_len = 1\<rparr>)) a ?s =
        Done (Err (CustomError KindOther ''submission queue full''), s1)"
      "rx_inv k (add_mset a own) s1" "rx_inflight k s1 = rx_inflight k s" "rx_cs s1 = rx_cs s"
      "sq_contents (u_sq (rx_uring s1)) = sq_contents sq" "rc_drop a ?h = Done (rx_heap s1)"
      by (auto simp: sq_def)
    have h1: "rx_heap s1 = (rx_heap s)\<lparr>rh_cells := (rh_cells (rx_heap s))(a \<mapsto> (1, op_cell E upcast f buffer))\<rparr>"
      using s1(6) by (simp add: rc_drop_def)
    have "(rh_cells (rx_heap s))(a := None) = rh_cells (rx_heap s)" using a(1) by auto
    then have ab: "Registration_abort downcast a (rx_heap s1) = Done (Some
        \<lparr>cx_iovec = iovec_from (oe_slice E buffer), cx_buffer = buffer, cx_file = f\<rparr>, rx_heap s)"
      by (simp add: h1 Registration_abort_def rc_try_unwrap_def op_cell_def dc)
    have "rx_inv k own (s1\<lparr>rx_heap := rx_heap s\<rparr>)"
    proof (rule rx_inv_heap [OF s1(2)])
      show "owners_ok (rx_heap s) (filter_mset registered (rx_inflight k s1) + own)"
        unfolding s1(3) by (rule rx_inv_owners [OF inv])
      fix b assume "b \<in># rx_inflight k s1" "unfinished (rx_heap s1) b"
      moreover have "a \<notin># rx_inflight k s1" using fl s1(3) by simp
      ultimately show "unfinished (rx_heap s) b" by (auto simp: h1 unfinished_def split: if_splits)
    qed
    with True show ?thesis
      by (simp add: new s1 ab Context_with_error_def)
  next
    case False
    with q show ?thesis unfolding new by (auto simp: sq_def)
  qed
qed


section \<open>Polling and dropping\<close>

lemma op_poll_pending:
  assumes "rh_cells h a = Some (n, i)" "ri_data i = Some d" "\<not> ri_finished i"
  shows "op_poll p downcast (Some t) (Pending a) h =
      Done (Ok NotReady, Pending a, h\<lparr>rh_cells := (rh_cells h)(a \<mapsto> (n, i\<lparr>ri_waker := Old t\<rparr>))\<rparr>)"
    "op_poll_async p downcast t (Pending a) h =
      Done (NotReady, Pending a, h\<lparr>rh_cells := (rh_cells h)(a \<mapsto> (n, i\<lparr>ri_waker := New t\<rparr>))\<rparr>)"
    "op_poll p downcast None (Pending a) h = Panic ''no Task is currently running''"
  using assms by (simp_all add: op_poll_def op_poll_async_def poll_pending_cell Registration_poll_def
      Registration_poll_async_def rc_get_def rc_put_def strong_def register_new_def register_old_def)

lemma op_poll_finished:
  assumes "rh_cells h a = Some (n, i)" "ri_data i = Some d" "ri_finished i" "downcast d = Some c"
  defines "h' \<equiv> h\<lparr>rh_cells := (rh_cells h)(a := if n \<le> 1 then None else Some (n - 1, i\<lparr>ri_data := None\<rparr>))\<rparr>"
  shows "op_poll p downcast cur (Pending a) h =
      obind (op_result p (ri_result i) c) (\<lambda>r. Done (case r of Ok x \<Rightarrow> Ok (Ready x) | Err e \<Rightarrow> Err e, Closed, h'))"
    "op_poll_async p downcast t (Pending a) h =
      obind (op_result p (ri_result i) c) (\<lambda>r. Done (Ready r, Closed, h'))"
  using assms by (simp_all add: op_poll_def op_poll_async_def poll_finished_cell Registration_poll_async_def
      rc_get_def rc_put_def strong_def rc_drop_def Let_def)

lemma op_result_cases:
  "(op_result p r c = Panic ''attempt to negate with overflow'' \<and> p = Debug \<and> sint (ur_result r) = - (2 ^ 31)) \<or>
   (\<exists>x. op_result p r c = Done x)"
  by (simp add: op_result_def rust_neg_i32_def)

text \<open>Updating a cell without touching its count or the flag of a registration in flight.\<close>

lemma rx_inv_cell:
  assumes inv: "rx_inv k own s" and c: "rh_cells (rx_heap s) a = Some (n, i)"
    and fin: "a \<in># rx_inflight k s \<Longrightarrow> ri_finished i' = ri_finished i"
  shows "rx_inv k own (s\<lparr>rx_heap := (rx_heap s)\<lparr>rh_cells := (rh_cells (rx_heap s))(a \<mapsto> (n, i'))\<rparr>\<rparr>)"
proof (rule rx_inv_heap [OF inv])
  show "owners_ok ((rx_heap s)\<lparr>rh_cells := (rh_cells (rx_heap s))(a \<mapsto> (n, i'))\<rparr>) (filter_mset registered (rx_inflight k s) + own)"
    using owners_okD(2) [OF rx_inv_owners [OF inv] c] by (intro owners_update [OF rx_inv_owners [OF inv]]) auto
qed (use c fin in \<open>auto simp: unfinished_def\<close>)

text \<open>A future lets go of its registration, in flight or not, perhaps changing it before.\<close>

lemma rx_inv_release:
  assumes inv: "rx_inv k (add_mset a own) s" and c: "rh_cells (rx_heap s) a = Some (n, i)" and a: "registered a"
    and fin: "a \<in># rx_inflight k s \<Longrightarrow> ri_finished i' = ri_finished i"
  shows "rx_inv k own (s\<lparr>rx_heap := (rx_heap s)\<lparr>rh_cells := (rh_cells (rx_heap s))(a := if n \<le> 1 then None else Some (n - 1, i'))\<rparr>\<rparr>)"
proof (rule rx_inv_heap [OF inv])
  let ?fl = "filter_mset registered (rx_inflight k s)"
  have n: "n = Suc (count (?fl + own) a)" using owners_okD(2) [OF rx_inv_owners [OF inv] c] by simp
  then show "owners_ok ((rx_heap s)\<lparr>rh_cells := (rh_cells (rx_heap s))(a := if n \<le> 1 then None else Some (n - 1, i'))\<rparr>) (?fl + own)"
    by (auto simp del: One_nat_def intro!: owners_update [OF rx_inv_owners [OF inv]])
  fix b assume b: "b \<in># rx_inflight k s" "registered b" "unfinished (rx_heap s) b"
  then have "1 < n" if "b = a" using n that by (simp add: Suc_le_eq)
  with b c fin show "unfinished ((rx_heap s)\<lparr>rh_cells := (rh_cells (rx_heap s))(a := if n \<le> 1 then None else Some (n - 1, i'))\<rparr>) b"
    by (auto simp: unfinished_def)
qed


section \<open>Poll requests\<close>

lemma rx_inv_clone:
  assumes inv: "rx_inv k own s" and c: "rh_cells (rx_heap s) a = Some (n, i)"
  shows "rx_inv k (add_mset a own) (s\<lparr>rx_heap := (rx_heap s)\<lparr>rh_cells := (rh_cells (rx_heap s))(a \<mapsto> (Suc n, i))\<rparr>\<rparr>)"
proof (rule rx_inv_heap [OF inv])
  show "owners_ok ((rx_heap s)\<lparr>rh_cells := (rh_cells (rx_heap s))(a \<mapsto> (Suc n, i))\<rparr>)
      (filter_mset registered (rx_inflight k s) + add_mset a own)"
    using owners_okD(2) [OF rx_inv_owners [OF inv] c] by (intro owners_update [OF rx_inv_owners [OF inv]]) auto
qed (use c in \<open>auto simp: unfinished_def\<close>)

lemma AsyncPoll_start_cases:
  fixes s :: "('t, 'f) any_rx"
  assumes inv: "rx_inv k own s" and c: "rh_cells (rx_heap s) a = Some (n, i)" "\<not> ri_finished i" "0 < n"
    and a: "registered a" "a \<notin># rx_inflight k s" and ap: "ap_registration ap = a"
  defines "sq \<equiv> u_sq (rx_uring s)"
  shows "if length (sq_contents sq) = sq_capacity sq
    then \<exists>s'. AsyncPoll_start p True ap s = Done (Err (CustomError KindOther ''submission queue full''), ap, s') \<and>
      rx_inv k own s' \<and> rx_heap s' = rx_heap s \<and> rx_inflight k s' = rx_inflight k s \<and> rx_cs s' = rx_cs s \<and>
      sq_contents (u_sq (rx_uring s')) = sq_contents sq
    else \<exists>s'. AsyncPoll_start p True ap s = Done (Ok (), ap\<lparr>ap_active := True\<rparr>, s') \<and>
      rx_inv k own s' \<and> rx_inflight k s' = add_mset a (rx_inflight k s) \<and>
      rx_heap s' = (rx_heap s)\<lparr>rh_cells := (rh_cells (rx_heap s))(a \<mapsto> (Suc n, i))\<rparr> \<and>
      sq_contents (u_sq (rx_uring s')) = sq_contents sq @
        [(fill_entry zeroed_entry (ReqPollAdd (FD (ap_fd ap)) (ap_flags ap)))\<lparr>se_user_data := a\<rparr>]"
proof -
  let ?h = "(rx_heap s)\<lparr>rh_cells := (rh_cells (rx_heap s))(a \<mapsto> (Suc n, i))\<rparr>"
  let ?s = "s\<lparr>rx_heap := ?h\<rparr>"
  let ?fill = "\<lambda>e. fill_entry e (ReqPollAdd (FD (ap_fd ap)) (ap_flags ap))"
  have start: "AsyncPoll_start p True ap s = obind (queue_registered p ?fill a ?s)
      (\<lambda>(r, s). case r of Err e \<Rightarrow> Done (Err e, ap, s) | Ok _ \<Rightarrow> Done (Ok (), ap\<lparr>ap_active := True\<rparr>, s))"
    using c(1) ap by (simp add: AsyncPoll_start_def Handle_inner_mut_def Registration_to_raw_def rc_clone_def queue_async_poll_def)
  have unf: "unfinished (rx_heap ?s) a" using c(2) by (simp add: unfinished_def)
  have fl: "a \<notin># rx_inflight k ?s" using a(2) by simp
  note q = queue_registered_cases [OF rx_inv_clone [OF inv c(1)] a(1) fl unf, of p ?fill]
  have undo: "rc_drop a ?h = Done (rx_heap s)"
  proof -
    have "(rh_cells (rx_heap s))(a \<mapsto> (n, i)) = rh_cells (rx_heap s)" using c(1) by auto
    with c(3) show ?thesis by (simp add: rc_drop_def)
  qed
  show ?thesis
  proof (cases "length (sq_contents sq) = sq_capacity sq")
    case True
    with q undo show ?thesis unfolding start by (auto simp: sq_def)
  next
    case False
    with q show ?thesis unfolding start by (auto simp: sq_def)
  qed
qed

lemma AsyncPoll_result_cases:
  "(AsyncPoll_result p lc r = Panic ''attempt to negate with overflow'' \<and> p = Debug \<and> sint (ur_result r) = - (2 ^ 31)) \<or>
   (\<exists>x. AsyncPoll_result p lc r = Done x)"
  by (simp add: AsyncPoll_result_def rust_neg_i32_def)

lemma PollFlags_all_full: "PollFlags_all lc = - 1"
  by (simp add: PollFlags_all_def)

text \<open>The two calls of an active poll, and the tracking after the start, on an allocated cell.\<close>

lemma AsyncPoll_poll_active:
  fixes s :: "('t, 'f) any_rx"
  assumes c: "rh_cells (rx_heap s) a = Some (n, i)" and ap: "ap_registration ap = a" "ap_active ap"
  defines "upd \<equiv> \<lambda>i'. s\<lparr>rx_heap := (rx_heap s)\<lparr>rh_cells := (rh_cells (rx_heap s))(a \<mapsto> (n, i'))\<rparr>\<rparr>"
  shows "AsyncPoll_poll p lc alive cur ap s =
      (if ri_finished i
       then obind (AsyncPoll_result p lc (ri_result i)) (\<lambda>r.
         Done (case r of Ok fl \<Rightarrow> Ok (Ready (Some fl)) | Err e \<Rightarrow> Err e, ap\<lparr>ap_active := False\<rparr>, upd (i\<lparr>ri_finished := False\<rparr>)))
       else case cur of None \<Rightarrow> Panic ''no Task is currently running''
         | Some t \<Rightarrow> Done (Ok NotReady, ap, upd (i\<lparr>ri_waker := Old t\<rparr>)))"
    "AsyncPoll_poll_async p lc alive w ap s =
      (if ri_finished i
       then obind (AsyncPoll_result p lc (ri_result i)) (\<lambda>r.
         Done (Ready r, ap\<lparr>ap_active := False\<rparr>, upd (i\<lparr>ri_finished := False\<rparr>)))
       else Done (NotReady, ap, upd (i\<lparr>ri_waker := New w\<rparr>)))"
  using assms by (simp_all add: AsyncPoll_poll_def AsyncPoll_poll_async_def poll_stream_and_reset_def
      poll_stream_and_reset_async_def rc_get_def rc_put_def strong_def register_old_def register_new_def Let_def split: option.split)

lemma track_cell:
  assumes "rh_cells h a = Some (n, i)"
  shows "Registration_track (Some t) a h = Done (h\<lparr>rh_cells := (rh_cells h)(a \<mapsto> (n, i\<lparr>ri_waker := Old t\<rparr>))\<rparr>)"
    "Registration_track None a h = Panic ''no Task is currently running''"
    "Registration_track_async w a h = Done (h\<lparr>rh_cells := (rh_cells h)(a \<mapsto> (n, i\<lparr>ri_waker := New w\<rparr>))\<rparr>)"
  using assms by (simp_all add: Registration_track_def Registration_track_async_def rc_get_def rc_put_def strong_def
      register_old_def register_new_def)

lemma demo_arx_inv: "rx_inv {#} {#} demo_arx"
proof -
  have "sq_contents sample_sq = []" by (simp add: sq_contents_def ring_dist_def sample_sq_def)
  then have fl: "rx_inflight {#} demo_arx = {#TIMER, PARK#}"
    by (simp add: rx_inflight_def demo_arx_def demo_rx_def sample_cq_uds)
  have "inflight_ok {#TIMER, PARK#} {#} demo_cs (rx_heap demo_arx)"
    by (simp add: inflight_ok_def demo_cs_def demo_arx_def owners_ok_def)
  then show ?thesis
    unfolding rx_inv_def fl using sample_sq_wf sample_cq_wf by (simp add: demo_arx_def demo_rx_def demo_cs_def)
qed

lemma demo_env_alloc: "alloc_ok (oe_alloc demo_env) (rx_heap demo_arx)"
  by (simp add: alloc_ok_def demo_env_def demo_arx_def)

lemma demo_arx_room: "length (sq_contents (u_sq (rx_uring demo_arx))) \<noteq> sq_capacity (u_sq (rx_uring demo_arx))"
  by (simp add: demo_arx_def demo_rx_def sq_contents_def ring_dist_def sq_capacity_def sample_sq_def)

section \<open>Properties\<close>

text \<open>
  C18. Starting a read or a write. If the reactor is gone, or its submission ring is full, the future
  is \<open>InitFailed\<close> and holds the error together with the caller's buffer and file, no registration stays
  behind, nothing is queued and the reactor keeps its invariant. Otherwise the future is \<open>Pending\<close> on a
  fresh registration with two owners, the future and the kernel, that holds buffer, file and the
  \<open>iovec\<close> of the buffer's slice; one entry is appended to the submission ring with the file's descriptor,
  the offset, the address of that \<open>iovec\<close> and the registration as user data.
\<close>

theorem async_new_outcomes:
  assumes "rx_inv k own s" "alloc_ok (oe_alloc E) (rx_heap s)"
    and op: "(new, upcast, rq) \<in>
      {(AsyncRead_new p E, AnyRead, \<lambda>fd iov. ReqReadv PrioNone (FD fd) offset ReadWriteFlags_default iov),
       (AsyncWrite_new p E, AnyWrite, \<lambda>fd iov. ReqWritev PrioNone (FD fd) offset ReadWriteFlags_default iov)}"
  defines "sq \<equiv> u_sq (rx_uring s)" and "a \<equiv> oe_alloc E (rx_heap s)"
  shows "new False file offset buffer s =
      Done (InitFailed \<lparr>ae_error = CustomError KindOther ''uring reactor dead'', ae_buffer = buffer, ae_file = file\<rparr>, s) \<and>
    (if length (sq_contents sq) = sq_capacity sq
     then \<exists>s'. new True file offset buffer s =
         Done (InitFailed \<lparr>ae_error = CustomError KindOther ''submission queue full'', ae_buffer = buffer, ae_file = file\<rparr>, s') \<and>
       rx_inv k own s' \<and> rx_heap s' = rx_heap s \<and> sq_contents (u_sq (rx_uring s')) = sq_contents sq
     else \<exists>s'. new True file offset buffer s = Done (Pending a, s') \<and> a \<notin># own \<and>
       rx_inv k (add_mset a own) s' \<and> rx_inflight k s' = add_mset a (rx_inflight k s) \<and>
       rh_cells (rx_heap s') = (rh_cells (rx_heap s))(a \<mapsto> (2, RegInner_default\<lparr>ri_data := Some (upcast
         \<lparr>cx_iovec = iovec_from (oe_slice E buffer), cx_buffer = buffer, cx_file = file\<rparr>)\<rparr>)) \<and>
       sq_contents (u_sq (rx_uring s')) = sq_contents sq @
         [(fill_entry zeroed_entry (rq (oe_fd E file) \<lparr>fp_ptr = oe_iovec E a, fp_len = 1\<rparr>))\<lparr>se_user_data := a\<rparr>])"
proof -
  have dead: "new False file offset buffer s =
      Done (InitFailed \<lparr>ae_error = CustomError KindOther ''uring reactor dead'', ae_buffer = buffer, ae_file = file\<rparr>, s)"
    using op by (auto simp: AsyncRead_new_def AsyncWrite_new_def op_new_def Handle_inner_mut_def Context_with_error_def)
  have own: "a \<notin># own" using rx_inv_fresh(1) [OF assms(1) alloc_okD(1) [OF assms(2)]] by (simp add: a_def)
  from op consider
      "new = op_new E downcast_read upcast (queue_async_read p)" "upcast = AnyRead"
        "rq = (\<lambda>fd iov. ReqReadv PrioNone (FD fd) offset ReadWriteFlags_default iov)"
    | "new = op_new E downcast_write upcast (queue_async_write p)" "upcast = AnyWrite"
        "rq = (\<lambda>fd iov. ReqWritev PrioNone (FD fd) offset ReadWriteFlags_default iov)"
    by (auto simp: AsyncRead_new_def AsyncWrite_new_def)
  then show ?thesis
  proof cases
    case 1
    from op_new_cases [OF assms(1,2), of downcast_read AnyRead "queue_async_read p" p
        "\<lambda>fd off iov. ReqReadv PrioNone (FD fd) off ReadWriteFlags_default iov" "file" offset buffer] dead own
    show ?thesis unfolding 1 by (auto simp: queue_async_read_def op_cell_def sq_def a_def split: if_splits)
  next
    case 2
    from op_new_cases [OF assms(1,2), of downcast_write AnyWrite "queue_async_write p" p
        "\<lambda>fd off iov. ReqWritev PrioNone (FD fd) off ReadWriteFlags_default iov" "file" offset buffer] dead own
    show ?thesis unfolding 2 by (auto simp: queue_async_write_def op_cell_def sq_def a_def split: if_splits)
  qed
qed

theorem async_new_outcomes_witness:
  "\<exists>s'. AsyncRead_new Debug demo_env True 7 0 512 demo_arx = Done (Pending 0x1000, s') \<and>
     rx_inv {#} {#0x1000#} s' \<and> rx_inflight {#} s' = add_mset 0x1000 (rx_inflight {#} demo_arx)"
  using async_new_outcomes [OF demo_arx_inv demo_env_alloc, of "AsyncRead_new Debug demo_env" AnyRead
      "\<lambda>fd iov. ReqReadv PrioNone (FD fd) 0 ReadWriteFlags_default iov" Debug 0 7 512] demo_arx_room
  by (auto simp: demo_env_def)

text \<open>
  C19. Polling a read or a write that holds its registration, in both kinds of tasks. While the kernel
  works the answer is \<open>NotReady\<close> and the polling task is remembered. Once the operation has finished,
  the future becomes \<open>Closed\<close>, its handle is released, and the caller gets the file and the buffer back:
  with the number of bytes if the result is not negative, and with the operating system's error number
  otherwise. A failed start reports its error once; polling a closed future panics.
\<close>

theorem async_poll_outcomes:
  assumes c: "rh_cells h a = Some (n, i)" "ri_data i = Some d" "downcast d = Some cx"
    and res: "\<not> (p = Debug \<and> sint (ur_result (ri_result i)) = - (2 ^ 31))"
  defines "out \<equiv> (if sint (ur_result (ri_result i)) < 0
      then Err \<lparr>ae_error = RawOsError (- ur_result (ri_result i)), ae_buffer = cx_buffer cx, ae_file = cx_file cx\<rparr>
      else Ok (scast (ur_result (ri_result i)), cx_buffer cx, cx_file cx))"
    and "released \<equiv> (rh_cells h)(a := if n \<le> 1 then None else Some (n - 1, i\<lparr>ri_data := None\<rparr>))"
  shows "(if ri_finished i
     then op_poll p downcast cur (Pending a) h =
         Done (case out of Ok x \<Rightarrow> Ok (Ready x) | Err e \<Rightarrow> Err e, Closed, h\<lparr>rh_cells := released\<rparr>) \<and>
       op_poll_async p downcast t (Pending a) h = Done (Ready out, Closed, h\<lparr>rh_cells := released\<rparr>)
     else op_poll p downcast (Some t) (Pending a) h =
         Done (Ok NotReady, Pending a, h\<lparr>rh_cells := (rh_cells h)(a \<mapsto> (n, i\<lparr>ri_waker := Old t\<rparr>))\<rparr>) \<and>
       op_poll_async p downcast t (Pending a) h =
         Done (NotReady, Pending a, h\<lparr>rh_cells := (rh_cells h)(a \<mapsto> (n, i\<lparr>ri_waker := New t\<rparr>))\<rparr>)) \<and>
    op_poll p downcast cur (InitFailed e) h = Done (Err e, Closed, h) \<and>
    op_poll_async p downcast t (InitFailed e) h = Done (Ready (Err e), Closed, h) \<and>
    op_poll p downcast cur Closed h = Panic ''already finished'' \<and>
    op_poll_async p downcast t Closed h = Panic ''already finished''"
proof -
  have r: "op_result p (ri_result i) cx = Done out"
    using res by (auto simp: op_result_def out_def rust_neg_i32_def Context_with_error_def)
  note fin = op_poll_finished(1) [of h a n i d downcast cx p cur] op_poll_finished(2) [of h a n i d downcast cx p t]
  show ?thesis
    using c op_poll_pending(1,2) [OF c(1,2), of p downcast t] fin r
    by (auto simp: op_poll_def op_poll_async_def released_def)
qed

theorem async_poll_outcomes_witness:
  "\<exists>i. AsyncRead_poll Debug (Some 4) (Pending 0x1000)
      \<lparr>rh_cells = [0x1000 \<mapsto> (1, i)], rh_woken = []\<rparr> =
    Done (Ok (Ready (12, 512 :: nat, 7 :: nat)), Closed, \<lparr>rh_cells = (\<lambda>_. None), rh_woken = []\<rparr>)"
proof -
  let ?cx = "\<lparr>cx_iovec = iovec_empty, cx_buffer = 512, cx_file = 7\<rparr> :: (nat, nat) Context"
  let ?i = "\<lparr>ri_result = \<lparr>ur_result = 12, ur_flags = 0\<rparr>, ri_finished = True, ri_waker = Empty, ri_data = Some (AnyRead ?cx)\<rparr>"
  let ?h = "\<lparr>rh_cells = [0x1000 \<mapsto> (1, ?i)], rh_woken = []\<rparr>"
  have "(\<lambda>x. if x = 0x1000 then None else if x = 0x1000 then Some (Suc 0, ?i) else None) = (\<lambda>_ :: u64. None)" by auto
  with async_poll_outcomes [where h = ?h and a = "0x1000" and n = 1 and i = ?i and d = "AnyRead ?cx" and
      downcast = downcast_read and cx = ?cx and p = Debug and cur = "Some 4"]
  show ?thesis by (auto simp: AsyncRead_poll_def fun_upd_def signed_scast_eq)
qed


lemma op_lifecycle:
  assumes inv: "rx_inv k own s" and alloc: "alloc_ok (oe_alloc E) (rx_heap s)"
    and room: "length (sq_contents (u_sq (rx_uring s))) \<noteq> sq_capacity (u_sq (rx_uring s))"
    and res: "\<not> (p = Debug \<and> sint (ur_result r) = - (2 ^ 31))"
    and dc: "\<And>c. downcast (upcast c) = Some c"
    and queue: "\<And>fd off iov reg s. queue fd off iov reg s = queue_registered p (\<lambda>e. fill_entry e (rq fd off iov)) reg s"
  shows "\<exists>a s1 h1 cs2 h2 h3. op_new E downcast upcast queue True f offset buffer s = Done (Pending a, s1) \<and>
    op_poll p downcast (Some t) (Pending a) (rx_heap s1) = Done (Ok NotReady, Pending a, h1) \<and> rh_woken h1 = rh_woken (rx_heap s) \<and>
    handle_completion p a r (rx_cs s1, h1) = Done (cs2, h2) \<and> rh_woken h2 = rh_woken h1 @ [t] \<and>
    op_poll p downcast cur (Pending a) h2 =
      Done (if sint (ur_result r) < 0
            then Err \<lparr>ae_error = RawOsError (- ur_result r), ae_buffer = buffer, ae_file = f\<rparr>
            else Ok (Ready (scast (ur_result r), buffer, f)), Closed, h3) \<and>
    rh_cells h3 = rh_cells (rx_heap s)"
proof -
  define a where "a = oe_alloc E (rx_heap s)"
  have fresh: "rh_cells (rx_heap s) a = None" "registered a" using alloc_okD [OF alloc] by (simp_all add: a_def)
  obtain s1 where s1: "op_new E downcast upcast queue True f offset buffer s = Done (Pending a, s1)"
      "rx_inv k (add_mset a own) s1" "rx_inflight k s1 = add_mset a (rx_inflight k s)"
      "rx_heap s1 = (rx_heap s)\<lparr>rh_cells := (rh_cells (rx_heap s))(a \<mapsto> (2, op_cell E upcast f buffer))\<rparr>"
    using op_new_cases [OF inv alloc, of downcast upcast queue, OF dc queue, where f = f and offset = offset and buffer = buffer] room unfolding a_def by auto
  let ?cx = "\<lparr>cx_iovec = iovec_from (oe_slice E buffer), cx_buffer = buffer, cx_file = f\<rparr>"
  let ?i = "op_cell E upcast f buffer"
  have i: "ri_data ?i = Some (upcast ?cx)" "\<not> ri_finished ?i" by (simp_all add: op_cell_def RegInner_default_def)
  let ?i1 = "?i\<lparr>ri_waker := Old t\<rparr>"
  let ?h1 = "(rx_heap s)\<lparr>rh_cells := (rh_cells (rx_heap s))(a \<mapsto> (2, ?i1))\<rparr>"
  have 1: "op_poll p downcast (Some t) (Pending a) (rx_heap s1) = Done (Ok NotReady, Pending a, ?h1)"
    using op_poll_pending(1) [of "rx_heap s1" a 2 ?i] i by (simp add: s1(4))
  have "rx_inv k (add_mset a own) (s1\<lparr>rx_heap := ?h1\<rparr>)"
    using rx_inv_cell [OF s1(2), of a 2 ?i ?i1] by (simp add: s1(4))
  then have fl: "inflight_ok (rx_inflight k s1) (add_mset a own) (rx_cs s1) ?h1"
    by (simp add: rx_inv_def)
  obtain cs2 h2 where 2: "handle_completion p a r (rx_cs s1, ?h1) = Done (cs2, h2)"
    "rh_woken h2 = rh_woken (rx_heap s) @ [t]"
    "rh_cells h2 a = Some (1, ?i1\<lparr>ri_finished := True, ri_result := r, ri_waker := Empty\<rparr>)"
    "\<forall>b. b \<noteq> a \<longrightarrow> rh_cells h2 b = rh_cells (rx_heap s) b"
    using handle_registered [OF fl _ fresh(2), of p r] s1(3) by (auto simp: CompatWaker_notify_def)
  have out: "op_result p r ?cx = Done (if sint (ur_result r) < 0
      then Err \<lparr>ae_error = RawOsError (- ur_result r), ae_buffer = buffer, ae_file = f\<rparr>
      else Ok (scast (ur_result r), buffer, f))"
    using res by (auto simp: op_result_def rust_neg_i32_def Context_with_error_def)
  have "(rh_cells h2)(a := None) = rh_cells (rx_heap s)" using 2(4) fresh(1) by auto
  with op_poll_finished(1) [OF 2(3), of "upcast ?cx" downcast ?cx p cur] i dc out
  have 3: "op_poll p downcast cur (Pending a) h2 = Done (if sint (ur_result r) < 0
      then Err \<lparr>ae_error = RawOsError (- ur_result r), ae_buffer = buffer, ae_file = f\<rparr>
      else Ok (Ready (scast (ur_result r), buffer, f)), Closed, h2\<lparr>rh_cells := rh_cells (rx_heap s)\<rparr>)"
    by simp
  from s1(1) 1 2(1,2) 3 show ?thesis by fastforce
qed

text \<open>
  C11. A read or a write lends its buffer and file to the kernel and gives both back. With room in the
  submission ring the operation starts; a poll by task \<open>t\<close> before the completion is not ready; the
  completion \<open>r\<close> of the registration wakes \<open>t\<close>; the next poll returns the buffer and the file given to
  \<open>new\<close> with the kernel's result, closes the future, and leaves exactly the registrations that existed
  before.
\<close>

theorem async_lifecycle:
  assumes inv: "rx_inv k own s" and alloc: "alloc_ok (oe_alloc E) (rx_heap s)"
    and room: "length (sq_contents (u_sq (rx_uring s))) \<noteq> sq_capacity (u_sq (rx_uring s))"
    and res: "\<not> (p = Debug \<and> sint (ur_result r) = - (2 ^ 31))"
    and op: "(new, poll) \<in> {(AsyncRead_new p E, AsyncRead_poll p), (AsyncWrite_new p E, AsyncWrite_poll p)}"
  shows "\<exists>a s1 h1 cs2 h2 h3. new True f offset buffer s = Done (Pending a, s1) \<and>
    poll (Some t) (Pending a) (rx_heap s1) = Done (Ok NotReady, Pending a, h1) \<and> rh_woken h1 = rh_woken (rx_heap s) \<and>
    handle_completion p a r (rx_cs s1, h1) = Done (cs2, h2) \<and> rh_woken h2 = rh_woken h1 @ [t] \<and>
    poll cur (Pending a) h2 =
      Done (if sint (ur_result r) < 0
            then Err \<lparr>ae_error = RawOsError (- ur_result r), ae_buffer = buffer, ae_file = f\<rparr>
            else Ok (Ready (scast (ur_result r), buffer, f)), Closed, h3) \<and>
    rh_cells h3 = rh_cells (rx_heap s)"
proof -
  from op consider
      "new = op_new E downcast_read AnyRead (queue_async_read p)" "poll = op_poll p downcast_read"
    | "new = op_new E downcast_write AnyWrite (queue_async_write p)" "poll = op_poll p downcast_write"
    by (auto simp: AsyncRead_new_def AsyncRead_poll_def AsyncWrite_new_def AsyncWrite_poll_def)
  then show ?thesis
  proof cases
    case 1
    show ?thesis unfolding 1
      by (rule op_lifecycle [OF inv alloc room res, where rq = "\<lambda>fd off iov. ReqReadv PrioNone (FD fd) off ReadWriteFlags_default iov"])
        (simp_all add: queue_async_read_def)
  next
    case 2
    show ?thesis unfolding 2
      by (rule op_lifecycle [OF inv alloc room res, where rq = "\<lambda>fd off iov. ReqWritev PrioNone (FD fd) off ReadWriteFlags_default iov"])
        (simp_all add: queue_async_write_def)
  qed
qed

theorem async_lifecycle_witness:
  "\<exists>a s1 h1 cs2 h2 h3. AsyncWrite_new Release demo_env True 7 0 512 demo_arx = Done (Pending a, s1) \<and>
    AsyncWrite_poll Release (Some 4) (Pending a) (rx_heap s1) = Done (Ok NotReady, Pending a, h1) \<and>
    handle_completion Release a \<lparr>ur_result = 300, ur_flags = 0\<rparr> (rx_cs s1, h1) = Done (cs2, h2) \<and>
    rh_woken h2 = rh_woken h1 @ [4] \<and>
    AsyncWrite_poll Release None (Pending a) h2 = Done (Ok (Ready (300, 512, 7)), Closed, h3)"
  using async_lifecycle [OF demo_arx_inv demo_env_alloc demo_arx_room, where p = Release and
      r = "\<lparr>ur_result = 300, ur_flags = 0\<rparr>" and new = "AsyncWrite_new Release demo_env" and
      poll = "AsyncWrite_poll Release" and f = 7 and offset = 0 and buffer = 512 and t = 4 and cur = None]
  by (fastforce simp: signed_scast_eq)


text \<open>
  C20. A poll is a stream of readiness events over one registration. The first call and every call after an
  event queues a poll request for the descriptor and the flags, with the polling task remembered; a dead
  reactor or a full ring is an error that leaves poll and registrations as they were. While the request is
  in flight the answer is \<open>NotReady\<close>. When it has completed, the event is the low 16 bits of the result
  (no bit is truncated), or the error of a negative result, and the registration is reset for
  the next round.
\<close>

theorem poll_stream_outcomes:
  assumes inv: "rx_inv k own s" and c: "rh_cells (rx_heap s) a = Some (n, i)" "0 < n"
    and a: "registered a" "ap_registration ap = a"
    and idle: "\<not> ap_active ap \<Longrightarrow> \<not> ri_finished i \<and> a \<notin># rx_inflight k s"
    and res: "\<not> (p = Debug \<and> sint (ur_result (ri_result i)) = - (2 ^ 31))"
  defines "sq \<equiv> u_sq (rx_uring s)" and "r \<equiv> ur_result (ri_result i)"
    and "upd \<equiv> \<lambda>i'. s\<lparr>rx_heap := (rx_heap s)\<lparr>rh_cells := (rh_cells (rx_heap s))(a \<mapsto> (n, i'))\<rparr>\<rparr>"
  shows "if \<not> ap_active ap
    then AsyncPoll_poll p lc False cur ap s = Done (Err (CustomError KindOther ''uring reactor dead''), ap, s) \<and>
      (if length (sq_contents sq) = sq_capacity sq
       then \<exists>s'. AsyncPoll_poll p lc True cur ap s = Done (Err (CustomError KindOther ''submission queue full''), ap, s') \<and>
         rx_inv k own s' \<and> rx_heap s' = rx_heap s
       else \<exists>s'. AsyncPoll_poll p lc True (Some t) ap s = Done (Ok NotReady, ap\<lparr>ap_active := True\<rparr>, s') \<and>
         rx_inv k own s' \<and> rx_inflight k s' = add_mset a (rx_inflight k s) \<and>
         rh_cells (rx_heap s') = (rh_cells (rx_heap s))(a \<mapsto> (Suc n, i\<lparr>ri_waker := Old t\<rparr>)) \<and>
         sq_contents (u_sq (rx_uring s')) = sq_contents sq @
           [(fill_entry zeroed_entry (ReqPollAdd (FD (ap_fd ap)) (ap_flags ap)))\<lparr>se_user_data := a\<rparr>])
    else if \<not> ri_finished i
    then AsyncPoll_poll p lc alive (Some t) ap s = Done (Ok NotReady, ap, upd (i\<lparr>ri_waker := Old t\<rparr>))
    else AsyncPoll_poll p lc alive cur ap s =
      Done (if sint r < 0 then Err (RawOsError (- r)) else Ok (Ready (Some (ucast r))),
        ap\<lparr>ap_active := False\<rparr>, upd (i\<lparr>ri_finished := False\<rparr>))"
proof (cases "ap_active ap")
  case True
  have "AsyncPoll_result p lc (ri_result i) = Done (if sint r < 0 then Err (RawOsError (- r)) else Ok (ucast r))"
    using res by (auto simp: AsyncPoll_result_def r_def rust_neg_i32_def PollFlags_from_bits_truncate_def PollFlags_all_full)
  with True AsyncPoll_poll_active(1) [OF c(1) a(2) True, of p lc alive] show ?thesis by (simp add: upd_def)
next
  case False
  note st = AsyncPoll_start_cases [OF inv c(1) _ c(2) a(1) _ a(2), of p]
  have dead: "AsyncPoll_poll p lc False cur ap s = Done (Err (CustomError KindOther ''uring reactor dead''), ap, s)"
    using False by (simp add: AsyncPoll_poll_def AsyncPoll_start_def Handle_inner_mut_def)
  show ?thesis
  proof (cases "length (sq_contents sq) = sq_capacity sq")
    case True
    with st idle False dead show ?thesis by (auto simp: AsyncPoll_poll_def sq_def)
  next
    case room: False
    with st idle False obtain s1 where s1: "AsyncPoll_start p True ap s = Done (Ok (), ap\<lparr>ap_active := True\<rparr>, s1)"
      "rx_inv k own s1" "rx_inflight k s1 = add_mset a (rx_inflight k s)"
      "rx_heap s1 = (rx_heap s)\<lparr>rh_cells := (rh_cells (rx_heap s))(a \<mapsto> (Suc n, i))\<rparr>"
      "sq_contents (u_sq (rx_uring s1)) = sq_contents sq @
        [(fill_entry zeroed_entry (ReqPollAdd (FD (ap_fd ap)) (ap_flags ap)))\<lparr>se_user_data := a\<rparr>]"
      by (auto simp: sq_def)
    let ?h = "(rx_heap s1)\<lparr>rh_cells := (rh_cells (rx_heap s1))(a \<mapsto> (Suc n, i\<lparr>ri_waker := Old t\<rparr>))\<rparr>"
    have c1: "rh_cells (rx_heap s1) a = Some (Suc n, i)" using s1(4) by simp
    have "AsyncPoll_poll p lc True (Some t) ap s = Done (Ok NotReady, ap\<lparr>ap_active := True\<rparr>, s1\<lparr>rx_heap := ?h\<rparr>)"
      using False s1(1) track_cell(1) [OF c1, of t] a(2) by (simp add: AsyncPoll_poll_def)
    moreover have "rx_inv k own (s1\<lparr>rx_heap := ?h\<rparr>)" using rx_inv_cell [OF s1(2) c1] by simp
    ultimately show ?thesis using dead False room s1 by simp
  qed
qed

theorem poll_stream_outcomes_witness:
  "\<exists>ap h s'. AsyncPoll_new demo_env 3 1 (rx_heap demo_arx) = (ap, h) \<and>
     AsyncPoll_poll Debug demo_lc True (Some 4) ap (demo_arx\<lparr>rx_heap := h\<rparr>) = Done (Ok NotReady, ap\<lparr>ap_active := True\<rparr>, s')"
proof -
  let ?ap = "\<lparr>ap_fd = 3, ap_active = False, ap_flags = 1, ap_registration = 0x1000\<rparr>"
  let ?i = "RegInner_default\<lparr>ri_data := Some AnyUnit\<rparr> :: (nat, nat) any_data RegInner"
  let ?h = "(rx_heap demo_arx)\<lparr>rh_cells := (rh_cells (rx_heap demo_arx))(0x1000 \<mapsto> (1, ?i))\<rparr>"
  have new: "AsyncPoll_new demo_env 3 1 (rx_heap demo_arx) = (?ap, ?h)"
    by (simp add: AsyncPoll_new_def Registration_new_def rc_new_def demo_env_def)
  have a: "rh_cells (rx_heap demo_arx) 0x1000 = None" "registered (0x1000 :: u64)"
    by (simp_all add: demo_arx_def registered_def)
  have inv: "rx_inv {#} {#0x1000#} (demo_arx\<lparr>rx_heap := ?h\<rparr>)" using rx_inv_alloc [OF demo_arx_inv a, of 1 ?i] by simp
  have fl: "0x1000 \<notin># rx_inflight {#} (demo_arx\<lparr>rx_heap := ?h\<rparr>)" using rx_inv_fresh(2) [OF demo_arx_inv a] by simp
  have c: "rh_cells (rx_heap (demo_arx\<lparr>rx_heap := ?h\<rparr>)) 0x1000 = Some (1, ?i)" by simp
  have i: "ri_result ?i = \<lparr>ur_result = 0, ur_flags = 0\<rparr>" "\<not> ri_finished ?i"
    by (simp_all add: RegInner_default_def UringResult_default_def)
  from poll_stream_outcomes [OF inv c _ a(2), where ap = ?ap and p = Debug and lc = demo_lc and t = 4] demo_arx_room fl i new
  show ?thesis by auto
qed

end
