(* ===== verification/Async_System.thy ===== *)
theory Async_System
  imports Async_Ops Reactor_Lifetime
begin

text \<open>
  A program on one thread: a reactor and the futures \<open>AsyncRead\<close>, \<open>AsyncWrite\<close> and \<open>AsyncPoll\<close> it has
  created and not dropped yet. A step starts a future, polls one (in either kind of task), drops one at
  any time, also while the kernel works for it, parks the reactor in some environment, or drops the reactor,
  after which futures are still started (and fail), polled and dropped. The
  invariant ties the futures to the registrations and to the requests in flight: whatever the program
  does, the memory the kernel was given stays allocated and keeps describing the caller's buffer.
\<close>

section \<open>Programs\<close>

datatype ('t, 'f) fut = FutRead "('t, 'f) op_state" | FutWrite "('t, 'f) op_state" | FutPoll AsyncPoll

text \<open>
  The state: the reactor, the futures, whether the reactor still exists, and the operating system (\<open>'w\<close>). Once the reactor
  is dropped only the registrations in \<open>rx_heap (as_rx st)\<close> are used; the rings stay as they were.
\<close>

record ('t, 'f, 'w) asys =
  as_rx :: "('t, 'f) any_rx"
  as_futs :: "('t, 'f) fut list"
  as_alive :: bool
  as_world :: 'w

definition fut_poll :: "profile \<Rightarrow> libc_poll \<Rightarrow> bool \<Rightarrow> task option \<Rightarrow> ('t, 'f) fut \<Rightarrow> ('t, 'f) any_rx \<Rightarrow>
  (('t, 'f) fut \<times> ('t, 'f) any_rx) outcome" where
  "fut_poll p lc alive cur f s = (case f of
       FutRead st \<Rightarrow> obind (AsyncRead_poll p cur st (rx_heap s)) (\<lambda>(_, st, h). Done (FutRead st, s\<lparr>rx_heap := h\<rparr>))
     | FutWrite st \<Rightarrow> obind (AsyncWrite_poll p cur st (rx_heap s)) (\<lambda>(_, st, h). Done (FutWrite st, s\<lparr>rx_heap := h\<rparr>))
     | FutPoll ap \<Rightarrow> obind (AsyncPoll_poll p lc alive cur ap s) (\<lambda>(_, ap, s). Done (FutPoll ap, s)))"

definition fut_poll_async :: "profile \<Rightarrow> libc_poll \<Rightarrow> bool \<Rightarrow> task \<Rightarrow> ('t, 'f) fut \<Rightarrow> ('t, 'f) any_rx \<Rightarrow>
  (('t, 'f) fut \<times> ('t, 'f) any_rx) outcome" where
  "fut_poll_async p lc alive waker f s = (case f of
       FutRead st \<Rightarrow> obind (AsyncRead_poll_async p waker st (rx_heap s)) (\<lambda>(_, st, h). Done (FutRead st, s\<lparr>rx_heap := h\<rparr>))
     | FutWrite st \<Rightarrow> obind (AsyncWrite_poll_async p waker st (rx_heap s)) (\<lambda>(_, st, h). Done (FutWrite st, s\<lparr>rx_heap := h\<rparr>))
     | FutPoll ap \<Rightarrow> obind (AsyncPoll_poll_async p lc alive waker ap s) (\<lambda>(_, ap, s). Done (FutPoll ap, s)))"

definition fut_drop :: "('t, 'f) fut \<Rightarrow> ('t, 'f) any_data rc_heap \<Rightarrow> ('t, 'f) any_data rc_heap outcome" where
  "fut_drop f h = (case f of FutRead st \<Rightarrow> op_drop st h | FutWrite st \<Rightarrow> op_drop st h | FutPoll ap \<Rightarrow> AsyncPoll_drop ap h)"

datatype ('t, 'f) asys_op =
    NewRead 'f u64 't | NewWrite 'f u64 't | NewPoll i32 u16
  | PollFut nat "task option" | PollFutAsync nat task | DropFut nat
  | ParkOp rx_env | ParkTimeoutOp rx_env nat | DropReactor

definition on_fut :: "nat \<Rightarrow> ('t, 'f, 'w) asys \<Rightarrow> (('t, 'f) fut \<Rightarrow> ('t, 'f) any_rx \<Rightarrow> (('t, 'f) fut \<times> ('t, 'f) any_rx) outcome) \<Rightarrow>
  ('t, 'f, 'w) asys outcome" where
  "on_fut j st f = obind (f (as_futs st ! j) (as_rx st)) (\<lambda>(fu, s). Done (st\<lparr>as_rx := s, as_futs := (as_futs st)[j := fu]\<rparr>))"

primrec asys_exec :: "('w, 'z) os_scheme \<Rightarrow> profile \<Rightarrow> ('t, 'f) op_env \<Rightarrow> libc_poll \<Rightarrow> ('t, 'f) asys_op \<Rightarrow> ('t, 'f, 'w) asys \<Rightarrow>
  ('t, 'f, 'w) asys outcome" where
  "asys_exec os p E lc (NewRead fl off buf) st =
     obind (AsyncRead_new p E (as_alive st) fl off buf (as_rx st)) (\<lambda>(new, s). Done (st\<lparr>as_rx := s, as_futs := as_futs st @ [FutRead new]\<rparr>))"
| "asys_exec os p E lc (NewWrite fl off buf) st =
     obind (AsyncWrite_new p E (as_alive st) fl off buf (as_rx st)) (\<lambda>(new, s). Done (st\<lparr>as_rx := s, as_futs := as_futs st @ [FutWrite new]\<rparr>))"
| "asys_exec os p E lc (NewPoll fd pfl) st =
     (let (ap, h) = AsyncPoll_new E fd pfl (rx_heap (as_rx st)) in
      Done (st\<lparr>as_rx := (as_rx st)\<lparr>rx_heap := h\<rparr>, as_futs := as_futs st @ [FutPoll ap]\<rparr>))"
| "asys_exec os p E lc (PollFut j cur) st = on_fut j st (fut_poll p lc (as_alive st) cur)"
| "asys_exec os p E lc (PollFutAsync j w) st = on_fut j st (fut_poll_async p lc (as_alive st) w)"
| "asys_exec os p E lc (DropFut j) st =
     obind (fut_drop (as_futs st ! j) (rx_heap (as_rx st))) (\<lambda>h.
       Done (st\<lparr>as_rx := (as_rx st)\<lparr>rx_heap := h\<rparr>, as_futs := take j (as_futs st) @ drop (Suc j) (as_futs st)\<rparr>))"
| "asys_exec os p E lc (ParkOp env) st =
     obind (Inner_park p lc env (as_rx st)) (\<lambda>(_, s). Done (st\<lparr>as_rx := s\<rparr>))"
| "asys_exec os p E lc (ParkTimeoutOp env d) st =
     obind (Inner_park_timeout p lc env d (as_rx st)) (\<lambda>(_, s). Done (st\<lparr>as_rx := s\<rparr>))"
| "asys_exec os p E lc DropReactor st =
     Done (st\<lparr>as_alive := False, as_world := Inner_drop os (as_rx st) (as_world st)\<rparr>)"

section \<open>The invariant\<close>

definition op_addrs :: "('t, 'f) op_state \<Rightarrow> u64 list" where
  "op_addrs st = (case st of Pending a \<Rightarrow> [a] | _ \<Rightarrow> [])"

definition fut_addrs :: "('t, 'f) fut \<Rightarrow> u64 list" where
  "fut_addrs f = (case f of FutRead st \<Rightarrow> op_addrs st | FutWrite st \<Rightarrow> op_addrs st | FutPoll ap \<Rightarrow> [ap_registration ap])"

definition futs_addrs :: "('t, 'f) fut list \<Rightarrow> u64 list" where
  "futs_addrs fs = concat (map fut_addrs fs)"

text \<open>
  The registration of a future has one count for the future and one while its request is in flight.
  A read or a write is finished exactly when it is not in flight any more; a poll without a request is
  not finished and not in flight.
\<close>

definition cell_ok :: "u64 multiset \<Rightarrow> 'd rc_heap \<Rightarrow> u64 \<Rightarrow> ('d \<Rightarrow> bool) \<Rightarrow> bool \<Rightarrow> bool" where
  "cell_ok fl h a P act \<longleftrightarrow> registered a \<and>
     (case rh_cells h a of None \<Rightarrow> False
      | Some (n, i) \<Rightarrow> n = Suc (count fl a) \<and> (case ri_data i of None \<Rightarrow> False | Some d \<Rightarrow> P d) \<and>
          (if act then ri_finished i = (a \<notin># fl) else \<not> ri_finished i \<and> a \<notin># fl))"

definition op_ok :: "('d \<Rightarrow> 'c option) \<Rightarrow> u64 multiset \<Rightarrow> 'd rc_heap \<Rightarrow> ('t, 'f) op_state \<Rightarrow> bool" where
  "op_ok downcast fl h st = (case st of Pending a \<Rightarrow> cell_ok fl h a (\<lambda>d. downcast d \<noteq> None) True | _ \<Rightarrow> True)"

definition fut_ok :: "u64 multiset \<Rightarrow> ('t, 'f) any_data rc_heap \<Rightarrow> ('t, 'f) fut \<Rightarrow> bool" where
  "fut_ok fl h f = (case f of FutRead st \<Rightarrow> op_ok downcast_read fl h st | FutWrite st \<Rightarrow> op_ok downcast_write fl h st
     | FutPoll ap \<Rightarrow> cell_ok fl h (ap_registration ap) (\<lambda>d. d = AnyUnit) (ap_active ap))"

text \<open>The memory lent to the kernel: the \<open>iovec\<close> of a context describes the slice of its buffer.\<close>

definition data_ok :: "('t, 'f) op_env \<Rightarrow> ('t, 'f) any_data \<Rightarrow> bool" where
  "data_ok E d = (case d of
       AnyRead c \<Rightarrow> cx_iovec c = iovec_from (oe_slice E (cx_buffer c))
     | AnyWrite c \<Rightarrow> cx_iovec c = iovec_from (oe_slice E (cx_buffer c))
     | AnyUnit \<Rightarrow> True)"

definition lent_ok :: "('t, 'f) op_env \<Rightarrow> ('t, 'f) any_data rc_heap \<Rightarrow> u64 \<Rightarrow> bool" where
  "lent_ok E h a = (case rh_cells h a of None \<Rightarrow> False
     | Some (n, i) \<Rightarrow> (case ri_data i of None \<Rightarrow> False | Some d \<Rightarrow> data_ok E d))"

text \<open>
  The request an entry makes, as the kernel reads it (\<open>decode_entry\<close>), fits what the registration holds: a vectored read for a read's context and
  a vectored write for a write's, on the context's file and with one \<open>iovec\<close>, the context's own; a poll otherwise.
\<close>

definition request_ok :: "('t, 'f) op_env \<Rightarrow> u64 \<Rightarrow> ('t, 'f) any_data \<Rightarrow> SubmissionEntry \<Rightarrow> bool" where
  "request_ok E a d e \<longleftrightarrow> se_user_data e = a \<and> (case d of
       AnyRead c \<Rightarrow> \<exists>off. decode_entry e =
         Some (ReqReadv PrioNone (FD (oe_fd E (cx_file c))) off ReadWriteFlags_default \<lparr>fp_ptr = oe_iovec E a, fp_len = 1\<rparr>)
     | AnyWrite c \<Rightarrow> \<exists>off. decode_entry e =
         Some (ReqWritev PrioNone (FD (oe_fd E (cx_file c))) off ReadWriteFlags_default \<lparr>fp_ptr = oe_iovec E a, fp_len = 1\<rparr>)
     | AnyUnit \<Rightarrow> \<exists>fd fl. decode_entry e = Some (ReqPollAdd (FD fd) fl))"

text \<open>\<open>T a\<close> is the entry that was queued for the registration \<open>a\<close> in flight.\<close>

definition lent_as :: "('t, 'f) op_env \<Rightarrow> (u64 \<Rightarrow> SubmissionEntry) \<Rightarrow> ('t, 'f) any_data rc_heap \<Rightarrow> u64 \<Rightarrow> bool" where
  "lent_as E T h a = (case rh_cells h a of None \<Rightarrow> False
     | Some (n, i) \<Rightarrow> (case ri_data i of None \<Rightarrow> False | Some d \<Rightarrow> data_ok E d \<and> request_ok E a d (T a)))"

definition ring_ok :: "(u64 \<Rightarrow> SubmissionEntry) \<Rightarrow> 'd Reactor_Inner \<Rightarrow> bool" where
  "ring_ok T s \<longleftrightarrow> (\<forall>e \<in> set (sq_contents (u_sq (rx_uring s))). registered (se_user_data e) \<longrightarrow> T (se_user_data e) = e)"

definition client_ok :: "('t, 'f) op_env \<Rightarrow> (u64 \<Rightarrow> SubmissionEntry) \<Rightarrow> ('t, 'f) fut list \<Rightarrow> u64 multiset \<Rightarrow> ('t, 'f) any_data rc_heap \<Rightarrow> bool" where
  "client_ok E T fs fl h \<longleftrightarrow> distinct (futs_addrs fs) \<and> (\<forall>f \<in> set fs. fut_ok fl h f) \<and>
     (\<forall>a \<in># fl. registered a \<longrightarrow> lent_as E T h a)"

definition asys_inv :: "('t, 'f) op_env \<Rightarrow> u64 multiset \<Rightarrow> (u64 \<Rightarrow> SubmissionEntry) \<Rightarrow> ('t, 'f, 'w) asys \<Rightarrow> bool" where
  "asys_inv E k T st \<longleftrightarrow> rx_inv k (mset (futs_addrs (as_futs st))) (as_rx st) \<and>
     client_ok E T (as_futs st) (rx_inflight k (as_rx st)) (rx_heap (as_rx st)) \<and> ring_ok T (as_rx st)"

text \<open>
  What a step relies on: futures are used while they exist, the allocator works, and the environment of
  a park completes only what is in flight.
\<close>

definition asys_ok :: "('t, 'f) op_env \<Rightarrow> u64 multiset \<Rightarrow> ('t, 'f) asys_op \<Rightarrow> ('t, 'f, 'w) asys \<Rightarrow> bool" where
  "asys_ok E k p st = (case p of
       NewRead fl off buf \<Rightarrow> alloc_ok (oe_alloc E) (rx_heap (as_rx st))
     | NewWrite fl off buf \<Rightarrow> alloc_ok (oe_alloc E) (rx_heap (as_rx st))
     | NewPoll fd pfl \<Rightarrow> alloc_ok (oe_alloc E) (rx_heap (as_rx st))
     | PollFut j cur \<Rightarrow> j < length (as_futs st)
     | PollFutAsync j w \<Rightarrow> j < length (as_futs st)
     | DropFut j \<Rightarrow> j < length (as_futs st)
     | ParkOp env \<Rightarrow> as_alive st \<and> env_ok env k (cs_park (rx_cs (as_rx st)))
     | ParkTimeoutOp env d \<Rightarrow> as_alive st \<and> env_ok env k (cs_park (rx_cs (as_rx st)))
     | DropReactor \<Rightarrow> as_alive st)"

definition async_panics :: "string set" where
  "async_panics = {''no Task is currently running'', ''already finished'',
     ''attempt to negate with overflow'', ''attempt to subtract with overflow''}"

text \<open>One future \<open>f\<close> beside the others, as a step sees it.\<close>

definition beside :: "('t, 'f) op_env \<Rightarrow> (u64 \<Rightarrow> SubmissionEntry) \<Rightarrow> ('t, 'f) fut list \<Rightarrow> u64 multiset \<Rightarrow> ('t, 'f) fut \<Rightarrow> ('t, 'f) any_rx \<Rightarrow> bool" where
  "beside E T fs k f s \<longleftrightarrow> rx_inv k (mset (fut_addrs f) + mset (futs_addrs fs)) s \<and>
     client_ok E T fs (rx_inflight k s) (rx_heap s) \<and> fut_ok (rx_inflight k s) (rx_heap s) f \<and>
     set (fut_addrs f) \<inter> set (futs_addrs fs) = {} \<and> ring_ok T s"

definition some_beside :: "('t, 'f) op_env \<Rightarrow> ('t, 'f) fut list \<Rightarrow> u64 multiset \<Rightarrow> ('t, 'f) fut \<Rightarrow> ('t, 'f) any_rx \<Rightarrow> bool" where
  "some_beside E fs k f s \<longleftrightarrow> (\<exists>T. beside E T fs k f s)"

text \<open>What one step on a future may do: go on with the invariant kept, or panic for one of the known reasons.\<close>

definition fut_step_ok :: "('t, 'f) op_env \<Rightarrow> ('t, 'f) fut list \<Rightarrow> u64 multiset \<Rightarrow> (('t, 'f) fut \<times> ('t, 'f) any_rx) outcome \<Rightarrow> bool" where
  "fut_step_ok E fs k r \<longleftrightarrow> (case r of Done (f', s') \<Rightarrow> some_beside E fs k f' s' | Panic m \<Rightarrow> m \<in> async_panics | _ \<Rightarrow> False)"

text \<open>A step keeps the invariant or panics for one of the known reasons.\<close>

definition asys_result_ok :: "('t, 'f) op_env \<Rightarrow> ('t, 'f, 'w) asys outcome \<Rightarrow> bool" where
  "asys_result_ok E r \<longleftrightarrow> (\<exists>k T st. r = Done st \<and> asys_inv E k T st) \<or> (\<exists>m \<in> async_panics. r = Panic m)"

text \<open>
  Programs start with a fresh reactor, where nothing but the reactor's own polls may be in flight. The
  requests the kernel holds are determined by the state (\<open>rx_inv_unique\<close> below), so the condition on
  a step speaks of them.
\<close>

definition asys_init :: "('t, 'f, 'w) asys \<Rightarrow> bool" where
  "asys_init st \<longleftrightarrow> as_alive st \<and> as_futs st = [] \<and>
     (\<exists>k. rx_inv k {#} (as_rx st) \<and> filter_mset registered (rx_inflight k (as_rx st)) = {#})"

inductive asys_step :: "('w, 'z) os_scheme \<Rightarrow> profile \<Rightarrow> ('t, 'f) op_env \<Rightarrow> libc_poll \<Rightarrow> ('t, 'f, 'w) asys \<Rightarrow> ('t, 'f, 'w) asys \<Rightarrow> bool"
  for os p E lc where
  step: "(\<And>k. rx_inv k (mset (futs_addrs (as_futs st))) (as_rx st) \<Longrightarrow> asys_ok E k c st) \<Longrightarrow>
    asys_exec os p E lc c st = Done st' \<Longrightarrow> asys_step os p E lc st st'"

text \<open>An example: a fresh reactor in the example operating system.\<close>

definition demo_asys :: "(nat, nat, demo_world) asys" where
  "demo_asys = \<lparr>as_rx = demo_arx, as_futs = [], as_alive = True, as_world = demo_world0\<rparr>"

section \<open>The futures as a client of the reactor\<close>

lemma futs_addrs_simps [simp]:
  "futs_addrs [] = []" "futs_addrs (f # fs) = fut_addrs f @ futs_addrs fs" "futs_addrs (xs @ ys) = futs_addrs xs @ futs_addrs ys"
  by (simp_all add: futs_addrs_def)

lemma fut_addrs_distinct [simp]: "distinct (fut_addrs f)"
  by (simp add: fut_addrs_def op_addrs_def split: fut.split op_state.split)

lemma cell_okD:
  assumes "cell_ok fl h a P act"
  obtains i d where "registered a" "rh_cells h a = Some (Suc (count fl a), i)" "ri_data i = Some d" "P d"
    "if act then ri_finished i = (a \<notin># fl) else \<not> ri_finished i \<and> a \<notin># fl"
  using assms that by (auto simp: cell_ok_def split: option.splits)

lemma cell_ok_frame:
  assumes "rh_cells h' a = rh_cells h a" "count fl' a = count fl a"
  shows "cell_ok fl' h' a P act = cell_ok fl h a P act"
proof -
  have "a \<notin># fl' \<longleftrightarrow> a \<notin># fl" using assms(2) by (simp add: not_in_iff)
  with assms show ?thesis by (auto simp: cell_ok_def split: option.split)
qed

lemma fut_ok_frame:
  assumes "\<And>a. a \<in> set (fut_addrs f) \<Longrightarrow> rh_cells h' a = rh_cells h a \<and> count fl' a = count fl a"
  shows "fut_ok fl' h' f = fut_ok fl h f"
  using assms by (auto simp: fut_ok_def fut_addrs_def op_ok_def op_addrs_def intro!: cell_ok_frame
      split: fut.splits op_state.splits)

text \<open>One address changes, and no future of the list uses it.\<close>

lemma client_frame:
  assumes cl: "client_ok E T fs fl h" and a: "a \<notin> set (futs_addrs fs)"
    and other: "\<And>b. b \<noteq> a \<Longrightarrow> rh_cells h' b = rh_cells h b \<and> count fl' b = count fl b \<and> T' b = T b"
    and lent: "a \<in># fl' \<Longrightarrow> registered a \<Longrightarrow> lent_as E T' h' a"
  shows "client_ok E T' fs fl' h'"
  unfolding client_ok_def
proof (intro conjI ballI impI)
  show "distinct (futs_addrs fs)" using cl by (simp add: client_ok_def)
next
  fix f assume f: "f \<in> set fs"
  then have "b \<noteq> a" if "b \<in> set (fut_addrs f)" for b using a that by (auto simp: futs_addrs_def)
  with other have "fut_ok fl' h' f = fut_ok fl h f" by (intro fut_ok_frame) auto
  with f cl show "fut_ok fl' h' f" by (simp add: client_ok_def)
next
  fix b assume b: "b \<in># fl'" "registered b"
  show "lent_as E T' h' b"
  proof (cases "b = a")
    case False
    with other [of b] b(1) have eq: "b \<in># fl" "rh_cells h' b = rh_cells h b" "T' b = T b" by (auto simp flip: count_greater_zero_iff)
    from cl b(2) eq(1) show ?thesis unfolding client_ok_def lent_as_def eq(2,3) by blast
  qed (use b lent in simp)
qed

lemma lent_as_ok: "lent_as E T h a \<Longrightarrow> lent_ok E h a"
  by (auto simp: lent_as_def lent_ok_def split: option.splits)

lemma client_split:
  "client_ok E T (xs @ f # ys) fl h \<longleftrightarrow>
    client_ok E T (xs @ ys) fl h \<and> fut_ok fl h f \<and> set (fut_addrs f) \<inter> set (futs_addrs (xs @ ys)) = {}"
  by (auto simp: client_ok_def)

lemma cell_ok_complete:
  assumes "cell_ok fl h a P act" "a \<in># fl" "count fl a = 1"
    and "rh_cells h a = Some (n, i)" "rh_cells h' a = Some (n - 1, i\<lparr>ri_finished := True, ri_result := r, ri_waker := Empty\<rparr>)"
  shows "cell_ok (fl - {#a#}) h' a P act"
proof -
  have "a \<notin># fl - {#a#}" using assms(3) by (simp add: not_in_iff)
  with assms show ?thesis by (auto simp: cell_ok_def split: if_splits)
qed

lemma client_complete:
  assumes cl: "client_ok E T fs fl h" and ud: "ud \<in># fl" "registered ud" "count fl ud = 1" "unfinished h ud"
    and run: "RawRegistration_notify ud r h = Done h1" "rc_drop ud h1 = Done h2"
  shows "client_ok E T fs (fl - {#ud#}) h2"
  unfolding client_ok_def
proof (intro conjI ballI impI)
  obtain n i where c: "rh_cells h ud = Some (n, i)" "\<not> ri_finished i"
    using ud(4) by (auto simp: unfinished_def split: option.splits)
  let ?i = "i\<lparr>ri_finished := True, ri_result := r, ri_waker := Empty\<rparr>"
  have h2: "rh_cells h2 = (rh_cells h)(ud := if n \<le> 1 then None else Some (n - 1, ?i))"
    using run notify_cell [OF c, of r] by (auto simp: rc_drop_def)
  have gone: "ud \<notin># fl - {#ud#}" using ud(3) by (simp add: not_in_iff)
  show "distinct (futs_addrs fs)" using cl by (simp add: client_ok_def)
  fix f assume "f \<in> set fs"
  then have f: "fut_ok fl h f" using cl by (simp add: client_ok_def)
  show "fut_ok (fl - {#ud#}) h2 f"
  proof (cases "ud \<in> set (fut_addrs f)")
    case True
    with f have "n = 2" using c ud(3) by (auto simp: fut_ok_def op_ok_def fut_addrs_def op_addrs_def
        elim!: cell_okD split: fut.splits op_state.splits)
    with h2 have "rh_cells h2 ud = Some (n - 1, ?i)" by simp
    then have "cell_ok (fl - {#ud#}) h2 ud P act" if "cell_ok fl h ud P act" for P act
      by (rule cell_ok_complete [OF that ud(1,3) c(1)])
    with f True show ?thesis
      by (auto simp: fut_ok_def op_ok_def fut_addrs_def op_addrs_def split: fut.splits op_state.splits)
  next
    case False
    then have "rh_cells h2 b = rh_cells h b \<and> count (fl - {#ud#}) b = count fl b" if "b \<in> set (fut_addrs f)" for b
      using that h2 by auto
    with f fut_ok_frame [of f h2 h "fl - {#ud#}" fl] show ?thesis by simp
  qed
next
  fix b assume b: "b \<in># fl - {#ud#}" "registered b"
  obtain n i where c: "rh_cells h ud = Some (n, i)" "\<not> ri_finished i"
    using ud(4) by (auto simp: unfinished_def split: option.splits)
  have "b \<noteq> ud" using b(1) ud(3) by (auto simp flip: count_greater_zero_iff)
  then have "rh_cells h2 b = rh_cells h b"
    using run notify_cell [OF c, of r] by (auto simp: rc_drop_def)
  moreover have "b \<in># fl" using b(1) by (rule in_diffD)
  ultimately show "lent_as E T h2 b" using cl b(2) by (simp add: client_ok_def lent_as_def)
qed

lemma fut_registered: "fut_ok fl h f \<Longrightarrow> a \<in> set (fut_addrs f) \<Longrightarrow> registered a"
  by (auto simp: fut_ok_def op_ok_def fut_addrs_def op_addrs_def elim!: cell_okD split: fut.splits op_state.splits)

lemma client_own_poll:
  fixes fs :: "('t, 'f) fut list"
  assumes "\<not> registered ud"
  shows "client_ok E T fs (add_mset ud fl) h = client_ok E T fs fl h"
proof -
  have "fut_ok (add_mset ud fl) h f = fut_ok fl h f" for f :: "('t, 'f) fut"
  proof -
    have "fut_ok fl' h f = fut_ok fl'' h f"
      if "\<And>b. registered b \<Longrightarrow> count fl' b = count fl'' b" for fl' fl''
    proof -
      have "cell_ok fl' h a P act = cell_ok fl'' h a P act" for a act and P :: "('t, 'f) any_data \<Rightarrow> bool"
        using that cell_ok_frame [of h a h fl' fl''] by (cases "registered a") (auto simp: cell_ok_def)
      then show ?thesis by (simp add: fut_ok_def op_ok_def split: fut.split op_state.split)
    qed
    moreover have "count (add_mset ud fl) b = count fl b" if "registered b" for b using that assms by auto
    ultimately show ?thesis by blast
  qed
  then show ?thesis using assms by (auto simp: client_ok_def)
qed

interpretation fut: reactor_client "client_ok E T fs" "\<lambda>_ _. True" for E T fs
  by unfold_locales ((rule client_complete; assumption), fact client_own_poll)


section \<open>Steps of one future\<close>

lemma some_besideI: "beside E T fs k f s \<Longrightarrow> some_beside E fs k f s"
  by (auto simp: some_beside_def)

lemma ring_ok_heap [simp]: "ring_ok T (s\<lparr>rx_heap := h\<rparr>) = ring_ok T s"
  by (simp add: ring_ok_def)

lemma ring_ok_same: "ring_ok T s \<Longrightarrow> sq_contents (u_sq (rx_uring s')) = sq_contents (u_sq (rx_uring s)) \<Longrightarrow> ring_ok T s'"
  by (simp add: ring_ok_def)

lemma ring_ok_queue:
  assumes "ring_ok T s" "sq_contents (u_sq (rx_uring s')) = sq_contents (u_sq (rx_uring s)) @ [e]"
    and "se_user_data e = a" "a \<notin># rx_inflight k s"
  shows "ring_ok (T(a := e)) s'"
proof -
  have "se_user_data x \<noteq> a" if "x \<in> set (sq_contents (u_sq (rx_uring s)))" for x
    using assms(4) that by (auto simp: rx_inflight_def sq_uds_def)
  with assms(1-3) show ?thesis by (auto simp: ring_ok_def)
qed

lemma decode_entry_user_data: "decode_entry (e\<lparr>se_user_data := a\<rparr>) = decode_entry e"
proof -
  have eq: "se_opcode (e\<lparr>se_user_data := a\<rparr>) = se_opcode e" "se_ioprio (e\<lparr>se_user_data := a\<rparr>) = se_ioprio e"
    "se_op_flags (e\<lparr>se_user_data := a\<rparr>) = se_op_flags e" "se_off (e\<lparr>se_user_data := a\<rparr>) = se_off e"
    "se_extra (e\<lparr>se_user_data := a\<rparr>) = se_extra e" "se_len (e\<lparr>se_user_data := a\<rparr>) = se_len e"
    "se_addr (e\<lparr>se_user_data := a\<rparr>) = se_addr e" "se_flags (e\<lparr>se_user_data := a\<rparr>) = se_flags e" "se_fd (e\<lparr>se_user_data := a\<rparr>) = se_fd e"
    by simp_all
  show ?thesis unfolding decode_entry_def entry_target_def entry_slice_def eq ..
qed

lemma decode_queued: "request_fits r \<Longrightarrow> decode_entry ((fill_entry zeroed_entry r)\<lparr>se_user_data := a\<rparr>) = Some r"
  by (simp add: decode_entry_user_data decode_fill_entry)

lemma asys_inv_split:
  "as_futs st = xs @ f # ys \<Longrightarrow> asys_inv E k T st \<longleftrightarrow> beside E T (xs @ ys) k f (as_rx st)"
  by (auto simp: asys_inv_def beside_def client_split union_ac)

text \<open>The future's registration changes, without touching what is lent, and is kept.\<close>

lemma beside_cell:
  assumes b: "beside E T fs k f s" and f: "fut_addrs f = [a]" "fut_addrs f' = [a]"
    and c: "rh_cells (rx_heap s) a = Some (n, i)"
    and i': "a \<in># rx_inflight k s \<Longrightarrow> ri_finished i' = ri_finished i \<and> ri_data i' = ri_data i"
  defines "h' \<equiv> (rx_heap s)\<lparr>rh_cells := (rh_cells (rx_heap s))(a \<mapsto> (n, i'))\<rparr>"
  assumes ok: "fut_ok (rx_inflight k s) h' f'"
  shows "beside E T fs k f' (s\<lparr>rx_heap := h'\<rparr>)"
proof -
  have inv: "rx_inv k (add_mset a (mset (futs_addrs fs))) s" and cl: "client_ok E T fs (rx_inflight k s) (rx_heap s)"
    and a: "a \<notin> set (futs_addrs fs)" using b f(1) by (auto simp: beside_def)
  have "lent_as E T h' a" if l: "a \<in># rx_inflight k s" "registered a"
  proof -
    have "lent_as E T (rx_heap s) a" using cl l by (simp add: client_ok_def)
    with c i' l(1) show ?thesis by (simp add: lent_as_def h'_def)
  qed
  with a have "client_ok E T fs (rx_inflight k s) h'" by (intro client_frame [OF cl a]) (auto simp: h'_def)
  moreover have "rx_inv k (add_mset a (mset (futs_addrs fs))) (s\<lparr>rx_heap := h'\<rparr>)"
    unfolding h'_def using i' by (intro rx_inv_cell [OF inv c]) blast
  moreover have "ring_ok T s" using b by (simp add: beside_def)
  ultimately show ?thesis using ok a f(2) by (simp add: beside_def)
qed

text \<open>The future lets go of its registration.\<close>

lemma beside_release:
  assumes b: "beside E T fs k f s" and f: "fut_addrs f = [a]"
    and c: "rh_cells (rx_heap s) a = Some (n, i)"
    and i': "a \<in># rx_inflight k s \<Longrightarrow> ri_finished i' = ri_finished i \<and> ri_data i' = ri_data i"
  defines "h' \<equiv> (rx_heap s)\<lparr>rh_cells := (rh_cells (rx_heap s))(a := if n \<le> 1 then None else Some (n - 1, i'))\<rparr>"
  shows "rx_inv k (mset (futs_addrs fs)) (s\<lparr>rx_heap := h'\<rparr>)" "client_ok E T fs (rx_inflight k s) h'"
proof -
  have inv: "rx_inv k (add_mset a (mset (futs_addrs fs))) s" and cl: "client_ok E T fs (rx_inflight k s) (rx_heap s)"
    and a: "a \<notin> set (futs_addrs fs)" and r: "registered a"
    using b f by (auto simp: beside_def intro: fut_registered)
  have n: "n = Suc (count (filter_mset registered (rx_inflight k s) + mset (futs_addrs fs)) a)"
    using owners_okD(2) [OF rx_inv_owners [OF inv] c] by simp
  have "lent_as E T h' a" if l: "a \<in># rx_inflight k s" "registered a"
  proof -
    have "lent_as E T (rx_heap s) a" using cl l by (simp add: client_ok_def)
    moreover have "\<not> n \<le> 1" using n l by (simp flip: count_greater_zero_iff)
    ultimately show ?thesis using c i' l(1) by (simp add: lent_as_def h'_def)
  qed
  then show "client_ok E T fs (rx_inflight k s) h'" by (intro client_frame [OF cl a]) (auto simp: h'_def)
  show "rx_inv k (mset (futs_addrs fs)) (s\<lparr>rx_heap := h'\<rparr>)"
    unfolding h'_def using i' by (intro rx_inv_release [OF inv c r]) blast
qed

lemma fut_ok_Closed [simp]:
  "fut_ok fl h (FutRead Closed)" "fut_ok fl h (FutWrite Closed)" "fut_addrs (FutRead Closed) = []" "fut_addrs (FutWrite Closed) = []"
  "fut_ok fl h (FutRead (InitFailed e))" "fut_ok fl h (FutWrite (InitFailed e))"
  "fut_addrs (FutRead (InitFailed e)) = []" "fut_addrs (FutWrite (InitFailed e)) = []"
  "fut_addrs (FutRead (Pending a)) = [a]" "fut_addrs (FutWrite (Pending a)) = [a]" "fut_addrs (FutPoll ap) = [ap_registration ap]"
  by (simp_all add: fut_ok_def op_ok_def fut_addrs_def op_addrs_def)

lemma fut_step_ok_simps [simp]:
  "fut_step_ok E fs k (Done (f', s')) = some_beside E fs k f' s'" "fut_step_ok E fs k (Panic m) = (m \<in> async_panics)"
  by (simp_all add: fut_step_ok_def)

lemma async_panics_simps [simp]:
  "''no Task is currently running'' \<in> async_panics" "''already finished'' \<in> async_panics"
  "''attempt to negate with overflow'' \<in> async_panics" "''attempt to subtract with overflow'' \<in> async_panics"
  by (simp_all add: async_panics_def)


lemma cell_ok_waker:
  assumes "cell_ok fl h a P act" "rh_cells h a = Some (n, i)"
  shows "cell_ok fl (h\<lparr>rh_cells := (rh_cells h)(a \<mapsto> (n, i\<lparr>ri_waker := w\<rparr>))\<rparr>) a P act"
  using assms by (simp add: cell_ok_def)

lemma beside_closed:
  assumes "beside E T fs k f s" "fut_addrs f = [a]" "rh_cells (rx_heap s) a = Some (n, i)" "a \<notin># rx_inflight k s"
    and "fut_addrs f' = []" "\<And>fl h. fut_ok fl h f'"
  shows "beside E T fs k f' (s\<lparr>rx_heap := (rx_heap s)\<lparr>rh_cells :=
    (rh_cells (rx_heap s))(a := if n \<le> 1 then None else Some (n - 1, i'))\<rparr>\<rparr>)"
proof -
  have "ring_ok T s" using assms(1) by (simp add: beside_def)
  with beside_release [OF assms(1-3), of i'] assms(4-6) show ?thesis by (simp add: beside_def)
qed

lemma beside_waker:
  assumes b: "beside E T fs k f s" and f: "fut_addrs f = [a]" and c: "rh_cells (rx_heap s) a = Some (n, i)"
  shows "beside E T fs k f (s\<lparr>rx_heap := (rx_heap s)\<lparr>rh_cells := (rh_cells (rx_heap s))(a \<mapsto> (n, i\<lparr>ri_waker := w\<rparr>))\<rparr>\<rparr>)"
proof (rule beside_cell [OF b f f c])
  let ?h = "(rx_heap s)\<lparr>rh_cells := (rh_cells (rx_heap s))(a \<mapsto> (n, i\<lparr>ri_waker := w\<rparr>))\<rparr>"
  have "fut_ok (rx_inflight k s) (rx_heap s) f" using b by (simp add: beside_def)
  with f c show "fut_ok (rx_inflight k s) ?h f"
    by (auto simp: fut_ok_def op_ok_def fut_addrs_def op_addrs_def intro: cell_ok_waker split: fut.splits op_state.splits)
qed simp

lemma op_poll_beside:
  assumes mk: "(mk, downcast) \<in> {(FutRead, downcast_read), (FutWrite, downcast_write)}"
    and b: "beside E T fs k (mk st) s"
  shows "fut_step_ok E fs k (obind (op_poll p downcast cur st (rx_heap s)) (\<lambda>(_, st, h). Done (mk st, s\<lparr>rx_heap := h\<rparr>)))"
    and "fut_step_ok E fs k (obind (op_poll_async p downcast t st (rx_heap s)) (\<lambda>(_, st, h). Done (mk st, s\<lparr>rx_heap := h\<rparr>)))"
proof -
  let ?P = "\<lambda>r. fut_step_ok E fs k (obind r (\<lambda>(_, st, h). Done (mk st, s\<lparr>rx_heap := h\<rparr>)))"
  have closed: "fut_addrs (mk Closed) = []" "fut_ok fl h (mk Closed)" for fl h using mk by auto
  have "?P (op_poll p downcast cur st (rx_heap s)) \<and>
      fut_step_ok E fs k (obind (op_poll_async p downcast t st (rx_heap s)) (\<lambda>(_, st, h). Done (mk st, s\<lparr>rx_heap := h\<rparr>)))"
  proof (cases st)
    case (Pending a)
    have addr: "fut_addrs (mk st) = [a]" using mk Pending by auto
    have "cell_ok (rx_inflight k s) (rx_heap s) a (\<lambda>d. downcast d \<noteq> None) True"
      using mk b Pending by (auto simp: beside_def fut_ok_def op_ok_def)
    then obtain i d where c: "rh_cells (rx_heap s) a = Some (Suc (count (rx_inflight k s) a), i)" "ri_data i = Some d"
      "downcast d \<noteq> None" "ri_finished i = (a \<notin># rx_inflight k s)" by (rule cell_okD) simp
    then obtain cx where cx: "downcast d = Some cx" by blast
    show ?thesis
    proof (cases "ri_finished i")
      case True
      with c have "a \<notin># rx_inflight k s" by simp
      note cl = beside_closed [OF b addr c(1) this closed, of "i\<lparr>ri_data := None\<rparr>"]
      have "op_result p (ri_result i) cx = Panic ''attempt to negate with overflow'' \<or> (\<exists>x. op_result p (ri_result i) cx = Done x)"
        using op_result_cases by blast
      with some_besideI [OF cl] op_poll_finished [where downcast = downcast, OF c(1,2) True cx, of p] show ?thesis
        unfolding Pending by (elim disjE exE) simp_all
    next
      case False
      show ?thesis
        using op_poll_pending [OF c(1,2) False, of p downcast] some_besideI [OF beside_waker [OF b addr c(1)]]
        by (cases cur) (simp_all add: Pending)
    qed
  next
    case (InitFailed e)
    with b closed mk have "beside E T fs k (mk Closed) s" by (auto simp: beside_def)
    with InitFailed show ?thesis by (auto simp: op_poll_def op_poll_async_def intro: some_besideI)
  qed (simp add: op_poll_def op_poll_async_def)
  then show "?P (op_poll p downcast cur st (rx_heap s))"
    "fut_step_ok E fs k (obind (op_poll_async p downcast t st (rx_heap s)) (\<lambda>(_, st, h). Done (mk st, s\<lparr>rx_heap := h\<rparr>)))"
    by simp_all
qed

text \<open>A poll that queues its request.\<close>

lemma cell_ok_start:
  assumes "cell_ok fl h a P False" "rh_cells h a = Some (n, i)"
  shows "cell_ok (add_mset a fl) (h\<lparr>rh_cells := (rh_cells h)(a \<mapsto> (Suc n, i))\<rparr>) a P True"
  using assms by (simp add: cell_ok_def not_in_iff)

lemma AsyncPoll_start_beside:
  assumes b: "beside E T fs k (FutPoll ap) s" and act: "\<not> ap_active ap"
  shows "\<exists>r ap' s'. AsyncPoll_start p alive ap s = Done (r, ap', s') \<and> some_beside E fs k (FutPoll ap') s' \<and>
    ap_registration ap' = ap_registration ap \<and> (is_err r \<or> ap_active ap' \<and> unfinished (rx_heap s') (ap_registration ap))"
proof -
  let ?a = "ap_registration ap"
  have inv: "rx_inv k (add_mset ?a (mset (futs_addrs fs))) s" and cl: "client_ok E T fs (rx_inflight k s) (rx_heap s)"
    and a: "?a \<notin> set (futs_addrs fs)" and ok: "cell_ok (rx_inflight k s) (rx_heap s) ?a (\<lambda>d. d = AnyUnit) False"
    using b act by (auto simp: beside_def fut_ok_def)
  from ok obtain i d where r: "registered ?a" and c: "rh_cells (rx_heap s) ?a = Some (Suc (count (rx_inflight k s) ?a), i)"
    "ri_data i = Some d" "d = AnyUnit" "\<not> ri_finished i" "?a \<notin># rx_inflight k s" by (rule cell_okD) simp
  let ?n = "Suc (count (rx_inflight k s) ?a)"
  note st = AsyncPoll_start_cases [OF inv c(1,4) zero_less_Suc r c(5) refl, of p]
  consider "\<not> alive" | "alive" "length (sq_contents (u_sq (rx_uring s))) = sq_capacity (u_sq (rx_uring s))"
    | "alive" "length (sq_contents (u_sq (rx_uring s))) \<noteq> sq_capacity (u_sq (rx_uring s))" by blast
  then show ?thesis
  proof cases
    case 1
    with some_besideI [OF b] show ?thesis by (simp add: AsyncPoll_start_def Handle_inner_mut_def)
  next
    case 2
    with st obtain s' where s': "AsyncPoll_start p alive ap s = Done (Err (CustomError KindOther ''submission queue full''), ap, s')"
      "rx_inv k (add_mset ?a (mset (futs_addrs fs))) s'" "rx_heap s' = rx_heap s" "rx_inflight k s' = rx_inflight k s"
      "sq_contents (u_sq (rx_uring s')) = sq_contents (u_sq (rx_uring s))" by auto
    with b have "beside E T fs k (FutPoll ap) s'" by (auto simp: beside_def intro: ring_ok_same)
    with s'(1) show ?thesis by (auto intro: some_besideI)
  next
    case 3
    with st obtain s' where s': "AsyncPoll_start p alive ap s = Done (Ok (), ap\<lparr>ap_active := True\<rparr>, s')"
      "rx_inv k (add_mset ?a (mset (futs_addrs fs))) s'" "rx_inflight k s' = add_mset ?a (rx_inflight k s)"
      "rx_heap s' = (rx_heap s)\<lparr>rh_cells := (rh_cells (rx_heap s))(?a \<mapsto> (Suc ?n, i))\<rparr>"
      "sq_contents (u_sq (rx_uring s')) = sq_contents (u_sq (rx_uring s)) @
        [(fill_entry zeroed_entry (ReqPollAdd (FD (ap_fd ap)) (ap_flags ap)))\<lparr>se_user_data := ?a\<rparr>]"
      by auto
    let ?e = "(fill_entry zeroed_entry (ReqPollAdd (FD (ap_fd ap)) (ap_flags ap)))\<lparr>se_user_data := ?a\<rparr>"
    have "request_ok E ?a AnyUnit ?e"
      using decode_queued [of "ReqPollAdd (FD (ap_fd ap)) (ap_flags ap)" ?a] by (simp add: request_ok_def)
    then have "client_ok E (T(?a := ?e)) fs (rx_inflight k s') (rx_heap s')"
      by (intro client_frame [OF cl a]) (use c in \<open>auto simp: s' lent_as_def data_ok_def\<close>)
    moreover have "ring_ok (T(?a := ?e)) s'"
      by (rule ring_ok_queue [OF _ s'(5) _ c(5)]) (use b in \<open>simp_all add: beside_def\<close>)
    moreover have "fut_ok (rx_inflight k s') (rx_heap s') (FutPoll (ap\<lparr>ap_active := True\<rparr>))"
      using cell_ok_start [OF ok c(1)] by (simp add: fut_ok_def s')
    moreover have "unfinished (rx_heap s') ?a" using c(4) by (simp add: s'(4) unfinished_def)
    ultimately show ?thesis using s'(1,2) a by (auto simp: beside_def intro!: some_besideI)
  qed
qed


lemma cell_ok_reset:
  assumes "cell_ok fl h a P True" "rh_cells h a = Some (n, i)" "ri_finished i"
  shows "cell_ok fl (h\<lparr>rh_cells := (rh_cells h)(a \<mapsto> (n, i\<lparr>ri_finished := False\<rparr>))\<rparr>) a P False"
  using assms by (simp add: cell_ok_def)

lemma AsyncPoll_beside:
  assumes b: "beside E T fs k (FutPoll ap) s"
  shows "fut_step_ok E fs k (fut_poll p lc alive cur (FutPoll ap) s)" "fut_step_ok E fs k (fut_poll_async p lc alive w (FutPoll ap) s)"
proof -
  let ?a = "ap_registration ap"
  have ok: "cell_ok (rx_inflight k s) (rx_heap s) ?a (\<lambda>d. d = AnyUnit) (ap_active ap)"
    using b by (auto simp: beside_def fut_ok_def)
  have "fut_step_ok E fs k (fut_poll p lc alive cur (FutPoll ap) s) \<and> fut_step_ok E fs k (fut_poll_async p lc alive w (FutPoll ap) s)"
  proof (cases "ap_active ap")
    case True
    from ok obtain i where c: "rh_cells (rx_heap s) ?a = Some (Suc (count (rx_inflight k s) ?a), i)"
      "ri_finished i = (?a \<notin># rx_inflight k s)" by (rule cell_okD) (use True in simp)
    note pa = AsyncPoll_poll_active [OF c(1) refl True, of p lc alive]
    show ?thesis
    proof (cases "ri_finished i")
      case fin: True
      have "some_beside E fs k (FutPoll (ap\<lparr>ap_active := False\<rparr>)) (s\<lparr>rx_heap := (rx_heap s)\<lparr>rh_cells :=
          (rh_cells (rx_heap s))(?a \<mapsto> (Suc (count (rx_inflight k s) ?a), i\<lparr>ri_finished := False\<rparr>))\<rparr>\<rparr>)"
        by (rule some_besideI, rule beside_cell [OF b _ _ c(1)])
          (use c fin cell_ok_reset [OF _ c(1) fin] ok True in \<open>simp_all add: fut_ok_def\<close>)
      moreover have "AsyncPoll_result p lc (ri_result i) = Panic ''attempt to negate with overflow'' \<or>
          (\<exists>x. AsyncPoll_result p lc (ri_result i) = Done x)"
        using AsyncPoll_result_cases by blast
      ultimately show ?thesis using fin
        by (elim disjE exE) (simp_all add: fut_poll_def fut_poll_async_def pa)
    next
      case False
      with some_besideI [OF beside_waker [OF b _ c(1)]] show ?thesis
        by (cases cur) (simp_all add: fut_poll_def fut_poll_async_def pa)
    qed
  next
    case False
    from AsyncPoll_start_beside [OF b False, of p alive] obtain r ap' s' T where
      st: "AsyncPoll_start p alive ap s = Done (r, ap', s')" "beside E T fs k (FutPoll ap') s'" "ap_registration ap' = ?a"
      by (auto simp: some_beside_def)
    from st(2) have "cell_ok (rx_inflight k s') (rx_heap s') ?a (\<lambda>d. d = AnyUnit) (ap_active ap')"
      by (simp add: beside_def fut_ok_def st(3))
    then obtain n i where c: "rh_cells (rx_heap s') ?a = Some (n, i)" by (rule cell_okD)
    have wk: "some_beside E fs k (FutPoll ap') (s'\<lparr>rx_heap := (rx_heap s')\<lparr>rh_cells := (rh_cells (rx_heap s'))(?a \<mapsto> (n, i\<lparr>ri_waker := u\<rparr>))\<rparr>\<rparr>)" for u
      by (rule some_besideI, rule beside_waker [OF st(2) _ c]) (simp add: st(3))
    show ?thesis
      using False st some_besideI [OF st(2)] wk track_cell [OF c]
      by (cases r; cases cur) (simp_all add: fut_poll_def fut_poll_async_def AsyncPoll_poll_def AsyncPoll_poll_async_def)
  qed
  then show "fut_step_ok E fs k (fut_poll p lc alive cur (FutPoll ap) s)" "fut_step_ok E fs k (fut_poll_async p lc alive w (FutPoll ap) s)"
    by simp_all
qed

lemma fut_poll_beside:
  assumes "beside E T fs k f s"
  shows "fut_step_ok E fs k (fut_poll p lc alive cur f s)" "fut_step_ok E fs k (fut_poll_async p lc alive w f s)"
proof -
  note rd = op_poll_beside [of FutRead downcast_read] and wr = op_poll_beside [of FutWrite downcast_write]
  show "fut_step_ok E fs k (fut_poll p lc alive cur f s)"
    using assms rd(1) wr(1) AsyncPoll_beside(1)
    by (cases f) (auto simp: fut_poll_def AsyncRead_poll_def AsyncWrite_poll_def)
  show "fut_step_ok E fs k (fut_poll_async p lc alive w f s)"
    using assms rd(2) wr(2) AsyncPoll_beside(2)
    by (cases f) (auto simp: fut_poll_async_def AsyncRead_poll_async_def AsyncWrite_poll_async_def)
qed

lemma fut_drop_beside:
  assumes b: "beside E T fs k f s"
  shows "\<exists>h. fut_drop f (rx_heap s) = Done h \<and> rx_inv k (mset (futs_addrs fs)) (s\<lparr>rx_heap := h\<rparr>) \<and>
    client_ok E T fs (rx_inflight k s) h"
proof (cases "fut_addrs f")
  case Nil
  then have "fut_drop f (rx_heap s) = Done (rx_heap s)"
    by (auto simp: fut_drop_def fut_addrs_def op_addrs_def op_drop_def split: fut.splits op_state.splits)
  with b Nil show ?thesis by (simp add: beside_def)
next
  case (Cons a as)
  then have f: "fut_addrs f = [a]" "fut_drop f (rx_heap s) = rc_drop a (rx_heap s)"
    by (auto simp: fut_drop_def fut_addrs_def op_addrs_def op_drop_def AsyncPoll_drop_def split: fut.splits op_state.splits)
  have "rx_inv k (add_mset a (mset (futs_addrs fs))) s" using b f(1) by (simp add: beside_def)
  from owners_freed_iff [OF rx_inv_owners [OF this], of a] obtain n i where c: "rh_cells (rx_heap s) a = Some (n, i)"
    by auto
  from beside_release [OF b f(1) c, of i] show ?thesis by (simp add: f(2) rc_drop_def c)
qed


section \<open>Steps of a program\<close>

lemma op_new_beside:
  fixes s :: "('t, 'f) any_rx"
  assumes inv: "rx_inv k (mset (futs_addrs fs)) s" and cl: "client_ok E T fs (rx_inflight k s) (rx_heap s)"
    and alloc: "alloc_ok (oe_alloc E) (rx_heap s)"
    and mk: "(mk, downcast, upcast, rq) \<in>
      {(FutRead, downcast_read, AnyRead, \<lambda>fd off iov. ReqReadv PrioNone (FD fd) off ReadWriteFlags_default iov),
       (FutWrite, downcast_write, AnyWrite, \<lambda>fd off iov. ReqWritev PrioNone (FD fd) off ReadWriteFlags_default iov)}"
    and queue: "\<And>fd off iov reg s. queue fd off iov reg s = queue_registered p (\<lambda>e. fill_entry e (rq fd off iov)) reg s"
    and ring: "ring_ok T s"
  shows "\<exists>st s'. op_new E downcast upcast queue alive f off buf s = Done (st, s') \<and> some_beside E fs k (mk st) s'"
proof -
  have dc: "downcast (upcast c) = Some c" for c using mk by auto
  let ?a = "oe_alloc E (rx_heap s)"
  let ?e = "(fill_entry zeroed_entry (rq (oe_fd E f) off \<lparr>fp_ptr = oe_iovec E ?a, fp_len = 1\<rparr>))\<lparr>se_user_data := ?a\<rparr>"
  note new = op_new_cases [where queue = queue and p = p, OF inv alloc, of downcast upcast, OF dc queue, of f off buf]
  consider "\<not> alive" | "alive" "length (sq_contents (u_sq (rx_uring s))) = sq_capacity (u_sq (rx_uring s))"
    | "alive" "length (sq_contents (u_sq (rx_uring s))) \<noteq> sq_capacity (u_sq (rx_uring s))" by blast
  then show ?thesis
  proof cases
    case 1
    then have "op_new E downcast upcast queue alive f off buf s =
        Done (InitFailed (Context_with_error \<lparr>cx_iovec = iovec_empty, cx_buffer = buf, cx_file = f\<rparr> (CustomError KindOther ''uring reactor dead'')), s)"
      by (simp add: op_new_def Handle_inner_mut_def Let_def)
    moreover have "beside E T fs k (mk (InitFailed x)) s" for x using inv cl ring mk by (auto simp: beside_def fut_ok_def op_ok_def)
    ultimately show ?thesis by (auto intro: some_besideI)
  next
    case 2
    with new obtain s' x where "op_new E downcast upcast queue alive f off buf s = Done (InitFailed x, s')"
      "rx_inv k (mset (futs_addrs fs)) s'" "rx_heap s' = rx_heap s" "rx_inflight k s' = rx_inflight k s"
      "sq_contents (u_sq (rx_uring s')) = sq_contents (u_sq (rx_uring s))" by auto
    moreover from this have "beside E T fs k (mk (InitFailed x)) s'" using cl mk ring_ok_same [OF ring] by (auto simp: beside_def)
    ultimately show ?thesis by (auto intro: some_besideI)
  next
    case 3
    with new obtain s' where s': "op_new E downcast upcast queue alive f off buf s = Done (Pending ?a, s')"
      "rx_inv k (add_mset ?a (mset (futs_addrs fs))) s'" "rx_inflight k s' = add_mset ?a (rx_inflight k s)"
      "rx_heap s' = (rx_heap s)\<lparr>rh_cells := (rh_cells (rx_heap s))(?a \<mapsto> (2, op_cell E upcast f buf))\<rparr>"
      "sq_contents (u_sq (rx_uring s')) = sq_contents (u_sq (rx_uring s)) @ [?e]" by auto
    have fresh: "?a \<notin> set (futs_addrs fs)" "?a \<notin># rx_inflight k s"
      using rx_inv_fresh [OF inv alloc_okD(1) [OF alloc]] alloc_okD(2) [OF alloc] by auto
    have "data_ok E (upcast \<lparr>cx_iovec = iovec_from (oe_slice E buf), cx_buffer = buf, cx_file = f\<rparr>)"
      using mk by (auto simp: data_ok_def)
    moreover have "request_ok E ?a (upcast \<lparr>cx_iovec = iovec_from (oe_slice E buf), cx_buffer = buf, cx_file = f\<rparr>) ?e"
      using mk decode_queued [of "rq (oe_fd E f) off \<lparr>fp_ptr = oe_iovec E ?a, fp_len = 1\<rparr>" ?a] by (auto simp: request_ok_def)
    ultimately have "client_ok E (T(?a := ?e)) fs (rx_inflight k s') (rx_heap s')"
      by (intro client_frame [OF cl fresh(1)]) (auto simp: s'(3,4) lent_as_def op_cell_def)
    moreover have "ring_ok (T(?a := ?e)) s'" by (rule ring_ok_queue [OF ring s'(5) _ fresh(2)]) simp
    moreover have "cell_ok (rx_inflight k s') (rx_heap s') ?a (\<lambda>d. downcast d \<noteq> None) True"
      using fresh(2) alloc_okD(2) [OF alloc] dc
      by (simp add: cell_ok_def s'(3,4) op_cell_def RegInner_default_def not_in_iff)
    then have "fut_ok (rx_inflight k s') (rx_heap s') (mk (Pending ?a))" using mk by (auto simp: fut_ok_def op_ok_def)
    ultimately have "beside E (T(?a := ?e)) fs k (mk (Pending ?a)) s'" using s'(2) fresh(1) mk by (auto simp: beside_def)
    with s'(1) show ?thesis by (auto intro: some_besideI)
  qed
qed

lemma AsyncPoll_new_beside:
  assumes inv: "rx_inv k (mset (futs_addrs fs)) s" and cl: "client_ok E T fs (rx_inflight k s) (rx_heap s)"
    and alloc: "alloc_ok (oe_alloc E) (rx_heap s)" and new: "AsyncPoll_new E fd pfl (rx_heap s) = (ap, h)"
    and ring: "ring_ok T s"
  shows "beside E T fs k (FutPoll ap) (s\<lparr>rx_heap := h\<rparr>)"
proof -
  let ?a = "oe_alloc E (rx_heap s)" and ?i = "RegInner_default\<lparr>ri_data := Some AnyUnit\<rparr>"
  have ap: "ap = \<lparr>ap_fd = fd, ap_active = False, ap_flags = pfl, ap_registration = ?a\<rparr>"
    and h: "h = (rx_heap s)\<lparr>rh_cells := (rh_cells (rx_heap s))(?a \<mapsto> (1, ?i))\<rparr>"
    using new by (simp_all add: AsyncPoll_new_def Registration_new_def rc_new_def)
  have fresh: "?a \<notin> set (futs_addrs fs)" "?a \<notin># rx_inflight k s"
    using rx_inv_fresh [OF inv alloc_okD(1) [OF alloc]] alloc_okD(2) [OF alloc] by auto
  have "rx_inv k (add_mset ?a (mset (futs_addrs fs))) (s\<lparr>rx_heap := h\<rparr>)"
    using rx_inv_alloc [OF inv alloc_okD [OF alloc], of 1 ?i] by (simp add: h)
  moreover have "client_ok E T fs (rx_inflight k s) h"
    by (rule client_frame [OF cl fresh(1)]) (use fresh(2) in \<open>auto simp: h\<close>)
  moreover have "fut_ok (rx_inflight k s) h (FutPoll ap)"
    using fresh(2) alloc_okD(2) [OF alloc] by (simp add: fut_ok_def cell_ok_def ap h RegInner_default_def not_in_iff)
  ultimately show ?thesis using fresh(1) ring by (simp add: beside_def ap)
qed

lemma on_fut_ok:
  assumes inv: "asys_inv E k T st" and j: "j < length (as_futs st)"
    and f: "\<And>fs T fu s. beside E T fs k fu s \<Longrightarrow> fut_step_ok E fs k (f fu s)"
  shows "asys_result_ok E (on_fut j st f)"
proof -
  let ?fs = "as_futs st"
  let ?l = "take j ?fs" and ?r = "drop (Suc j) ?fs"
  have "as_futs st = ?l @ ?fs ! j # ?r" by (rule id_take_nth_drop [OF j])
  with inv have "beside E T (?l @ ?r) k (?fs ! j) (as_rx st)" by (simp only: asys_inv_split)
  from f [OF this] consider fu s T where "f (?fs ! j) (as_rx st) = Done (fu, s)" "beside E T (?l @ ?r) k fu s"
    | m where "f (?fs ! j) (as_rx st) = Panic m" "m \<in> async_panics"
    by (auto simp: fut_step_ok_def some_beside_def split: outcome.splits)
  then show ?thesis
  proof cases
    case 1
    have "as_futs (st\<lparr>as_rx := s, as_futs := ?fs[j := fu]\<rparr>) = ?l @ fu # ?r" using j by (simp add: upd_conv_take_nth_drop)
    from asys_inv_split [OF this] 1(2) have "asys_inv E k T (st\<lparr>as_rx := s, as_futs := ?fs[j := fu]\<rparr>)" by simp
    with 1(1) show ?thesis by (auto simp: asys_result_ok_def on_fut_def)
  next
    case 2
    then show ?thesis by (auto simp: asys_result_ok_def on_fut_def)
  qed
qed


lemma asys_new_ok:
  assumes "\<exists>x s'. r = Done (x, s') \<and> some_beside E (as_futs st) k (mk x) s'"
  shows "asys_result_ok E (obind r (\<lambda>(x, s). Done (st\<lparr>as_rx := s, as_futs := as_futs st @ [mk x]\<rparr>)))"
proof -
  obtain x s T where r: "r = Done (x, s)" "beside E T (as_futs st) k (mk x) s" using assms by (auto simp: some_beside_def)
  let ?st = "st\<lparr>as_rx := s, as_futs := as_futs st @ [mk x]\<rparr>"
  have "asys_inv E k T ?st" using asys_inv_split [of ?st "as_futs st" "mk x" "[]" E k T] r(2) by simp
  with r(1) show ?thesis by (auto simp: asys_result_ok_def)
qed

lemma asys_park_ok:
  assumes inv: "asys_inv E k T st" and env: "env_ok env k (cs_park (rx_cs (as_rx st)))" and t: "timeout \<noteq> Some 0"
  shows "asys_result_ok E (obind (park_inner p lc env wait timeout (as_rx st)) (\<lambda>(_, s). Done (st\<lparr>as_rx := s\<rparr>)))"
proof -
  have i: "rx_inv k (mset (futs_addrs (as_futs st))) (as_rx st)"
    and c: "client_ok E T (as_futs st) (rx_inflight k (as_rx st)) (rx_heap (as_rx st))"
    using inv by (simp_all add: asys_inv_def)
  have "ring_ok T s'" if "park_inner p lc env wait timeout (as_rx st) = Done (r, s')" for r s'
    using park_inner_ring [OF i env that] inv by (auto simp: asys_inv_def ring_ok_def)
  with fut.client_park_inner [OF i c env, of p timeout lc wait] t show ?thesis
    by (auto simp: asys_result_ok_def asys_inv_def)
qed

lemma asys_exec_ok:
  assumes inv: "asys_inv E k T st" and ok: "asys_ok E k c st"
  shows "asys_result_ok E (asys_exec os p E lc c st)"
proof -
  have i: "rx_inv k (mset (futs_addrs (as_futs st))) (as_rx st)"
    and cl: "client_ok E T (as_futs st) (rx_inflight k (as_rx st)) (rx_heap (as_rx st))"
    and ring: "ring_ok T (as_rx st)"
    using inv by (simp_all add: asys_inv_def)
  show ?thesis
  proof (cases c)
    case (NewRead f off buf)
    with ok have al: "alloc_ok (oe_alloc E) (rx_heap (as_rx st))" by (simp add: asys_ok_def)
    have "\<exists>x s'. AsyncRead_new p E (as_alive st) f off buf (as_rx st) = Done (x, s') \<and> some_beside E (as_futs st) k (FutRead x) s'"
      unfolding AsyncRead_new_def
      by (rule op_new_beside [OF i cl al, where p = p and
            rq = "\<lambda>fd off iov. ReqReadv PrioNone (FD fd) off ReadWriteFlags_default iov"]) (simp_all add: queue_async_read_def ring)
    from asys_new_ok [OF this] show ?thesis by (simp add: NewRead)
  next
    case (NewWrite f off buf)
    with ok have al: "alloc_ok (oe_alloc E) (rx_heap (as_rx st))" by (simp add: asys_ok_def)
    have "\<exists>x s'. AsyncWrite_new p E (as_alive st) f off buf (as_rx st) = Done (x, s') \<and> some_beside E (as_futs st) k (FutWrite x) s'"
      unfolding AsyncWrite_new_def
      by (rule op_new_beside [OF i cl al, where p = p and
            rq = "\<lambda>fd off iov. ReqWritev PrioNone (FD fd) off ReadWriteFlags_default iov"]) (simp_all add: queue_async_write_def ring)
    from asys_new_ok [OF this] show ?thesis by (simp add: NewWrite)
  next
    case (NewPoll fd pfl)
    with ok have al: "alloc_ok (oe_alloc E) (rx_heap (as_rx st))" by (simp add: asys_ok_def)
    obtain ap h where new: "AsyncPoll_new E fd pfl (rx_heap (as_rx st)) = (ap, h)" by fastforce
    from some_besideI [OF AsyncPoll_new_beside [OF i cl al this ring]] asys_new_ok [of "Done (ap, (as_rx st)\<lparr>rx_heap := h\<rparr>)" E st k FutPoll]
    show ?thesis by (simp add: NewPoll new)
  next
    case (PollFut j cur)
    with ok show ?thesis by (auto simp: asys_ok_def intro!: on_fut_ok [OF inv] fut_poll_beside(1))
  next
    case (PollFutAsync j w)
    with ok show ?thesis by (auto simp: asys_ok_def intro!: on_fut_ok [OF inv] fut_poll_beside(2))
  next
    case (DropFut j)
    let ?l = "take j (as_futs st)" and ?r = "drop (Suc j) (as_futs st)"
    have j: "j < length (as_futs st)" using ok DropFut by (simp add: asys_ok_def)
    have "beside E T (?l @ ?r) k (as_futs st ! j) (as_rx st)" using inv asys_inv_split [OF id_take_nth_drop [OF j]] by blast
    from fut_drop_beside [OF this] ring show ?thesis by (fastforce simp: DropFut asys_result_ok_def asys_inv_def)
  next
    case (ParkOp env)
    with ok asys_park_ok [OF inv, of env None p lc True] show ?thesis by (simp add: asys_ok_def Inner_park_def)
  next
    case (ParkTimeoutOp env d)
    with ok asys_park_ok [OF inv, of env None p lc False] asys_park_ok [OF inv, of env "Some d" p lc True]
    show ?thesis by (simp add: asys_ok_def Inner_park_timeout_def)
  next
    case DropReactor
    with inv show ?thesis by (auto simp: asys_result_ok_def asys_inv_def)
  qed
qed


text \<open>The requests in flight are determined by the reference counts and the reactor's flags.\<close>

lemma rx_inv_unique:
  assumes "rx_inv k own s" "rx_inv k' own s"
  shows "k = k'"
proof -
  have "rx_inflight k s = rx_inflight k' s"
  proof (rule multiset_eqI)
    fix a
    have i: "inflight_ok (rx_inflight k s) own (rx_cs s) (rx_heap s)" "inflight_ok (rx_inflight k' s) own (rx_cs s) (rx_heap s)"
      using assms by (simp_all add: rx_inv_def)
    consider "a = TIMER \<or> a = PARK" | "registered a" | "a \<noteq> TIMER" "a \<noteq> PARK" "\<not> registered a" by blast
    then show "count (rx_inflight k s) a = count (rx_inflight k' s) a"
    proof cases
      case 1
      with i show ?thesis by (auto simp: inflight_ok_def)
    next
      case 2
      have "strong (rx_heap s) a = count (filter_mset registered (rx_inflight x s) + own) a" if "rx_inv x own s" for x
        by (rule owners_strong [OF rx_inv_owners [OF that]])
      from this [OF assms(1)] this [OF assms(2)] 2 show ?thesis by simp
    next
      case 3
      with inflightD(1) [OF i(1), of a] inflightD(1) [OF i(2), of a] have "a \<notin># rx_inflight k s" "a \<notin># rx_inflight k' s"
        by blast+
      then show ?thesis by (simp add: not_in_iff)
    qed
  qed
  then show ?thesis by (simp add: rx_inflight_def)
qed

lemma rx_inv_request:
  assumes "rx_inv k own s" "a \<in># rx_inflight k s" "registered a"
  shows "count (rx_inflight k s) a = 1 \<and> unfinished (rx_heap s) a"
proof -
  have "inflight_ok (rx_inflight k s) own (rx_cs s) (rx_heap s)" using assms(1) by (simp add: rx_inv_def)
  from inflightD(1) [OF this assms(2)] assms(3) show ?thesis by auto
qed

lemma asys_inv_init:
  assumes "asys_init st"
  shows "\<exists>k T. asys_inv E k T st"
proof -
  obtain k where k: "as_futs st = []" "rx_inv k {#} (as_rx st)" "filter_mset registered (rx_inflight k (as_rx st)) = {#}"
    using assms by (auto simp: asys_init_def)
  have no: "\<not> registered a" if "a \<in># rx_inflight k (as_rx st)" for a
    using k(3) that by auto
  then have "ring_ok T (as_rx st)" for T by (auto simp: ring_ok_def rx_inflight_def sq_uds_def)
  with k(1,2) no show ?thesis by (auto simp: asys_inv_def client_ok_def)
qed

lemma asys_inv_step: "\<exists>k T. asys_inv E k T st \<Longrightarrow> asys_step os p E lc st st' \<Longrightarrow> \<exists>k T. asys_inv E k T st'"
  using asys_exec_ok [of E _ _ st _ os p lc] by (fastforce simp: asys_inv_def asys_result_ok_def elim!: asys_step.cases)

interpretation asys: step_invariant asys_init "asys_step os p E lc" "\<lambda>st. \<exists>k T. asys_inv E k T st" for os p E lc
  by unfold_locales (fact asys_inv_init, fact asys_inv_step)

section \<open>Properties\<close>

text \<open>
  C1. Memory safety of asynchronous programs. A program starts reads, writes and polls, polls and drops
  futures at any time, parks the reactor, while the kernel completes only what is in flight, and may drop the reactor before its futures. At
  every moment, also after the reactor was dropped, each request in flight designates a registration that is allocated and unfinished and
  still holds its context, whose \<open>iovec\<close> describes the slice of the buffer; the next
  operation of the program never touches freed memory, and panics only for a poll outside a task,
  a poll of a finished future, or an overflow.
\<close>

theorem async_memory_safety:
  assumes "asys_init st0" "(asys_step os p E lc)\<^sup>*\<^sup>* st0 st"
  shows "\<exists>k. rx_inv k (mset (futs_addrs (as_futs st))) (as_rx st) \<and>
    (\<forall>a \<in># rx_inflight k (as_rx st). registered a \<longrightarrow> unfinished (rx_heap (as_rx st)) a \<and> lent_ok E (rx_heap (as_rx st)) a) \<and>
    (\<forall>c. asys_ok E k c st \<longrightarrow> is_done (asys_exec os p E lc c st) \<or> (\<exists>m \<in> async_panics. asys_exec os p E lc c st = Panic m))"
proof -
  obtain k T where inv: "asys_inv E k T st" using asys.inv_reachable [OF assms] by blast
  then have i: "rx_inv k (mset (futs_addrs (as_futs st))) (as_rx st)"
    and c: "client_ok E T (as_futs st) (rx_inflight k (as_rx st)) (rx_heap (as_rx st))"
    by (simp_all add: asys_inv_def)
  have "unfinished (rx_heap (as_rx st)) a \<and> lent_ok E (rx_heap (as_rx st)) a"
    if "a \<in># rx_inflight k (as_rx st)" "registered a" for a
    using rx_inv_request [OF i that] c that lent_as_ok by (fastforce simp: client_ok_def)
  moreover have "is_done (asys_exec os p E lc c st) \<or> (\<exists>m \<in> async_panics. asys_exec os p E lc c st = Panic m)"
    if "asys_ok E k c st" for c
    using asys_exec_ok [OF inv that, of os p lc] by (auto simp: asys_result_ok_def is_done_iff)
  ultimately show ?thesis using i by blast
qed

lemma demo_asys_init: "asys_init demo_asys"
proof -
  have "rx_inflight {#} demo_arx = {#TIMER, PARK#}"
    by (simp add: rx_inflight_def demo_arx_def demo_rx_def sample_cq_uds sq_uds_def sq_contents_def ring_dist_def sample_sq_def)
  then show ?thesis using demo_arx_inv by (auto simp: asys_init_def demo_asys_def intro!: exI [of _ "{#}"])
qed

lemma demo_asys_read:
  "\<exists>st. asys_step demo_posix2 Debug demo_env demo_lc demo_asys st \<and> as_futs st = [FutRead (Pending 0x1000)] \<and> as_alive st"
proof -
  have al: "oe_alloc demo_env (rx_heap demo_arx) = 0x1000" by (simp add: demo_env_def)
  from op_new_cases [OF demo_arx_inv demo_env_alloc, of downcast_read AnyRead "queue_async_read Debug" Debug
      "\<lambda>fd off iov. ReqReadv PrioNone (FD fd) off ReadWriteFlags_default iov" 7 0 512] demo_arx_room
  obtain s where "AsyncRead_new Debug demo_env True 7 0 512 demo_arx = Done (Pending 0x1000, s)"
    by (auto simp: AsyncRead_new_def queue_async_read_def al)
  then have "asys_exec demo_posix2 Debug demo_env demo_lc (NewRead 7 0 512) demo_asys =
      Done (demo_asys\<lparr>as_rx := s, as_futs := [FutRead (Pending 0x1000)]\<rparr>)" by (simp add: demo_asys_def)
  then show ?thesis using demo_env_alloc
    by (intro exI [of _ "demo_asys\<lparr>as_rx := s, as_futs := [FutRead (Pending 0x1000)]\<rparr>"] conjI asys_step.step [where c = "NewRead 7 0 512"])
      (simp_all add: asys_ok_def demo_asys_def)
qed

text \<open>A read is started, then the reactor is dropped.\<close>

lemma demo_asys_shutdown:
  obtains st where "(asys_step demo_posix2 Debug demo_env demo_lc)\<^sup>*\<^sup>* demo_asys st" "as_futs st = [FutRead (Pending 0x1000)]" "\<not> as_alive st"
proof -
  obtain st where st: "asys_step demo_posix2 Debug demo_env demo_lc demo_asys st"
    "as_futs st = [FutRead (Pending 0x1000)]" "as_alive st" using demo_asys_read by blast
  let ?st = "st\<lparr>as_alive := False, as_world := Inner_drop demo_posix2 (as_rx st) (as_world st)\<rparr>"
  have "asys_step demo_posix2 Debug demo_env demo_lc st ?st"
    by (rule asys_step.step [where c = DropReactor]) (simp_all add: asys_ok_def st(3))
  with st(1) have "(asys_step demo_posix2 Debug demo_env demo_lc)\<^sup>*\<^sup>* demo_asys ?st" by (meson r_into_rtranclp rtranclp.rtrancl_into_rtrancl)
  with st(2) that show ?thesis by simp
qed

theorem async_memory_safety_witness:
  "\<exists>(st :: (nat, nat, demo_world) asys) k. as_futs st = [FutRead (Pending 0x1000)] \<and> \<not> as_alive st \<and> rx_inv k {#0x1000#} (as_rx st) \<and>
    (\<forall>a \<in># rx_inflight k (as_rx st). registered a \<longrightarrow> lent_ok demo_env (rx_heap (as_rx st)) a)"
proof -
  obtain st where st: "(asys_step demo_posix2 Debug demo_env demo_lc)\<^sup>*\<^sup>* demo_asys st"
    "as_futs st = [FutRead (Pending 0x1000)]" "\<not> as_alive st" by (rule demo_asys_shutdown)
  from async_memory_safety [OF demo_asys_init st(1)] st(2,3) show ?thesis by - (rule exI [of _ st], fastforce)
qed



text \<open>
  C13. Requests and registrations agree in type. In every state of a program: an entry of the submission ring that designates a registration
  asks for a vectored read, a vectored write or a poll exactly as the registration holds the context of a read, the context of a write or
  none, on the descriptor of the context's file and with the address of the context's own \<open>iovec\<close>; and the
  registration of every pending future holds data of the type the future will downcast it to, so no downcast fails.
\<close>

theorem async_requests_typed:
  assumes "asys_init st0" "(asys_step os p E lc)\<^sup>*\<^sup>* st0 st"
  defines "h \<equiv> rx_heap (as_rx st)"
  shows "(\<forall>e \<in> set (sq_contents (u_sq (rx_uring (as_rx st)))). registered (se_user_data e) \<longrightarrow>
      (\<exists>n i d. rh_cells h (se_user_data e) = Some (n, i) \<and> ri_data i = Some d \<and> request_ok E (se_user_data e) d e)) \<and>
    (\<forall>a. FutRead (Pending a) \<in> set (as_futs st) \<longrightarrow> (\<exists>n i c. rh_cells h a = Some (n, i) \<and> ri_data i = Some (AnyRead c))) \<and>
    (\<forall>a. FutWrite (Pending a) \<in> set (as_futs st) \<longrightarrow> (\<exists>n i c. rh_cells h a = Some (n, i) \<and> ri_data i = Some (AnyWrite c))) \<and>
    (\<forall>ap. FutPoll ap \<in> set (as_futs st) \<longrightarrow> (\<exists>n i. rh_cells h (ap_registration ap) = Some (n, i) \<and> ri_data i = Some AnyUnit))"
proof (intro conjI ballI allI impI)
  obtain k T where inv: "asys_inv E k T st" using asys.inv_reachable [OF assms(1,2)] by blast
  then have c: "client_ok E T (as_futs st) (rx_inflight k (as_rx st)) h" and ring: "ring_ok T (as_rx st)"
    by (simp_all add: asys_inv_def h_def)
  show "\<exists>n i d. rh_cells h (se_user_data e) = Some (n, i) \<and> ri_data i = Some d \<and> request_ok E (se_user_data e) d e"
    if e: "e \<in> set (sq_contents (u_sq (rx_uring (as_rx st))))" "registered (se_user_data e)" for e
  proof -
    have "se_user_data e \<in># rx_inflight k (as_rx st)" using e(1) by (simp add: rx_inflight_def sq_uds_def)
    with c e(2) have "lent_as E T h (se_user_data e)" by (simp add: client_ok_def)
    moreover have "T (se_user_data e) = e" using ring e by (simp add: ring_ok_def)
    ultimately show ?thesis by (auto simp: lent_as_def split: option.splits)
  qed
  note fut = c [unfolded client_ok_def, THEN conjunct2, THEN conjunct1, THEN bspec]
  show "\<exists>n i c. rh_cells h a = Some (n, i) \<and> ri_data i = Some (AnyRead c)" if "FutRead (Pending a) \<in> set (as_futs st)" for a
    using fut [OF that] by (auto simp: fut_ok_def op_ok_def elim!: cell_okD downcast_read.elims)
  show "\<exists>n i c. rh_cells h a = Some (n, i) \<and> ri_data i = Some (AnyWrite c)" if "FutWrite (Pending a) \<in> set (as_futs st)" for a
    using fut [OF that] by (auto simp: fut_ok_def op_ok_def elim!: cell_okD downcast_write.elims)
  show "\<exists>n i. rh_cells h (ap_registration ap) = Some (n, i) \<and> ri_data i = Some AnyUnit" if "FutPoll ap \<in> set (as_futs st)" for ap
    using fut [OF that] by (auto simp: fut_ok_def elim!: cell_okD)
qed

theorem async_requests_typed_witness:
  "\<exists>(st :: (nat, nat, demo_world) asys) n i c. \<not> as_alive st \<and> as_futs st = [FutRead (Pending 0x1000)] \<and>
    rh_cells (rx_heap (as_rx st)) 0x1000 = Some (n, i) \<and> ri_data i = Some (AnyRead c)"
proof -
  obtain st where st: "(asys_step demo_posix2 Debug demo_env demo_lc)\<^sup>*\<^sup>* demo_asys st"
    "as_futs st = [FutRead (Pending 0x1000)]" "\<not> as_alive st" by (rule demo_asys_shutdown)
  from async_requests_typed [OF demo_asys_init st(1)] st(2,3) show ?thesis by - (rule exI [of _ st], fastforce)
qed

end
