(* ===== verification/Async_Data.thy ===== *)
theory Async_Data
  imports Async_System
begin

text \<open>
  What a registration holds while other things happen. A program goes on after it has started a read or a write: it
  starts, polls and drops other futures, parks and drops the reactor, and polls this one. The buffer and the file of the
  operation stay in its registration, with the \<open>iovec\<close> that was filled for them, until a poll returns them
  (\<open>reactor/async_read.rs\<close> and \<open>async_write.rs\<close> over \<open>reactor.rs\<close> and \<open>registration.rs\<close>). One lemma per operation
  says which registration it changes; parking is an interpretation of \<open>reactor_client\<close>.
\<close>

section \<open>The state of a registration\<close>

text \<open>What a registration holds: its data, whether it is finished, and its result. The count and the waker are left out.\<close>

definition cell_view :: "u64 \<Rightarrow> 'd rc_heap \<Rightarrow> ('d option \<times> bool \<times> UringResult) option" where
  "cell_view a h = (case rh_cells h a of None \<Rightarrow> None | Some (n, i) \<Rightarrow> Some (ri_data i, ri_finished i, ri_result i))"

text \<open>
  Steps of a program during which the future \<open>f\<close> is neither dropped nor finished, and the kernel completes requests for the registration \<open>a\<close> only with
  results in \<open>R\<close>.
\<close>

definition answers_for :: "u64 \<Rightarrow> (UringResult \<Rightarrow> bool) \<Rightarrow> u64 \<Rightarrow> UringResult \<Rightarrow> bool" where
  "answers_for a R = (\<lambda>ud r. ud = a \<longrightarrow> R r)"

definition op_answers :: "u64 \<Rightarrow> (UringResult \<Rightarrow> bool) \<Rightarrow> ('t, 'f) asys_op \<Rightarrow> bool" where
  "op_answers a R c = (case c of
       ParkOp env \<Rightarrow> env_answers (answers_for a R) env
     | ParkTimeoutOp env d \<Rightarrow> env_answers (answers_for a R) env
     | _ \<Rightarrow> True)"

definition holding :: "('w, 'z) os_scheme \<Rightarrow> profile \<Rightarrow> ('t, 'f) op_env \<Rightarrow> libc_poll \<Rightarrow> ('t, 'f) fut \<Rightarrow> u64 \<Rightarrow> (UringResult \<Rightarrow> bool) \<Rightarrow>
  ('t, 'f, 'w) asys \<Rightarrow> ('t, 'f, 'w) asys \<Rightarrow> bool" where
  "holding os p E lc f a R st st' \<longleftrightarrow> f \<in> set (as_futs st) \<and> f \<in> set (as_futs st') \<and>
     (\<exists>c. (\<forall>k. rx_inv k (mset (futs_addrs (as_futs st))) (as_rx st) \<longrightarrow> asys_ok E k c st) \<and>
        asys_exec os p E lc c st = Done st' \<and> op_answers a R c)"

lemma holding_step: "holding os p E lc f a R st st' \<Longrightarrow> asys_step os p E lc st st'"
  by (auto simp: holding_def intro: asys_step.step)

lemma cell_view_Some_iff:
  "cell_view a h = Some (d, fin, r) \<longleftrightarrow> (\<exists>n i. rh_cells h a = Some (n, i) \<and> ri_data i = d \<and> ri_finished i = fin \<and> ri_result i = r)"
  by (auto simp: cell_view_def split: option.splits)

lemma cell_view_upd [simp]:
  "cell_view a (h\<lparr>rh_cells := (rh_cells h)(b := c)\<rparr>) =
    (if a = b then case c of None \<Rightarrow> None | Some (n, i) \<Rightarrow> Some (ri_data i, ri_finished i, ri_result i) else cell_view a h)"
  by (simp add: cell_view_def)

section \<open>Parking\<close>

text \<open>The registration \<open>a\<close> of a future holds \<open>d\<close>; if it is finished, then with a result in \<open>R\<close>.\<close>

definition view_ok :: "u64 \<Rightarrow> 'd \<Rightarrow> (UringResult \<Rightarrow> bool) \<Rightarrow> 'd rc_heap \<Rightarrow> bool" where
  "view_ok a d R h \<longleftrightarrow> (\<exists>fin r. cell_view a h = Some (Some d, fin, r) \<and> (fin \<longrightarrow> R r))"

lemma view_ok_cong: "cell_view a h' = cell_view a h \<Longrightarrow> view_ok a d R h' = view_ok a d R h"
  by (simp add: view_ok_def)

lemma view_ok_complete:
  assumes cl: "client_ok E T fs fl h \<and> a \<in> set (futs_addrs fs) \<and> view_ok a d R h"
    and ud: "ud \<in># fl" "registered ud" "count fl ud = 1" "unfinished h ud" and ans: "answers_for a R ud r"
    and run: "RawRegistration_notify ud r h = Done h1" "rc_drop ud h1 = Done h2"
  shows "client_ok E T fs (fl - {#ud#}) h2 \<and> a \<in> set (futs_addrs fs) \<and> view_ok a d R h2"
proof -
  obtain n i where c: "rh_cells h ud = Some (n, i)" "\<not> ri_finished i"
    using ud(4) by (auto simp: unfinished_def split: option.splits)
  have h2: "rh_cells h2 = (rh_cells h)(ud := if n \<le> 1 then None
      else Some (n - 1, i\<lparr>ri_finished := True, ri_result := r, ri_waker := Empty\<rparr>))"
    using run notify_cell [OF c, of r] by (auto simp: rc_drop_def)
  have "n = 2" if a: "a = ud"
  proof -
    obtain f where f: "f \<in> set fs" "a \<in> set (fut_addrs f)" using cl by (auto simp: futs_addrs_def)
    then have "fut_ok fl h f" using cl by (simp add: client_ok_def)
    with f(2) a show "n = 2" using c ud(3) by (auto simp: fut_ok_def op_ok_def fut_addrs_def op_addrs_def
        elim!: cell_okD split: fut.splits op_state.splits)
  qed
  with cl c h2 ans have "view_ok a d R h2" by (auto simp: view_ok_def cell_view_def answers_for_def split: if_splits)
  with cl client_complete [OF _ ud run] show ?thesis by blast
qed

interpretation keep: reactor_client "\<lambda>fl h. client_ok E T fs fl h \<and> a \<in> set (futs_addrs fs) \<and> view_ok a d R h" "answers_for a R" for E T fs a d R
  by unfold_locales (fact view_ok_complete, simp add: client_own_poll)

lemma park_inner_view:
  assumes inv: "asys_inv E k T st" and env: "env_ok env k (cs_park (rx_cs (as_rx st)))" and t: "timeout \<noteq> Some 0"
    and a: "a \<in> set (futs_addrs (as_futs st))" "view_ok a d R (rx_heap (as_rx st))"
    and ans: "ring_answers (answers_for a R) (as_rx st)" "env_answers (answers_for a R) env"
    and run: "park_inner p lc env wait timeout (as_rx st) = Done (r, s')"
  shows "view_ok a d R (rx_heap s') \<and> ring_answers (answers_for a R) s'"
proof -
  have i: "rx_inv k (mset (futs_addrs (as_futs st))) (as_rx st)"
    and c: "client_ok E T (as_futs st) (rx_inflight k (as_rx st)) (rx_heap (as_rx st))"
    using inv by (simp_all add: asys_inv_def)
  from keep.client_park_inner [OF i conjI [OF c conjI [OF a]] env _ ans, of p timeout lc wait] t run show ?thesis by auto
qed

section \<open>Operations on futures\<close>

definition lent_context :: "('t, 'f) op_env \<Rightarrow> 'f \<Rightarrow> 't \<Rightarrow> ('t, 'f) Context" where
  "lent_context E file buffer = \<lparr>cx_iovec = iovec_from (oe_slice E buffer), cx_buffer = buffer, cx_file = file\<rparr>"

text \<open>Queueing touches the submission queue only.\<close>

lemma queue_registered_cq:
  assumes "queue_registered p fill reg s = Done (r, s')"
  shows "u_cq (rx_uring s') = u_cq (rx_uring s)"
  using assms by (auto simp: queue_registered_def Let_def case_rresult_Done simp del: map_err.simps)

lemma op_new_view:
  fixes s :: "('t, 'f) any_rx"
  assumes inv: "rx_inv k own s" and alloc: "alloc_ok (oe_alloc E) (rx_heap s)"
    and dc: "\<And>c. downcast (upcast c) = Some c"
    and queue: "\<And>fd off iov reg s. queue fd off iov reg s = queue_registered p (\<lambda>e. fill_entry e (rq fd off iov)) reg s"
    and new: "op_new E downcast upcast queue alive f off buf s = Done (x, s')"
  shows "u_cq (rx_uring s') = u_cq (rx_uring s)" "a \<noteq> oe_alloc E (rx_heap s) \<Longrightarrow> cell_view a (rx_heap s') = cell_view a (rx_heap s)"
    "x = Pending a \<Longrightarrow> view_ok a (upcast (lent_context E f buf)) R (rx_heap s') \<and> a = oe_alloc E (rx_heap s)"
proof -
  have u: "queue fd off iov reg s1 = Done (r, s2) \<Longrightarrow> u_cq (rx_uring s2) = u_cq (rx_uring s1)" for fd off iov reg s1 r s2
    unfolding queue by (rule queue_registered_cq)
  show "u_cq (rx_uring s') = u_cq (rx_uring s)"
    using new by (auto simp: op_new_def Let_def case_rresult_Done split: prod.splits dest!: u)
  show "cell_view a (rx_heap s') = cell_view a (rx_heap s)" if "a \<noteq> oe_alloc E (rx_heap s)"
    using op_new_cases [where queue = queue, OF inv alloc dc queue, of f off buf] new that
    by (cases alive) (auto simp: op_new_def Handle_inner_mut_def Let_def split: if_splits)
  show "view_ok a (upcast (lent_context E f buf)) R (rx_heap s') \<and> a = oe_alloc E (rx_heap s)" if "x = Pending a"
    using op_new_cases [where queue = queue, OF inv alloc dc queue, of f off buf] new that
    by (cases alive) (auto simp: op_new_def Handle_inner_mut_def Let_def op_cell_def lent_context_def view_ok_def RegInner_default_def split: if_splits)
qed

text \<open>
  A poll changes no other registration, and not its own one as long as the future stays what it is. The completion queue is left alone.
\<close>

definition keeps_view :: "('t, 'f) fut \<Rightarrow> ('t, 'f) any_rx \<Rightarrow> (('t, 'f) fut \<times> ('t, 'f) any_rx) outcome \<Rightarrow> bool" where
  "keeps_view f s r \<longleftrightarrow> (case r of Done (f', s') \<Rightarrow> u_cq (rx_uring s') = u_cq (rx_uring s) \<and>
       (\<forall>a. a \<notin> set (fut_addrs f) \<or> f' = f \<longrightarrow> cell_view a (rx_heap s') = cell_view a (rx_heap s)) | _ \<Rightarrow> True)"

lemma keeps_view_simps [simp]:
  "keeps_view f s (Done (f', s')) \<longleftrightarrow> u_cq (rx_uring s') = u_cq (rx_uring s) \<and>
    (\<forall>a. a \<notin> set (fut_addrs f) \<or> f' = f \<longrightarrow> cell_view a (rx_heap s') = cell_view a (rx_heap s))"
  "keeps_view f s (Panic m)"
  by (simp_all add: keeps_view_def)

lemma op_poll_keeps:
  assumes mk: "(mk, downcast) \<in> {(FutRead, downcast_read), (FutWrite, downcast_write)}"
    and b: "beside E T fs k (mk st) s"
  shows "keeps_view (mk st) s (obind (op_poll p downcast cur st (rx_heap s)) (\<lambda>(_, st, h). Done (mk st, s\<lparr>rx_heap := h\<rparr>)))"
    and "keeps_view (mk st) s (obind (op_poll_async p downcast t st (rx_heap s)) (\<lambda>(_, st, h). Done (mk st, s\<lparr>rx_heap := h\<rparr>)))"
proof -
  let ?P = "\<lambda>r. keeps_view (mk st) s (obind r (\<lambda>(_, st, h). Done (mk st, s\<lparr>rx_heap := h\<rparr>)))"
  have "?P (op_poll p downcast cur st (rx_heap s)) \<and>
      keeps_view (mk st) s (obind (op_poll_async p downcast t st (rx_heap s)) (\<lambda>(_, st, h). Done (mk st, s\<lparr>rx_heap := h\<rparr>)))"
  proof (cases st)
    case (Pending a)
    have addr: "fut_addrs (mk st) = [a]" "mk Closed \<noteq> mk st" using mk Pending by auto
    have "cell_ok (rx_inflight k s) (rx_heap s) a (\<lambda>d. downcast d \<noteq> None) True"
      using mk b Pending by (auto simp: beside_def fut_ok_def op_ok_def)
    then obtain i d where c: "rh_cells (rx_heap s) a = Some (Suc (count (rx_inflight k s) a), i)" "ri_data i = Some d"
      "downcast d \<noteq> None" by (rule cell_okD) simp
    then obtain cx where cx: "downcast d = Some cx" by blast
    show ?thesis
    proof (cases "ri_finished i")
      case True
      have "op_result p (ri_result i) cx = Panic ''attempt to negate with overflow'' \<or> (\<exists>x. op_result p (ri_result i) cx = Done x)"
        using op_result_cases by blast
      with op_poll_finished [where downcast = downcast, OF c(1,2) True cx, of p] addr show ?thesis
        unfolding Pending by (elim disjE exE) simp_all
    next
      case False
      show ?thesis
        using op_poll_pending [OF c(1,2) False, of p downcast] addr c(1,2)
        by (cases cur) (simp_all add: Pending cell_view_def)
    qed
  qed (use mk in \<open>auto simp: op_poll_def op_poll_async_def\<close>)
  then show "?P (op_poll p downcast cur st (rx_heap s))"
    "keeps_view (mk st) s (obind (op_poll_async p downcast t st (rx_heap s)) (\<lambda>(_, st, h). Done (mk st, s\<lparr>rx_heap := h\<rparr>)))"
    by simp_all
qed

lemma AsyncPoll_start_view:
  assumes b: "beside E T fs k (FutPoll ap) s" and act: "\<not> ap_active ap"
  shows "\<exists>r ap' s'. AsyncPoll_start p alive ap s = Done (r, ap', s') \<and> cell_view a (rx_heap s') = cell_view a (rx_heap s) \<and>
    u_cq (rx_uring s') = u_cq (rx_uring s) \<and> rh_cells (rx_heap s') (ap_registration ap) \<noteq> None \<and> ap_registration ap' = ap_registration ap"
proof -
  have inv: "rx_inv k (add_mset (ap_registration ap) (mset (futs_addrs fs))) s"
    and ok: "cell_ok (rx_inflight k s) (rx_heap s) (ap_registration ap) (\<lambda>d. d = AnyUnit) False"
    using b act by (auto simp: beside_def fut_ok_def)
  from ok obtain i d where r: "registered (ap_registration ap)"
    and c: "rh_cells (rx_heap s) (ap_registration ap) = Some (Suc (count (rx_inflight k s) (ap_registration ap)), i)"
    "ri_data i = Some d" "d = AnyUnit" "\<not> ri_finished i" "ap_registration ap \<notin># rx_inflight k s" by (rule cell_okD) simp
  show ?thesis
  proof (cases alive)
    case True
    have cq: "u_cq (rx_uring s') = u_cq (rx_uring s)" if "AsyncPoll_start p True ap s = Done (r, ap', s')" for r ap' s'
      using that by (auto simp: AsyncPoll_start_def queue_async_poll_def case_rresult_Done split: prod.splits dest!: queue_registered_cq)
    from AsyncPoll_start_cases [OF inv c(1,4) zero_less_Suc r c(5) refl, of p] c(1) True show ?thesis
      by (auto simp: cell_view_def split: if_splits dest: cq)
  next
    case False
    with c(1) show ?thesis by (simp add: AsyncPoll_start_def Handle_inner_mut_def)
  qed
qed

lemma AsyncPoll_keeps:
  assumes b: "beside E T fs k (FutPoll ap) s"
  shows "keeps_view (FutPoll ap) s (fut_poll p lc alive cur (FutPoll ap) s)"
    "keeps_view (FutPoll ap) s (fut_poll_async p lc alive w (FutPoll ap) s)"
proof -
  let ?a = "ap_registration ap"
  have "cell_ok (rx_inflight k s) (rx_heap s) ?a (\<lambda>d. d = AnyUnit) (ap_active ap)" using b by (auto simp: beside_def fut_ok_def)
  then obtain n i where c: "rh_cells (rx_heap s) ?a = Some (n, i)" by (rule cell_okD)
  have "keeps_view (FutPoll ap) s (fut_poll p lc alive cur (FutPoll ap) s) \<and>
    keeps_view (FutPoll ap) s (fut_poll_async p lc alive w (FutPoll ap) s)"
  proof (cases "ap_active ap")
    case True
    have "AsyncPoll_result p lc (ri_result i) = Panic ''attempt to negate with overflow'' \<or> (\<exists>x. AsyncPoll_result p lc (ri_result i) = Done x)"
      using AsyncPoll_result_cases by blast
    moreover have "ap\<lparr>ap_active := False\<rparr> \<noteq> ap" using True by (cases ap) simp
    ultimately show ?thesis using AsyncPoll_poll_active [OF c refl True, of p lc alive] c
      by (cases cur; elim disjE exE) (simp_all add: fut_poll_def fut_poll_async_def cell_view_def)
  next
    case False
    have keep: "keeps_view (FutPoll ap) s (Done (FutPoll ap', s'\<lparr>rx_heap := (rx_heap s')\<lparr>rh_cells := (rh_cells (rx_heap s'))(?a \<mapsto> (m, j\<lparr>ri_waker := u\<rparr>))\<rparr>\<rparr>))"
      "keeps_view (FutPoll ap) s (Done (FutPoll ap', s'))"
      if "AsyncPoll_start p alive ap s = Done (r, ap', s')" "rh_cells (rx_heap s') ?a = Some (m, j)" for r ap' s' m j u
    proof -
      have eq: "cell_view a (rx_heap s') = cell_view a (rx_heap s)" for a using AsyncPoll_start_view [OF b False, of p alive a] that(1) by auto
      have cq: "u_cq (rx_uring s') = u_cq (rx_uring s)" using AsyncPoll_start_view [OF b False, of p alive] that(1) by auto
      have "cell_view ?a (rx_heap s') = Some (ri_data j, ri_finished j, ri_result j)" using that(2) by (simp add: cell_view_def)
      then have "cell_view ?a (rx_heap s) = Some (ri_data j, ri_finished j, ri_result j)" by (simp only: eq)
      with eq cq show "keeps_view (FutPoll ap) s (Done (FutPoll ap', s'\<lparr>rx_heap := (rx_heap s')\<lparr>rh_cells := (rh_cells (rx_heap s'))(?a \<mapsto> (m, j\<lparr>ri_waker := u\<rparr>))\<rparr>\<rparr>))"
        "keeps_view (FutPoll ap) s (Done (FutPoll ap', s'))" by simp_all
    qed
    from AsyncPoll_start_view [OF b False, of p alive] obtain r ap' s' m j where
      st: "AsyncPoll_start p alive ap s = Done (r, ap', s')" "rh_cells (rx_heap s') ?a = Some (m, j)" "ap_registration ap' = ?a" by fastforce
    show ?thesis
      using False st keep [OF st(1,2)] track_cell [OF st(2)]
      by (cases r; cases cur) (simp_all add: fut_poll_def fut_poll_async_def AsyncPoll_poll_def AsyncPoll_poll_async_def)
  qed
  then show "keeps_view (FutPoll ap) s (fut_poll p lc alive cur (FutPoll ap) s)"
    "keeps_view (FutPoll ap) s (fut_poll_async p lc alive w (FutPoll ap) s)" by simp_all
qed

lemma fut_poll_keeps:
  assumes "beside E T fs k f s"
  shows "keeps_view f s (fut_poll p lc alive cur f s)" "keeps_view f s (fut_poll_async p lc alive w f s)"
proof -
  note rd = op_poll_keeps [of FutRead downcast_read] and wr = op_poll_keeps [of FutWrite downcast_write]
  show "keeps_view f s (fut_poll p lc alive cur f s)"
    using assms rd(1) wr(1) AsyncPoll_keeps(1)
    by (cases f) (auto simp: fut_poll_def AsyncRead_poll_def AsyncWrite_poll_def simp del: keeps_view_simps)
  show "keeps_view f s (fut_poll_async p lc alive w f s)"
    using assms rd(2) wr(2) AsyncPoll_keeps(2)
    by (cases f) (auto simp: fut_poll_async_def AsyncRead_poll_async_def AsyncWrite_poll_async_def simp del: keeps_view_simps)
qed

lemma fut_drop_other:
  assumes "fut_drop f h = Done h'" "a \<notin> set (fut_addrs f)"
  shows "cell_view a h' = cell_view a h"
proof (cases "fut_addrs f")
  case Nil
  with assms(1) show ?thesis
    by (auto simp: fut_drop_def fut_addrs_def op_addrs_def op_drop_def split: fut.splits op_state.splits)
next
  case (Cons b bs)
  then have "fut_drop f h = rc_drop b h" "a \<noteq> b" using assms(2)
    by (auto simp: fut_drop_def fut_addrs_def op_addrs_def op_drop_def AsyncPoll_drop_def split: fut.splits op_state.splits)
  with assms(1) show ?thesis by (auto simp: rc_drop_def split: option.splits)
qed

section \<open>Steps of a program\<close>

lemma futs_addrs_mem: "f \<in> set fs \<Longrightarrow> a \<in> set (fut_addrs f) \<Longrightarrow> a \<in> set (futs_addrs fs)"
  by (auto simp: futs_addrs_def)

lemma on_fut_view:
  assumes inv: "asys_inv E k T st" and j: "j < length (as_futs st)"
    and keeps: "\<And>fs T fu s. beside E T fs k fu s \<Longrightarrow> keeps_view fu s (g fu s)"
    and f: "f \<in> set (as_futs st)" "f \<in> set (as_futs st')" "a \<in> set (fut_addrs f)"
    and run: "on_fut j st g = Done st'"
  shows "cell_view a (rx_heap (as_rx st')) = cell_view a (rx_heap (as_rx st)) \<and> u_cq (rx_uring (as_rx st')) = u_cq (rx_uring (as_rx st))"
proof -
  let ?fs = "as_futs st"
  let ?l = "take j ?fs" and ?r = "drop (Suc j) ?fs"
  have split: "as_futs st = ?l @ ?fs ! j # ?r" by (rule id_take_nth_drop [OF j])
  from inv split have b: "beside E T (?l @ ?r) k (?fs ! j) (as_rx st)" by (simp only: asys_inv_split)
  obtain fu s where g: "g (?fs ! j) (as_rx st) = Done (fu, s)" and st': "st' = st\<lparr>as_rx := s, as_futs := ?fs[j := fu]\<rparr>"
    using run by (auto simp: on_fut_def)
  have futs': "as_futs st' = ?l @ fu # ?r" using j by (simp add: st' upd_conv_take_nth_drop)
  have "a \<notin> set (fut_addrs (?fs ! j)) \<or> fu = ?fs ! j"
  proof (rule disjCI)
    assume "fu \<noteq> ?fs ! j"
    show "a \<notin> set (fut_addrs (?fs ! j))"
    proof
      assume a: "a \<in> set (fut_addrs (?fs ! j))"
      then have "a \<notin> set (futs_addrs (?l @ ?r))" using b by (auto simp: beside_def)
      then have "f \<notin> set (?l @ ?r)" using f(3) futs_addrs_mem by blast
      moreover have "f \<in> set (?l @ ?fs ! j # ?r)" using f(1) split by simp
      ultimately have "f = ?fs ! j" by auto
      moreover have "f = fu" using f(2) \<open>f \<notin> set (?l @ ?r)\<close> unfolding futs' by auto
      ultimately show False using \<open>fu \<noteq> ?fs ! j\<close> by simp
    qed
  qed
  with keeps [OF b] g show ?thesis by (auto simp: st')
qed

lemma asys_exec_view:
  assumes inv: "asys_inv E k T st" and ok: "asys_ok E k c st" and run: "asys_exec os p E lc c st = Done st'"
    and f: "f \<in> set (as_futs st)" "f \<in> set (as_futs st')" "a \<in> set (fut_addrs f)"
    and d: "view_ok a d R (rx_heap (as_rx st))" and ans: "ring_answers (answers_for a R) (as_rx st)" "op_answers a R c"
  shows "view_ok a d R (rx_heap (as_rx st')) \<and> ring_answers (answers_for a R) (as_rx st')"
proof -
  have i: "rx_inv k (mset (futs_addrs (as_futs st))) (as_rx st)" using inv by (simp add: asys_inv_def)
  have a: "a \<in> set (futs_addrs (as_futs st))" by (rule futs_addrs_mem [OF f(1,3)])
  have same: ?thesis if "cell_view a (rx_heap (as_rx st')) = cell_view a (rx_heap (as_rx st))"
    "u_cq (rx_uring (as_rx st')) = u_cq (rx_uring (as_rx st))"
    using view_ok_cong [OF that(1)] ring_answers_same [OF that(2)] d ans(1) by simp
  have alloc: "a \<noteq> oe_alloc E (rx_heap (as_rx st))" if "alloc_ok (oe_alloc E) (rx_heap (as_rx st))"
    using alloc_okD(1) [OF that] d by (auto simp: view_ok_def cell_view_def)
  note park = park_inner_view [OF inv _ _ a d ans(1)]
  show ?thesis
  proof (cases c)
    case (NewRead fl off buf)
    with ok have al: "alloc_ok (oe_alloc E) (rx_heap (as_rx st))" by (simp add: asys_ok_def)
    from NewRead run obtain x s where new: "op_new E downcast_read AnyRead (queue_async_read p) (as_alive st) fl off buf (as_rx st) = Done (x, s)"
      and st': "as_rx st' = s" by (auto simp: AsyncRead_new_def)
    note view = op_new_view [OF i al _ _ new, where p = p and
        rq = "\<lambda>fd off iov. ReqReadv PrioNone (FD fd) off ReadWriteFlags_default iov"]
    show ?thesis by (rule same; unfold st'; rule view) (simp_all add: queue_async_read_def alloc [OF al])
  next
    case (NewWrite fl off buf)
    with ok have al: "alloc_ok (oe_alloc E) (rx_heap (as_rx st))" by (simp add: asys_ok_def)
    from NewWrite run obtain x s where new: "op_new E downcast_write AnyWrite (queue_async_write p) (as_alive st) fl off buf (as_rx st) = Done (x, s)"
      and st': "as_rx st' = s" by (auto simp: AsyncWrite_new_def)
    note view = op_new_view [OF i al _ _ new, where p = p and
        rq = "\<lambda>fd off iov. ReqWritev PrioNone (FD fd) off ReadWriteFlags_default iov"]
    show ?thesis by (rule same; unfold st'; rule view) (simp_all add: queue_async_write_def alloc [OF al])
  next
    case (NewPoll fd pfl)
    with ok have "alloc_ok (oe_alloc E) (rx_heap (as_rx st))" by (simp add: asys_ok_def)
    from alloc [OF this] run show ?thesis
      by (intro same) (auto simp: NewPoll AsyncPoll_new_def Registration_new_def rc_new_def Let_def)
  next
    case (PollFut j cur)
    with ok run on_fut_view [OF inv _ fut_poll_keeps(1) f] show ?thesis by (intro same) (simp_all add: asys_ok_def)
  next
    case (PollFutAsync j w)
    with ok run on_fut_view [OF inv _ fut_poll_keeps(2) f] show ?thesis by (intro same) (simp_all add: asys_ok_def)
  next
    case (DropFut j)
    let ?l = "take j (as_futs st)" and ?r = "drop (Suc j) (as_futs st)"
    have j: "j < length (as_futs st)" using ok DropFut by (simp add: asys_ok_def)
    have b: "beside E T (?l @ ?r) k (as_futs st ! j) (as_rx st)" using inv asys_inv_split [OF id_take_nth_drop [OF j]] by blast
    obtain h where h: "fut_drop (as_futs st ! j) (rx_heap (as_rx st)) = Done h"
      "st' = st\<lparr>as_rx := (as_rx st)\<lparr>rx_heap := h\<rparr>, as_futs := ?l @ ?r\<rparr>" using run by (auto simp: DropFut)
    from f(2) have "f \<in> set (?l @ ?r)" by (simp add: h(2))
    from futs_addrs_mem [OF this f(3)] have "a \<notin> set (fut_addrs (as_futs st ! j))" using b by (auto simp: beside_def)
    from fut_drop_other [OF h(1) this] show ?thesis by (intro same) (simp_all add: h(2))
  next
    case (ParkOp env)
    with ok run ans(2) park [of env None p lc True] show ?thesis by (auto simp: asys_ok_def op_answers_def Inner_park_def)
  next
    case (ParkTimeoutOp env n)
    with ok run ans(2) park [of env None p lc False] park [of env "Some n" p lc True] show ?thesis
      by (auto simp: asys_ok_def op_answers_def Inner_park_timeout_def split: if_splits)
  next
    case DropReactor
    with run d ans(1) show ?thesis by auto
  qed
qed

text \<open>An invariant of the steps that hold the future.\<close>

definition holds_data :: "('t, 'f) op_env \<Rightarrow> ('t, 'f) fut \<Rightarrow> u64 \<Rightarrow> ('t, 'f) any_data \<Rightarrow> (UringResult \<Rightarrow> bool) \<Rightarrow> ('t, 'f, 'w) asys \<Rightarrow> bool" where
  "holds_data E f a d R st \<longleftrightarrow> (\<exists>k T. asys_inv E k T st) \<and> f \<in> set (as_futs st) \<and> a \<in> set (fut_addrs f) \<and>
     view_ok a d R (rx_heap (as_rx st)) \<and> ring_answers (answers_for a R) (as_rx st)"

lemma holds_data_step:
  assumes "holds_data E f a d R st" "holding os p E lc f a R st st'"
  shows "holds_data E f a d R st'"
proof -
  obtain k T where inv: "asys_inv E k T st" using assms(1) by (auto simp: holds_data_def)
  from assms(2) inv obtain c where c: "asys_ok E k c st" "asys_exec os p E lc c st = Done st'" "op_answers a R c"
    by (auto simp: asys_inv_def holding_def)
  have "\<exists>k T. asys_inv E k T st'" by (rule asys_inv_step [OF _ holding_step [OF assms(2)]]) (use inv in blast)
  with asys_exec_view [OF inv c(1,2), of f a d R] assms c(3) show ?thesis by (simp add: holds_data_def holding_def)
qed

interpretation held: step_invariant "holds_data E f a d R" "holding os p E lc f a R" "holds_data E f a d R" for E f a d R os p lc
  by unfold_locales (assumption, fact holds_data_step)

text \<open>What the kernel's result \<open>r\<close> of an operation on \<open>file\<close> and \<open>buffer\<close> means to its caller.\<close>

definition op_answer :: "'f \<Rightarrow> 't \<Rightarrow> i32 \<Rightarrow> (usize \<times> 't \<times> 'f, ('t, 'f) AsyncError) rresult" where
  "op_answer file buffer r =
     (if sint r < 0 then Err \<lparr>ae_error = RawOsError (- r), ae_buffer = buffer, ae_file = file\<rparr> else Ok (scast r, buffer, file))"

lemma op_result_answer: "op_result p r cx = Done y \<Longrightarrow> y = op_answer (cx_file cx) (cx_buffer cx) (ur_result r)"
  by (auto simp: op_result_def rust_neg_i32_def op_answer_def Context_with_error_def split: if_splits)

lemma op_poll_returns:
  assumes c: "rh_cells h a = Some (n, i)" "ri_data i = Some (upcast cx)" and dc: "downcast (upcast cx) = Some cx"
  defines "ans \<equiv> op_answer (cx_file cx) (cx_buffer cx) (ur_result (ri_result i))"
  shows "op_poll p downcast cur (Pending a) h = Done (r, x, h') \<Longrightarrow>
      (r, x) = (if ri_finished i then (case ans of Ok y \<Rightarrow> Ok (Ready y) | Err e \<Rightarrow> Err e, Closed) else (Ok NotReady, Pending a))"
    "op_poll_async p downcast w (Pending a) h = Done (r', x', h'') \<Longrightarrow>
      (r', x') = (if ri_finished i then (Ready ans, Closed) else (NotReady, Pending a))"
proof -
  note fin = op_poll_finished [where downcast = downcast, OF c _ dc] and pend = op_poll_pending [where downcast = downcast, OF c]
  show "op_poll p downcast cur (Pending a) h = Done (r, x, h') \<Longrightarrow>
      (r, x) = (if ri_finished i then (case ans of Ok y \<Rightarrow> Ok (Ready y) | Err e \<Rightarrow> Err e, Closed) else (Ok NotReady, Pending a))"
    using fin(1) pend(1,3) unfolding ans_def by (cases "ri_finished i"; cases cur) (auto dest!: op_result_answer)
  show "op_poll_async p downcast w (Pending a) h = Done (r', x', h'') \<Longrightarrow>
      (r', x') = (if ri_finished i then (Ready ans, Closed) else (NotReady, Pending a))"
    using fin(2) pend(2) unfolding ans_def by (cases "ri_finished i") (auto dest!: op_result_answer)
qed

lemma asys_new_step:
  assumes "alloc_ok (oe_alloc E) (rx_heap (as_rx st))"
  shows "AsyncRead_new p E (as_alive st) fl off buf (as_rx st) = Done (x, s) \<Longrightarrow>
      asys_step os p E lc st (st\<lparr>as_rx := s, as_futs := as_futs st @ [FutRead x]\<rparr>)"
    "AsyncWrite_new p E (as_alive st) fl off buf (as_rx st) = Done (x, s) \<Longrightarrow>
      asys_step os p E lc st (st\<lparr>as_rx := s, as_futs := as_futs st @ [FutWrite x]\<rparr>)"
  by (rule asys_step.step [where c = "NewRead fl off buf"]; use assms in \<open>simp add: asys_ok_def\<close>)
    (rule asys_step.step [where c = "NewWrite fl off buf"]; use assms in \<open>simp add: asys_ok_def\<close>)

text \<open>The entry that is queued for a registration, while it waits in the submission ring.\<close>

lemma holds_data_request:
  assumes h: "holds_data E f a d R st" and e: "e \<in> set (sq_contents (u_sq (rx_uring (as_rx st))))" "se_user_data e = a"
  shows "request_ok E a d e"
proof -
  obtain k T where inv: "asys_inv E k T st" and f: "f \<in> set (as_futs st)" "a \<in> set (fut_addrs f)"
    and d: "view_ok a d R (rx_heap (as_rx st))" using h by (auto simp: holds_data_def)
  have c: "client_ok E T (as_futs st) (rx_inflight k (as_rx st)) (rx_heap (as_rx st))" and ring: "ring_ok T (as_rx st)"
    using inv by (simp_all add: asys_inv_def)
  have "fut_ok (rx_inflight k (as_rx st)) (rx_heap (as_rx st)) f" using c f(1) by (simp add: client_ok_def)
  then have "registered a" using f(2) by (rule fut_registered)
  moreover have "a \<in># rx_inflight k (as_rx st)" using e by (auto simp: rx_inflight_def sq_uds_def)
  ultimately have "lent_as E T (rx_heap (as_rx st)) a" "T a = e" using c ring e by (auto simp: client_ok_def ring_ok_def)
  with d show ?thesis by (auto simp: lent_as_def view_ok_def cell_view_Some_iff)
qed

lemma holds_data_poll:
  assumes "holds_data E (mk (Pending a)) a (upcast (lent_context E fl buf)) R st" "downcast (upcast (lent_context E fl buf)) = Some (lent_context E fl buf)"
  shows "\<exists>n i. rh_cells (rx_heap (as_rx st)) a = Some (n, i) \<and> ri_data i = Some (upcast (lent_context E fl buf)) \<and>
    (ri_finished i \<longrightarrow> R (ri_result i)) \<and>
    (\<forall>cur r x h'. op_poll p downcast cur (Pending a) (rx_heap (as_rx st)) = Done (r, x, h') \<longrightarrow>
       (r, x) = (if ri_finished i then (case op_answer fl buf (ur_result (ri_result i)) of Ok y \<Rightarrow> Ok (Ready y) | Err e \<Rightarrow> Err e, Closed)
         else (Ok NotReady, Pending a))) \<and>
    (\<forall>w r x h'. op_poll_async p downcast w (Pending a) (rx_heap (as_rx st)) = Done (r, x, h') \<longrightarrow>
       (r, x) = (if ri_finished i then (Ready (op_answer fl buf (ur_result (ri_result i))), Closed) else (NotReady, Pending a)))"
proof -
  obtain n i where c: "rh_cells (rx_heap (as_rx st)) a = Some (n, i)" "ri_data i = Some (upcast (lent_context E fl buf))"
    and fin: "ri_finished i \<longrightarrow> R (ri_result i)"
    using assms(1) by (auto simp: holds_data_def view_ok_def cell_view_Some_iff)
  have sel: "cx_file (lent_context E fl buf) = fl" "cx_buffer (lent_context E fl buf) = buf" by (simp_all add: lent_context_def)
  note ret = op_poll_returns [where downcast = downcast and upcast = upcast, OF c assms(2), unfolded sel]
  show ?thesis by (rule exI [of _ n], rule exI [of _ i], intro conjI allI impI) (fact c, fact c, erule mp [OF fin], erule ret(1), erule ret(2))
qed

lemma op_downcast:
  assumes "(new, poll, poll_async, mk, upcast) \<in>
      {(AsyncRead_new p E, AsyncRead_poll p, AsyncRead_poll_async p, FutRead, AnyRead),
       (AsyncWrite_new p E, AsyncWrite_poll p, AsyncWrite_poll_async p, FutWrite, AnyWrite)}"
  obtains downcast where "downcast (upcast cx) = Some cx" "poll = op_poll p downcast" "poll_async = op_poll_async p downcast"
proof -
  from assms consider "poll = op_poll p downcast_read" "poll_async = op_poll_async p downcast_read" "upcast = AnyRead"
    | "poll = op_poll p downcast_write" "poll_async = op_poll_async p downcast_write" "upcast = AnyWrite"
    by (auto simp: AsyncRead_poll_def AsyncWrite_poll_def AsyncRead_poll_async_def AsyncWrite_poll_async_def)
  then show thesis by cases ((rule that [of downcast_read]; simp), (rule that [of downcast_write]; simp))
qed

text \<open>The invariant holds when the operation was started: no completion for the new registration is on its way.\<close>

lemma holds_data_start:
  fixes st :: "('t, 'f, 'w) asys"
  assumes run: "asys_init st0" "(asys_step os p E lc)\<^sup>*\<^sup>* st0 st" and alloc: "alloc_ok (oe_alloc E) (rx_heap (as_rx st))"
    and op: "(new, poll, poll_async, mk, upcast) \<in>
      {(AsyncRead_new p E, AsyncRead_poll p, AsyncRead_poll_async p, FutRead, AnyRead),
       (AsyncWrite_new p E, AsyncWrite_poll p, AsyncWrite_poll_async p, FutWrite, AnyWrite)}"
    and new: "new (as_alive st) fl off buf (as_rx st) = Done (Pending a, s)"
  shows "holds_data E (mk (Pending a)) a (upcast (lent_context E fl buf)) R (st\<lparr>as_rx := s, as_futs := as_futs st @ [mk (Pending a)]\<rparr>)"
proof -
  let ?st = "st\<lparr>as_rx := s, as_futs := as_futs st @ [mk (Pending a)]\<rparr>"
  obtain k T where inv: "asys_inv E k T st" using asys.inv_reachable [OF run] by blast
  then have i: "rx_inv k (mset (futs_addrs (as_futs st))) (as_rx st)" by (simp add: asys_inv_def)
  have step: "asys_step os p E lc st ?st" using op asys_new_step [OF alloc] new by auto
  have st: "\<exists>k T. asys_inv E k T ?st" by (rule asys_inv_step [OF _ step]) (use inv in blast)
  have a: "a \<in> set (fut_addrs (mk (Pending a)))" using op by auto
  have start: "u_cq (rx_uring s) = u_cq (rx_uring (as_rx st)) \<and>
      view_ok a (upcast (lent_context E fl buf)) R (rx_heap s) \<and> a = oe_alloc E (rx_heap (as_rx st))"
  proof -
    from op consider "new = AsyncRead_new p E" "upcast = AnyRead" | "new = AsyncWrite_new p E" "upcast = AnyWrite" by auto
    then show ?thesis
    proof cases
      case 1
      note view = op_new_view [OF i alloc _ _ new [unfolded 1 AsyncRead_new_def], where p = p and
          rq = "\<lambda>fd off iov. ReqReadv PrioNone (FD fd) off ReadWriteFlags_default iov"]
      show ?thesis unfolding 1 by (intro conjI view(1) view(3) [THEN conjunct1] view(3) [THEN conjunct2]) (simp_all add: queue_async_read_def)
    next
      case 2
      note view = op_new_view [OF i alloc _ _ new [unfolded 2 AsyncWrite_new_def], where p = p and
          rq = "\<lambda>fd off iov. ReqWritev PrioNone (FD fd) off ReadWriteFlags_default iov"]
      show ?thesis unfolding 2 by (intro conjI view(1) view(3) [THEN conjunct1] view(3) [THEN conjunct2]) (simp_all add: queue_async_write_def)
    qed
  qed
  have "ring_answers (answers_for a R) s"
  proof -
    have "a \<notin># rx_inflight k (as_rx st)"
      using start rx_inv_fresh(2) [OF i alloc_okD(1) [OF alloc]] alloc_okD(2) [OF alloc] by simp
    then have "ce_user_data e \<noteq> a" if "e \<in> set (cq_contents (u_cq (rx_uring (as_rx st))))" for e
      using that by (auto simp: rx_inflight_def cq_uds_def)
    with start show ?thesis by (auto simp: ring_answers_def entry_ans_def answers_for_def)
  qed
  with st a start [THEN conjunct2, THEN conjunct1] show ?thesis by (simp add: holds_data_def)
qed

section \<open>Properties\<close>

text \<open>
  C2. Buffers come back, with the kernel's own answer. A read or a write of \<open>buf\<close> on \<open>fl\<close> is started in any state of a program, which then goes on
  in any way that neither drops nor finishes it: other futures are started, polled, finished and dropped, this one is polled, the reactor is
  parked and dropped. Then the registration still holds exactly this buffer and this file, with the \<open>iovec\<close> of the buffer; the
  entry that waits in the submission ring for it is a request on the descriptor of this file with the address of this \<open>iovec\<close>; and a poll of either
  kind is not ready before the completion, and afterwards returns this buffer and this file with a result that the kernel posted for this very
  request (\<open>R\<close> is any property of these results), or as the error it stands for.
\<close>

theorem async_buffer_returned:
  assumes run: "asys_init st0" "(asys_step os p E lc)\<^sup>*\<^sup>* st0 st" and alloc: "alloc_ok (oe_alloc E) (rx_heap (as_rx st))"
    and op: "(new, poll, poll_async, mk, upcast) \<in>
      {(AsyncRead_new p E, AsyncRead_poll p, AsyncRead_poll_async p, FutRead, AnyRead),
       (AsyncWrite_new p E, AsyncWrite_poll p, AsyncWrite_poll_async p, FutWrite, AnyWrite)}"
    and new: "new (as_alive st) fl off buf (as_rx st) = Done (Pending a, s)"
    and hold: "(holding os p E lc (mk (Pending a)) a R)\<^sup>*\<^sup>* (st\<lparr>as_rx := s, as_futs := as_futs st @ [mk (Pending a)]\<rparr>) st'"
  defines "h \<equiv> rx_heap (as_rx st')" and "cx \<equiv> \<lparr>cx_iovec = iovec_from (oe_slice E buf), cx_buffer = buf, cx_file = fl\<rparr>"
  shows "(\<forall>e \<in> set (sq_contents (u_sq (rx_uring (as_rx st')))). se_user_data e = a \<longrightarrow> request_ok E a (upcast cx) e) \<and>
    (\<exists>n i. rh_cells h a = Some (n, i) \<and> ri_data i = Some (upcast cx) \<and> (ri_finished i \<longrightarrow> R (ri_result i)) \<and>
    (\<forall>cur r x h'. poll cur (Pending a) h = Done (r, x, h') \<longrightarrow>
       (r, x) = (if ri_finished i then (case op_answer fl buf (ur_result (ri_result i)) of Ok y \<Rightarrow> Ok (Ready y) | Err e \<Rightarrow> Err e, Closed)
         else (Ok NotReady, Pending a))) \<and>
    (\<forall>w r x h'. poll_async w (Pending a) h = Done (r, x, h') \<longrightarrow>
       (r, x) = (if ri_finished i then (Ready (op_answer fl buf (ur_result (ri_result i))), Closed) else (NotReady, Pending a))))"
proof -
  have cx: "cx = lent_context E fl buf" by (simp add: cx_def lent_context_def)
  from op obtain downcast where dc: "downcast (upcast (lent_context E fl buf)) = Some (lent_context E fl buf)"
    and polls: "poll = op_poll p downcast" "poll_async = op_poll_async p downcast" by (rule op_downcast)
  from holds_data_start [OF run alloc op new]
  have held: "holds_data E (mk (Pending a)) a (upcast (lent_context E fl buf)) R st'" by (rule held.inv_steps [OF hold])
  show ?thesis unfolding h_def cx polls using holds_data_request [OF held]
    holds_data_poll [where mk = mk and upcast = upcast and downcast = downcast and p = p and R = R, OF held dc] by (intro conjI ballI impI)
qed

text \<open>A write of the buffer 512 to the file 7 is started, and the reactor is dropped before it completes.\<close>

theorem async_buffer_returned_witness:
  "\<exists>(st :: (nat, nat, demo_world) asys) n i. as_futs st = [FutWrite (Pending 0x1000)] \<and> \<not> as_alive st \<and>
    rh_cells (rx_heap (as_rx st)) 0x1000 = Some (n, i) \<and>
    ri_data i = Some (AnyWrite \<lparr>cx_iovec = iovec_from \<lparr>fp_ptr = 0x9000, fp_len = 512\<rparr>, cx_buffer = 512, cx_file = 7\<rparr>)"
proof -
  from op_new_cases [OF demo_arx_inv demo_env_alloc, of downcast_write AnyWrite "queue_async_write Debug" Debug
      "\<lambda>fd off iov. ReqWritev PrioNone (FD fd) off ReadWriteFlags_default iov" 7 0 512] demo_arx_room
  obtain s where s: "AsyncWrite_new Debug demo_env True 7 0 512 demo_arx = Done (Pending 0x1000, s)"
    by (auto simp: AsyncWrite_new_def queue_async_write_def demo_env_def)
  define st1 where "st1 = demo_asys\<lparr>as_rx := s, as_futs := as_futs demo_asys @ [FutWrite (Pending 0x1000)]\<rparr>"
  define st2 where "st2 = st1\<lparr>as_alive := False, as_world := Inner_drop demo_posix2 (as_rx st1) (as_world st1)\<rparr>"
  have futs: "as_futs st1 = [FutWrite (Pending 0x1000)]" "as_alive st1" "as_futs st2 = as_futs st1" "\<not> as_alive st2"
    by (simp_all add: st1_def st2_def demo_asys_def)
  have "holding demo_posix2 Debug demo_env demo_lc (FutWrite (Pending 0x1000)) 0x1000 (\<lambda>_. True) st1 st2"
    unfolding holding_def using futs
    by (intro conjI exI [of _ DropReactor] allI impI) (simp_all add: asys_ok_def op_answers_def st2_def)
  then have hold: "(holding demo_posix2 Debug demo_env demo_lc (FutWrite (Pending 0x1000)) 0x1000 (\<lambda>_. True))\<^sup>*\<^sup>* st1 st2" by (rule r_into_rtranclp)
  have "alloc_ok (oe_alloc demo_env) (rx_heap (as_rx demo_asys))" using demo_env_alloc by (simp add: demo_asys_def)
  from async_buffer_returned [OF demo_asys_init rtranclp.rtrancl_refl this, where new = "AsyncWrite_new Debug demo_env" and mk = FutWrite and
      upcast = AnyWrite and poll = "AsyncWrite_poll Debug" and poll_async = "AsyncWrite_poll_async Debug" and p = Debug and fl = 7 and off = 0 and
      buf = 512 and a = "0x1000" and s = s and st' = st2 and R = "\<lambda>_. True" and os = demo_posix2 and lc = demo_lc] s hold
  obtain n i where "rh_cells (rx_heap (as_rx st2)) 0x1000 = Some (n, i)"
    "ri_data i = Some (AnyWrite \<lparr>cx_iovec = iovec_from (oe_slice demo_env 512), cx_buffer = 512, cx_file = 7\<rparr>)"
    by (auto simp: demo_asys_def st1_def)
  with futs show ?thesis by (intro exI [of _ st2] exI [of _ n] exI [of _ i]) (simp add: demo_env_def)
qed

end
