(* ===== verification/Net_Io.thy ===== *)
theory Net_Io
  imports Async_System
begin

text \<open>
  \<open>tokio-uring-reactor/src/net.rs\<close> and \<open>io.rs\<close>: a listener whose incoming connections are a stream
  over \<open>accept\<close> and an \<open>AsyncPoll\<close>, sockets that are read and written through the reactor's handle, and
  a socket split into two halves that share it. \<open>accept\<close> of the standard library's listener is a
  function of the listener and the state \<open>'w\<close> of the world.
\<close>

section \<open>Sockets\<close>

text \<open>\<open>io::Error::kind\<close>, as far as the code distinguishes kinds: the other codes are \<open>KindOther\<close>.\<close>

definition io_error_kind :: "io_error \<Rightarrow> ErrorKind" where
  "io_error_kind e = (case e of
       RawOsError n \<Rightarrow> if n = 4 then KindInterrupted else if n = 11 then KindWouldBlock
         else if n = 110 then KindTimedOut else KindOther
     | CustomError k _ \<Rightarrow> k)"

definition SocketRead_read where
  "SocketRead_read p E alive self buf s = Handle_async_read p E alive self 0 buf s"

definition SocketWrite_write where
  "SocketWrite_write p E alive self buf s = Handle_async_write p E alive self 0 buf s"

text \<open>Shared sockets: \<open>Rc<T>\<close>; a socket is closed when its last owner is dropped.\<close>

record 's sock_heap =
  sk_cells :: "u64 \<rightharpoonup> nat \<times> 's"
  sk_closed :: "'s list"

datatype SplitRead = SplitRead u64
datatype SplitWrite = SplitWrite u64

definition sock_new :: "('s sock_heap \<Rightarrow> u64) \<Rightarrow> 's \<Rightarrow> 's sock_heap \<Rightarrow> u64 \<times> 's sock_heap" where
  "sock_new alloc rw h = (alloc h, h\<lparr>sk_cells := (sk_cells h)(alloc h \<mapsto> (1, rw))\<rparr>)"

definition sock_clone :: "u64 \<Rightarrow> 's sock_heap \<Rightarrow> 's sock_heap outcome" where
  "sock_clone a h = (case sk_cells h a of
       None \<Rightarrow> Undefined ''clone of a freed socket''
     | Some (n, rw) \<Rightarrow> Done (h\<lparr>sk_cells := (sk_cells h)(a \<mapsto> (Suc n, rw))\<rparr>))"

definition sock_drop :: "u64 \<Rightarrow> 's sock_heap \<Rightarrow> 's sock_heap outcome" where
  "sock_drop a h = (case sk_cells h a of
       None \<Rightarrow> Undefined ''drop of a freed socket''
     | Some (n, rw) \<Rightarrow>
         if n \<le> 1 then Done (h\<lparr>sk_cells := (sk_cells h)(a := None), sk_closed := sk_closed h @ [rw]\<rparr>)
         else Done (h\<lparr>sk_cells := (sk_cells h)(a \<mapsto> (n - 1, rw))\<rparr>))"

definition split_socket :: "('s sock_heap \<Rightarrow> u64) \<Rightarrow> 's \<Rightarrow> 's sock_heap \<Rightarrow> ((SplitRead \<times> SplitWrite) \<times> 's sock_heap) outcome" where
  "split_socket alloc rw h =
     (let (a, h) = sock_new alloc rw h in
      obind (sock_clone a h) (\<lambda>h. Done ((SplitRead a, SplitWrite a), h)))"

definition SocketRead_split :: "('s sock_heap \<Rightarrow> u64) \<Rightarrow> 's \<Rightarrow> 's sock_heap \<Rightarrow> ((SplitRead \<times> SplitWrite) \<times> 's sock_heap) outcome" where
  "SocketRead_split alloc self h = split_socket alloc self h"

definition sock_fd :: "('s \<Rightarrow> i32) \<Rightarrow> u64 \<Rightarrow> 's sock_heap \<Rightarrow> i32 outcome" where
  "sock_fd as_raw_fd a h = (case sk_cells h a of
       None \<Rightarrow> Undefined ''access to a freed socket'' | Some (_, rw) \<Rightarrow> Done (as_raw_fd rw))"

primrec SplitRead_as_raw_fd :: "('s \<Rightarrow> i32) \<Rightarrow> SplitRead \<Rightarrow> 's sock_heap \<Rightarrow> i32 outcome" where
  "SplitRead_as_raw_fd as_raw_fd (SplitRead a) h = sock_fd as_raw_fd a h"

primrec SplitWrite_as_raw_fd :: "('s \<Rightarrow> i32) \<Rightarrow> SplitWrite \<Rightarrow> 's sock_heap \<Rightarrow> i32 outcome" where
  "SplitWrite_as_raw_fd as_raw_fd (SplitWrite a) h = sock_fd as_raw_fd a h"

primrec SplitRead_drop :: "SplitRead \<Rightarrow> 's sock_heap \<Rightarrow> 's sock_heap outcome" where
  "SplitRead_drop (SplitRead a) h = sock_drop a h"

primrec SplitWrite_drop :: "SplitWrite \<Rightarrow> 's sock_heap \<Rightarrow> 's sock_heap outcome" where
  "SplitWrite_drop (SplitWrite a) h = sock_drop a h"

section \<open>Incoming connections\<close>

datatype 'l TcpListener = TcpListener (listener: 'l)
datatype 's TcpStream = TcpStream (stream: 's)

definition TcpListener_from :: "('w, 'z) posix_scheme \<Rightarrow> ('l \<Rightarrow> i32) \<Rightarrow> 'l \<Rightarrow> 'w \<Rightarrow> 'l TcpListener \<times> 'w" where
  "TcpListener_from os as_raw_fd l w = (TcpListener l, set_non_block os (as_raw_fd l) w)"

definition TcpStream_as_raw_fd :: "('s \<Rightarrow> i32) \<Rightarrow> 's TcpStream \<Rightarrow> i32" where
  "TcpStream_as_raw_fd as_raw_fd s = as_raw_fd (stream s)"

record 'l Incoming =
  in_inner :: "'l TcpListener"
  in_blocked :: bool
  in_poll :: AsyncPoll

definition TcpListener_incoming :: "('t, 'f) op_env \<Rightarrow> libc_poll \<Rightarrow> ('l \<Rightarrow> i32) \<Rightarrow> 'l TcpListener \<Rightarrow>
  ('t, 'f) any_data rc_heap \<Rightarrow> 'l Incoming \<times> ('t, 'f) any_data rc_heap" where
  "TcpListener_incoming E lc as_raw_fd self h =
     (let fd = as_raw_fd (listener self);
          (poll, h) = Handle_async_poll E fd (PollFlags_IN lc) h
      in (\<lparr>in_inner = self, in_blocked = True, in_poll = poll\<rparr>, h))"

type_synonym ('l, 's, 'a, 'w) accept_fn = "'l \<Rightarrow> 'w \<Rightarrow> ('s \<times> 'a, io_error) rresult \<times> 'w"
type_synonym 'r poll_fn = "AsyncPoll \<Rightarrow> 'r \<Rightarrow> ((u16 option Async, io_error) rresult \<times> AsyncPoll \<times> 'r) outcome"
type_synonym ('l, 'r, 'w) in_state = "'l Incoming \<times> 'r \<times> 'w"
type_synonym ('l, 's, 'a, 'r, 'w) in_result =
  "((('s TcpStream \<times> 'a) Async, io_error) rresult \<times> ('l, 'r, 'w) in_state) outcome"

text \<open>One pass through the loop: \<open>Inl\<close> goes round again, \<open>Inr\<close> leaves it.\<close>

definition incoming_wait :: "'r poll_fn \<Rightarrow> ('l, 'r, 'w) in_state \<Rightarrow> ('l, 'r, 'w) in_state + ('l, 's, 'a, 'r, 'w) in_result" where
  "incoming_wait pollf st =
     (let (self, s, w) = st in
      case pollf (in_poll self) s of
        Done (polled, ap, s) \<Rightarrow>
          let self = self\<lparr>in_poll := ap\<rparr> in
          (case polled of
             Err e \<Rightarrow> Inr (Done (Err e, self, s, w))
           | Ok NotReady \<Rightarrow> Inr (Done (Ok NotReady, self, s, w))
           | Ok (Ready None) \<Rightarrow> Inr (Panic ''internal error: entered unreachable code'')
           | Ok (Ready (Some _)) \<Rightarrow> Inl (self\<lparr>in_blocked := False\<rparr>, s, w))
      | Panic m \<Rightarrow> Inr (Panic m) | Undefined m \<Rightarrow> Inr (Undefined m) | Blocks m \<Rightarrow> Inr (Blocks m))"

definition incoming_body :: "'r poll_fn \<Rightarrow> ('l, 's, 'a, 'w) accept_fn \<Rightarrow> ('l, 'r, 'w) in_state \<Rightarrow>
  ('l, 'r, 'w) in_state + ('l, 's, 'a, 'r, 'w) in_result" where
  "incoming_body pollf accept st =
     (let (self, s, w) = st in
      if \<not> in_blocked self then
        let (r, w) = accept (listener (in_inner self)) w in
        (case r of
           Ok (con, a) \<Rightarrow> Inr (Done (Ok (Ready (TcpStream con, a)), self, s, w))
         | Err e \<Rightarrow>
             if io_error_kind e = KindInterrupted then Inl (self, s, w)
             else if io_error_kind e = KindWouldBlock then incoming_wait pollf (self\<lparr>in_blocked := True\<rparr>, s, w)
             else Inr (Done (Err e, self, s, w)))
      else incoming_wait pollf st)"

text \<open>The loop has no bound of its own, so not returning is the value \<open>None\<close>.\<close>

partial_function (option) incoming_loop :: "'r poll_fn \<Rightarrow> ('l, 's, 'a, 'w) accept_fn \<Rightarrow> ('l, 'r, 'w) in_state \<Rightarrow>
  ('l, 's, 'a, 'r, 'w) in_result option" where
  "incoming_loop pollf accept st = (case incoming_body pollf accept st of
     Inl st' \<Rightarrow> incoming_loop pollf accept st' | Inr r \<Rightarrow> Some r)"

definition Incoming_poll where
  "Incoming_poll p lc alive accept cur self s w = incoming_loop (AsyncPoll_poll p lc alive cur) accept (self, s, w)"

text \<open>\<open>poll_next\<close> for \<open>std\<close> tasks: the same loop over the other poll, with the results in its types.\<close>

definition poll_fn_async :: "profile \<Rightarrow> libc_poll \<Rightarrow> bool \<Rightarrow> task \<Rightarrow> ('t, 'f) any_rx poll_fn" where
  "poll_fn_async p lc alive waker ap s = map_outcome (\<lambda>(r, ap, s).
     (case r of NotReady \<Rightarrow> Ok NotReady | Ready (Ok fl) \<Rightarrow> Ok (Ready (Some fl)) | Ready (Err e) \<Rightarrow> Err e, ap, s))
     (AsyncPoll_poll_async p lc alive waker ap s)"

definition poll_next_result :: "('c Async, io_error) rresult \<Rightarrow> ('c, io_error) rresult option Async" where
  "poll_next_result r = (case r of Ok NotReady \<Rightarrow> NotReady | Ok (Ready c) \<Rightarrow> Ready (Some (Ok c)) | Err e \<Rightarrow> Ready (Some (Err e)))"

definition Incoming_poll_next where
  "Incoming_poll_next p lc alive accept waker self s w =
     map_option (map_outcome (\<lambda>(r, st). (poll_next_result r, st)))
       (incoming_loop (poll_fn_async p lc alive waker) accept (self, s, w))"


section \<open>Specification of the loop\<close>

text \<open>
  What a call promises: the poll keeps its invariant; a connection is what \<open>accept\<close> returned last; an
  error is neither an interruption nor a refusal for now, or comes from the poll; \<open>NotReady\<close>
  is answered only with the poll armed.
\<close>

definition incoming_good :: "(AsyncPoll \<Rightarrow> 'r \<Rightarrow> bool) \<Rightarrow> (AsyncPoll \<Rightarrow> 'r \<Rightarrow> bool) \<Rightarrow> string set \<Rightarrow>
  ('l, 's, 'a, 'w) accept_fn \<Rightarrow> 'l TcpListener \<Rightarrow> ('l, 's, 'a, 'r, 'w) in_result \<Rightarrow> bool" where
  "incoming_good I armed panics accept l r = (case r of
       Done (res, self, s, w) \<Rightarrow> in_inner self = l \<and> I (in_poll self) s \<and>
         (case res of
            Ok NotReady \<Rightarrow> in_blocked self \<and> armed (in_poll self) s
          | Ok (Ready (con, a)) \<Rightarrow> \<not> in_blocked self \<and> (\<exists>w0. accept (listener l) w0 = (Ok (stream con, a), w))
          | Err e \<Rightarrow> in_blocked self \<or> (\<exists>w0. accept (listener l) w0 = (Err e, w)) \<and>
              io_error_kind e \<notin> {KindInterrupted, KindWouldBlock})
     | Panic m \<Rightarrow> m \<in> panics | Undefined m \<Rightarrow> False | Blocks m \<Rightarrow> False)"

definition in_measures :: "('w \<Rightarrow> nat) \<Rightarrow> (('l, 'r, 'w) in_state \<times> ('l, 'r, 'w) in_state) set" where
  "in_measures m = measures [\<lambda>(self, s, w). of_bool (ap_active (in_poll self)), \<lambda>(self, s, w). m w]"

text \<open>\<open>accept\<close> is not interrupted for ever: each interruption uses up something.\<close>

definition interrupts_end :: "('l, 's, 'a, 'w) accept_fn \<Rightarrow> ('w \<Rightarrow> nat) \<Rightarrow> bool" where
  "interrupts_end accept m \<longleftrightarrow>
     (\<forall>l w e w'. accept l w = (Err e, w') \<longrightarrow> io_error_kind e = KindInterrupted \<longrightarrow> m w' < m w)"

text \<open>The request of the poll is in flight and its completion will wake the task.\<close>

definition poll_armed :: "u64 multiset \<Rightarrow> CompatWaker \<Rightarrow> AsyncPoll \<Rightarrow> 'd Reactor_Inner \<Rightarrow> bool" where
  "poll_armed k wk ap s \<longleftrightarrow> ap_active ap \<and> ap_registration ap \<in># rx_inflight k s \<and>
     (case rh_cells (rx_heap s) (ap_registration ap) of None \<Rightarrow> False
      | Some (n, i) \<Rightarrow> \<not> ri_finished i \<and> ri_waker i = wk)"

text \<open>An \<open>accept\<close> that answers from a list, then \<open>WouldBlock\<close>.\<close>

definition script_accept :: "(i32, nat, nat, (nat \<times> nat, io_error) rresult list) accept_fn" where
  "script_accept l w = (case w of [] \<Rightarrow> (Err (RawOsError 11), []) | r # rs \<Rightarrow> (r, rs))"

section \<open>Sources of readiness events\<close>

text \<open>
  The contract of a poll the loop relies on: it keeps its invariant or panics for a known reason, is
  armed when it is not ready, and an event turns an active poll into an idle one.
\<close>

locale event_source =
  fixes I :: "AsyncPoll \<Rightarrow> 'r \<Rightarrow> bool" and armed :: "AsyncPoll \<Rightarrow> 'r \<Rightarrow> bool"
    and pollf :: "AsyncPoll \<Rightarrow> 'r \<Rightarrow> ((u16 option Async, io_error) rresult \<times> AsyncPoll \<times> 'r) outcome"
    and panics :: "string set"
  assumes polled: "I ap s \<Longrightarrow>
    (\<exists>r ap' s'. pollf ap s = Done (r, ap', s') \<and> I ap' s' \<and> (r = Ok NotReady \<longrightarrow> armed ap' s') \<and>
       (\<forall>x. r = Ok (Ready x) \<longrightarrow> x \<noteq> None \<and> ap_active ap \<and> \<not> ap_active ap')) \<or>
    (\<exists>m \<in> panics. pollf ap s = Panic m)"
begin

lemma wait_good:
  assumes "I (in_poll self) s" "in_blocked self"
  shows "case incoming_wait pollf (self, s, w) of
      Inl (self', s', w') \<Rightarrow> I (in_poll self') s' \<and> in_inner self' = in_inner self \<and>
        ap_active (in_poll self) \<and> \<not> ap_active (in_poll self')
    | Inr r \<Rightarrow> incoming_good I armed panics accept (in_inner self) r"
  using polled [OF assms(1)]
proof (elim disjE exE bexE conjE)
  fix r ap' s'
  assume p: "pollf (in_poll self) s = Done (r, ap', s')" "I ap' s'" "r = Ok NotReady \<longrightarrow> armed ap' s'"
    "\<forall>x. r = Ok (Ready x) \<longrightarrow> x \<noteq> None \<and> ap_active (in_poll self) \<and> \<not> ap_active ap'"
  show ?thesis
  proof (cases r)
    case (Ok v)
    then show ?thesis using p assms(2) by (cases v) (auto simp: incoming_wait_def incoming_good_def)
  qed (use p assms(2) in \<open>simp add: incoming_wait_def incoming_good_def\<close>)
qed (simp add: incoming_wait_def incoming_good_def)

lemma body_good:
  assumes inv: "I (in_poll self) s"
    and intr: "interrupts_end accept m"
  shows "case incoming_body pollf accept (self, s, w) of
      Inl (self', s', w') \<Rightarrow> I (in_poll self') s' \<and> in_inner self' = in_inner self \<and>
        ((self', s', w'), (self, s, w)) \<in> in_measures m
    | Inr r \<Rightarrow> incoming_good I armed panics accept (in_inner self) r"
proof (cases "in_blocked self")
  case True
  with wait_good [OF inv, where w = w and accept = accept] show ?thesis
    by (auto simp: incoming_body_def in_measures_def split: sum.splits)
next
  case False
  obtain r w' where acc: "accept (listener (in_inner self)) w = (r, w')" by fastforce
  show ?thesis
  proof (cases r)
    case (Ok c)
    then show ?thesis using False acc inv by (cases c) (auto simp: incoming_body_def incoming_good_def)
  next
    case (Err e)
    have "I (in_poll (self\<lparr>in_blocked := True\<rparr>)) s" using inv by simp
    from wait_good [OF this, where w = w' and accept = accept] show ?thesis
      using False acc Err inv intr [unfolded interrupts_end_def, rule_format, of "listener (in_inner self)" w e w']
      by (auto simp: incoming_body_def in_measures_def incoming_good_def split: sum.splits)
  qed
qed

lemma loop_returns:
  assumes intr: "interrupts_end accept m"
    and "I (in_poll self) s"
  shows "\<exists>r. incoming_loop pollf accept (self, s, w) = Some r \<and> incoming_good I armed panics accept (in_inner self) r"
proof -
  have wf: "wf (in_measures m)" by (simp add: in_measures_def)
  have "I (in_poll (fst st)) (fst (snd st)) \<Longrightarrow>
      \<exists>r. incoming_loop pollf accept st = Some r \<and> incoming_good I armed panics accept (in_inner (fst st)) r" for st
  proof (induction st rule: wf_induct_rule [OF wf])
    case (1 st)
    obtain self s w where st: "st = (self, s, w)" by (cases st)
    note b = body_good [where m = m and accept = accept and self = self and s = s and w = w, OF _ intr]
    show ?case
    proof (cases "incoming_body pollf accept st")
      case (Inl st')
      with b 1 st have "I (in_poll (fst st')) (fst (snd st'))" "in_inner (fst st') = in_inner self" "(st', st) \<in> in_measures m"
        by (auto split: prod.splits)
      with 1(1) [of st'] Inl st show ?thesis by (simp add: incoming_loop.simps [of pollf accept "(self, s, w)"])
    next
      case (Inr r)
      with b 1 st show ?thesis by (simp add: incoming_loop.simps [of pollf accept "(self, s, w)"])
    qed
  qed
  from this [of "(self, s, w)"] assms(2) show ?thesis by simp
qed

end


section \<open>Polls of the reactor are sources of readiness events\<close>

lemma map_outcome_Done_iff: "map_outcome f x = Done y \<longleftrightarrow> (\<exists>a. x = Done a \<and> y = f a)"
  by (cases x) auto

lemma AsyncPoll_events:
  assumes b: "beside E T fs k (FutPoll ap) s" and run: "AsyncPoll_poll p lc True (Some t) ap s = Done (r, ap', s')"
  shows "(r = Ok NotReady \<longrightarrow> ap_active ap' \<and>
      (\<exists>n i. rh_cells (rx_heap s') (ap_registration ap') = Some (n, i) \<and> \<not> ri_finished i \<and> ri_waker i = Old t)) \<and>
    (\<forall>x. r = Ok (Ready x) \<longrightarrow> x \<noteq> None \<and> ap_active ap \<and> \<not> ap_active ap')"
proof -
  have ok: "cell_ok (rx_inflight k s) (rx_heap s) (ap_registration ap) (\<lambda>d. d = AnyUnit) (ap_active ap)"
    using b by (simp add: beside_def fut_ok_def)
  show ?thesis
  proof (cases "ap_active ap")
    case True
    from ok obtain n i where c: "rh_cells (rx_heap s) (ap_registration ap) = Some (n, i)" by (rule cell_okD)
    from run [unfolded AsyncPoll_poll_active(1) [OF c refl True]] True show ?thesis
      by (cases "AsyncPoll_result p lc (ri_result i)") (auto split: if_splits rresult.splits)
  next
    case False
    from AsyncPoll_start_beside [OF b False, of p True] obtain r1 ap1 s1 where st: "AsyncPoll_start p True ap s = Done (r1, ap1, s1)"
      "ap_registration ap1 = ap_registration ap" "is_err r1 \<or> ap_active ap1 \<and> unfinished (rx_heap s1) (ap_registration ap)"
      by blast
    show ?thesis
    proof (cases r1)
      case (Ok u)
      with st(3) obtain n i where c: "rh_cells (rx_heap s1) (ap_registration ap) = Some (n, i)" "\<not> ri_finished i"
        by (auto simp: unfinished_def split: option.splits)
      from run False Ok st track_cell(1) [OF c(1), of t] c show ?thesis by (auto simp: AsyncPoll_poll_def)
    qed (use run False st in \<open>auto simp: AsyncPoll_poll_def\<close>)
  qed
qed

text \<open>The poll of \<open>std\<close> tasks differs in the kind of waker it stores, and not in its results.\<close>

lemma AsyncPoll_async_events:
  assumes b: "beside E T fs k (FutPoll ap) s" and run: "poll_fn_async p lc True t ap s = Done (r, ap', s')"
  shows "(r = Ok NotReady \<longrightarrow> ap_active ap' \<and>
      (\<exists>n i. rh_cells (rx_heap s') (ap_registration ap') = Some (n, i) \<and> \<not> ri_finished i \<and> ri_waker i = New t)) \<and>
    (\<forall>x. r = Ok (Ready x) \<longrightarrow> x \<noteq> None \<and> ap_active ap \<and> \<not> ap_active ap')"
proof -
  have ok: "cell_ok (rx_inflight k s) (rx_heap s) (ap_registration ap) (\<lambda>d. d = AnyUnit) (ap_active ap)"
    using b by (simp add: beside_def fut_ok_def)
  show ?thesis
  proof (cases "ap_active ap")
    case True
    from ok obtain n i where c: "rh_cells (rx_heap s) (ap_registration ap) = Some (n, i)" by (rule cell_okD)
    from run [unfolded poll_fn_async_def AsyncPoll_poll_active(2) [OF c refl True]] True show ?thesis
      by (auto simp: map_outcome_Done_iff split: if_splits rresult.splits)
  next
    case False
    from AsyncPoll_start_beside [OF b False, of p True] obtain r1 ap1 s1 where st: "AsyncPoll_start p True ap s = Done (r1, ap1, s1)"
      "ap_registration ap1 = ap_registration ap" "is_err r1 \<or> ap_active ap1 \<and> unfinished (rx_heap s1) (ap_registration ap)"
      by blast
    show ?thesis
    proof (cases r1)
      case (Ok u)
      with st(3) obtain n i where c: "rh_cells (rx_heap s1) (ap_registration ap) = Some (n, i)" "\<not> ri_finished i"
        by (auto simp: unfinished_def split: option.splits)
      from run False Ok st track_cell(3) [OF c(1), of t] c show ?thesis
        by (auto simp: poll_fn_async_def map_outcome_Done_iff AsyncPoll_poll_async_def)
    qed (use run False st in \<open>auto simp: poll_fn_async_def map_outcome_Done_iff AsyncPoll_poll_async_def\<close>)
  qed
qed

lemma armed_beside:
  assumes "some_beside E fs k (FutPoll ap) s" "ap_active ap"
    and "rh_cells (rx_heap s) (ap_registration ap) = Some (n, i)" "\<not> ri_finished i" "ri_waker i = wk"
  shows "poll_armed k wk ap s"
  using assms by (auto simp: some_beside_def beside_def fut_ok_def poll_armed_def cell_ok_def)

interpretation listen: event_source "\<lambda>ap s. some_beside E fs k (FutPoll ap) s" "poll_armed k (Old t)"
    "AsyncPoll_poll p lc True (Some t)" async_panics for E fs k t p lc
proof
  fix ap s assume "some_beside E fs k (FutPoll ap) s"
  then obtain T where b: "beside E T fs k (FutPoll ap) s" by (auto simp: some_beside_def)
  from AsyncPoll_beside(1) [OF b, of p lc True "Some t"] AsyncPoll_events [OF b, of p lc t]
  show "(\<exists>r ap' s'. AsyncPoll_poll p lc True (Some t) ap s = Done (r, ap', s') \<and> some_beside E fs k (FutPoll ap') s' \<and>
      (r = Ok NotReady \<longrightarrow> poll_armed k (Old t) ap' s') \<and>
      (\<forall>x. r = Ok (Ready x) \<longrightarrow> x \<noteq> None \<and> ap_active ap \<and> \<not> ap_active ap')) \<or>
    (\<exists>m \<in> async_panics. AsyncPoll_poll p lc True (Some t) ap s = Panic m)"
    by (cases "AsyncPoll_poll p lc True (Some t) ap s") (auto simp: fut_poll_def fut_step_ok_def intro: armed_beside)
qed

interpretation listen_async: event_source "\<lambda>ap s. some_beside E fs k (FutPoll ap) s" "poll_armed k (New t)"
    "poll_fn_async p lc True t" async_panics for E fs k t p lc
proof
  fix ap s assume "some_beside E fs k (FutPoll ap) s"
  then obtain T where b: "beside E T fs k (FutPoll ap) s" by (auto simp: some_beside_def)
  from AsyncPoll_beside(2) [OF b, of p lc True t] AsyncPoll_async_events [OF b, of p lc t]
  show "(\<exists>r ap' s'. poll_fn_async p lc True t ap s = Done (r, ap', s') \<and> some_beside E fs k (FutPoll ap') s' \<and>
      (r = Ok NotReady \<longrightarrow> poll_armed k (New t) ap' s') \<and>
      (\<forall>x. r = Ok (Ready x) \<longrightarrow> x \<noteq> None \<and> ap_active ap \<and> \<not> ap_active ap')) \<or>
    (\<exists>m \<in> async_panics. poll_fn_async p lc True t ap s = Panic m)"
    by (cases "AsyncPoll_poll_async p lc True t ap s")
      (auto simp: poll_fn_async_def fut_poll_async_def fut_step_ok_def intro: armed_beside)
qed


section \<open>Properties\<close>


lemma demo_client: "client_ok demo_env T [] (rx_inflight {#} demo_arx) (rx_heap demo_arx)" "ring_ok T demo_arx"
proof -
  have "rx_inflight {#} demo_arx = {#TIMER, PARK#}"
    by (simp add: rx_inflight_def demo_arx_def demo_rx_def sample_cq_uds sq_uds_def sq_contents_def ring_dist_def sample_sq_def)
  then show "client_ok demo_env T [] (rx_inflight {#} demo_arx) (rx_heap demo_arx)" by (simp add: client_ok_def)
  show "ring_ok T demo_arx" by (simp add: ring_ok_def demo_arx_def demo_rx_def sq_contents_def ring_dist_def sample_sq_def)
qed

lemma demo_incoming:
  assumes "TcpListener_incoming demo_env demo_lc (\<lambda>l. l) (TcpListener 3) (rx_heap demo_arx) = (self, h)"
  shows "some_beside demo_env [] {#} (FutPoll (in_poll self)) (demo_arx\<lparr>rx_heap := h\<rparr>)"
  using assms demo_arx_inv AsyncPoll_new_beside [OF _ demo_client(1) demo_env_alloc _ demo_client(2), of 3 "PollFlags_IN demo_lc" _ h]
  by (auto intro!: some_besideI simp: TcpListener_incoming_def Handle_async_poll_def split: prod.splits)

lemma script_interrupts_end: "interrupts_end script_accept length"
  by (auto simp: interrupts_end_def script_accept_def io_error_kind_def split: list.splits)


text \<open>
  A listener is made non-blocking before it is polled, so \<open>accept\<close> never blocks the reactor's thread:
  \<open>TcpListener::from\<close> adds \<open>O_NONBLOCK\<close> to its descriptor's flags and changes nothing else, and
  \<open>incoming\<close> starts with the poll idle, to be asked first, beside the program's other futures.
\<close>

theorem listener_setup:
  assumes laws: "fcntl_laws os flags_of" and nb: "px_O_NONBLOCK os \<noteq> 0"
    and inv: "rx_inv k (mset (futs_addrs fs)) s" "client_ok E T fs (rx_inflight k s) (rx_heap s)" "alloc_ok (oe_alloc E) (rx_heap s)"
    and ring: "ring_ok T s"
    and from_l: "TcpListener_from os as_raw_fd l w = (tcp, w')" and inc: "TcpListener_incoming E lc as_raw_fd tcp (rx_heap s) = (self, h)"
  shows "flags_of w' (as_raw_fd l) AND px_O_NONBLOCK os \<noteq> 0 \<and> (\<forall>fd. fd \<noteq> as_raw_fd l \<longrightarrow> flags_of w' fd = flags_of w fd) \<and>
    (\<forall>b. bit (flags_of w (as_raw_fd l)) b \<longrightarrow> bit (flags_of w' (as_raw_fd l)) b) \<and>
    in_inner self = TcpListener l \<and> in_blocked self \<and> \<not> ap_active (in_poll self) \<and> ap_fd (in_poll self) = as_raw_fd l \<and>
    ap_flags (in_poll self) = libc_POLLIN lc \<and> some_beside E fs k (FutPoll (in_poll self)) (s\<lparr>rx_heap := h\<rparr>)"
proof -
  let ?fd = "as_raw_fd l"
  have tcp: "tcp = TcpListener l" and w': "w' = set_non_block os ?fd w" using from_l by (auto simp: TcpListener_from_def)
  have fl: "flags_of w' = (flags_of w)(?fd := if 0 = flags_of w ?fd AND px_O_NONBLOCK os
      then flags_of w ?fd OR px_O_NONBLOCK os else flags_of w ?fd)"
    unfolding w' using laws unfolding fcntl_laws_def set_non_block_def by (simp add: case_prod_unfold Let_def)
  have "(x OR y) AND y = y" for x y :: i32 by (auto intro!: bit_word_eqI simp: bit_simps)
  with nb fl have "flags_of w' ?fd AND px_O_NONBLOCK os \<noteq> 0" by auto
  moreover have "\<forall>b. bit (flags_of w ?fd) b \<longrightarrow> bit (flags_of w' ?fd) b" using fl by (auto simp: bit_simps)
  moreover obtain ap where ap: "AsyncPoll_new E ?fd (PollFlags_IN lc) (rx_heap s) = (ap, h)"
    "self = \<lparr>in_inner = TcpListener l, in_blocked = True, in_poll = ap\<rparr>"
    using inc tcp by (auto simp: TcpListener_incoming_def Handle_async_poll_def split: prod.splits)
  moreover have "\<not> ap_active ap" "ap_fd ap = ?fd" "ap_flags ap = libc_POLLIN lc"
    using ap(1) by (auto simp: AsyncPoll_new_def PollFlags_IN_def split: prod.splits)
  ultimately show ?thesis using fl some_besideI [OF AsyncPoll_new_beside [OF inv ap(1) ring]] by simp
qed

theorem listener_setup_witness:
  "\<exists>tcp w' self h. TcpListener_from demo_posix (\<lambda>l. l) 3 (\<lambda>_. 0) = (tcp, w') \<and> w' 3 AND 0x800 \<noteq> 0 \<and>
    TcpListener_incoming demo_env demo_lc (\<lambda>l. l) tcp (rx_heap demo_arx) = (self, h) \<and> in_blocked self"
proof -
  obtain tcp w' where f: "TcpListener_from demo_posix (\<lambda>l. l) 3 (\<lambda>_. 0) = (tcp, w')" by fastforce
  obtain self h where i: "TcpListener_incoming demo_env demo_lc (\<lambda>l. l) tcp (rx_heap demo_arx) = (self, h)" by fastforce
  have c: "px_O_NONBLOCK demo_posix = 0x800" "rx_inv {#} (mset (futs_addrs ([] :: (nat, nat) fut list))) demo_arx"
    using demo_arx_inv by (simp_all add: demo_posix_def)
  then have "px_O_NONBLOCK demo_posix \<noteq> 0" by simp
  from listener_setup [OF demo_fcntl_laws this c(2) demo_client(1) demo_env_alloc demo_client(2) f i] f i c(1) show ?thesis by auto
qed

text \<open>
  Splitting a socket. Both halves have the socket's descriptor; the socket stays open while one of them
  exists and is closed exactly once, by whichever half is dropped last, and nothing else changes.
\<close>

theorem split_closes_once:
  assumes "sk_cells h (alloc h) = None"
  shows "\<exists>r wr h1. split_socket alloc rw h = Done ((r, wr), h1) \<and> sk_closed h1 = sk_closed h \<and>
    SplitRead_as_raw_fd as_raw_fd r h1 = Done (as_raw_fd rw) \<and> SplitWrite_as_raw_fd as_raw_fd wr h1 = Done (as_raw_fd rw) \<and>
    (\<exists>h2. SplitRead_drop r h1 = Done h2 \<and> sk_closed h2 = sk_closed h \<and> SplitWrite_as_raw_fd as_raw_fd wr h2 = Done (as_raw_fd rw) \<and>
       SplitWrite_drop wr h2 = Done (h\<lparr>sk_closed := sk_closed h @ [rw]\<rparr>)) \<and>
    (\<exists>h2. SplitWrite_drop wr h1 = Done h2 \<and> sk_closed h2 = sk_closed h \<and> SplitRead_as_raw_fd as_raw_fd r h2 = Done (as_raw_fd rw) \<and>
       SplitRead_drop r h2 = Done (h\<lparr>sk_closed := sk_closed h @ [rw]\<rparr>))"
proof -
  have "(sk_cells h)(alloc h := None) = sk_cells h" using assms by auto
  then show ?thesis by (simp add: split_socket_def sock_new_def sock_clone_def sock_fd_def sock_drop_def)
qed

theorem split_closes_once_witness:
  "\<exists>r wr h1. split_socket (\<lambda>_. 0x10) (7 :: nat) \<lparr>sk_cells = (\<lambda>_. None), sk_closed = []\<rparr> = Done ((r, wr), h1) \<and>
    (\<exists>h2. SplitRead_drop r h1 = Done h2 \<and> SplitWrite_drop wr h2 = Done \<lparr>sk_cells = (\<lambda>_. None), sk_closed = [7]\<rparr>)"
  using split_closes_once [of "\<lparr>sk_cells = (\<lambda>_. None), sk_closed = []\<rparr>" "\<lambda>_. 0x10" 7] by fastforce

end
