(* ===== verification/Echo.thy ===== *)
theory Echo
  imports Net_Io
begin

text \<open>
  The echo servers: \<open>echo-async/src/timeout.rs\<close>, \<open>serve_tcp.rs\<close> and \<open>main.rs\<close>, and
  \<open>tokio-uring/examples/echo.rs\<close>. \<open>Timeout\<close> is a future combinator over any inner future and a timer;
  the inner future's \<open>poll\<close> and the delay of \<open>tokio_timer\<close> are parameters. An \<open>async\<close> function is given
  by what it does between the results of its awaited operations: reading, writing and accepting are
  functions of the connection and of the state \<open>'w\<close> of the world, which may also panic or never end;
  the theory \<open>Servers\<close> instantiates them. Printing is left out.
\<close>

section \<open>Awaited operations\<close>

text \<open>\<open>None\<close>: the task is never finished.\<close>

type_synonym 'a awaited = "'a outcome option"

definition abind :: "'a awaited \<Rightarrow> ('a \<Rightarrow> 'b awaited) \<Rightarrow> 'b awaited" where
  "abind x f = Option.bind x (\<lambda>r. case r of Done y \<Rightarrow> f y
     | Panic m \<Rightarrow> Some (Panic m) | Undefined m \<Rightarrow> Some (Undefined m) | Blocks m \<Rightarrow> Some (Blocks m))"

section \<open>Timeouts\<close>

datatype ('e, 'x) TimeoutError = TimeoutElapsed | TimeoutInner 'e | TimeoutTimer 'x

definition TimeoutError_into_io :: "('e \<Rightarrow> io_error) \<Rightarrow> ('x \<Rightarrow> string) \<Rightarrow> ('e, 'x) TimeoutError \<Rightarrow> io_error" where
  "TimeoutError_into_io into show_timer e = (case e of
       TimeoutElapsed \<Rightarrow> CustomError KindTimedOut ''async operation timed out''
     | TimeoutInner e \<Rightarrow> into e
     | TimeoutTimer e \<Rightarrow> CustomError KindOther (show_timer e))"

record ('i, 'd) Timeout =
  to_timeout :: nat
  to_delay :: "'d option"
  to_inner :: 'i

definition Timeout_new :: "'i \<Rightarrow> nat \<Rightarrow> ('i, 'd) Timeout" where
  "Timeout_new inner timeout = \<lparr>to_timeout = timeout, to_delay = None, to_inner = inner\<rparr>"

text \<open>The timer: \<open>Delay::new\<close>, its \<open>poll\<close> and the clock. Instants are numbers.\<close>

record ('d, 'x, 'w) timer =
  tm_new :: "nat \<Rightarrow> 'd"
  tm_poll :: "'d \<Rightarrow> 'w \<Rightarrow> (unit, 'x) rresult Async \<times> 'd \<times> 'w"
  tm_now :: "'w \<Rightarrow> nat"

definition Timeout_poll :: "('d, 'x, 'w) timer \<Rightarrow> ('i \<Rightarrow> 'w \<Rightarrow> (('a, 'e) rresult Async \<times> 'i \<times> 'w) outcome) \<Rightarrow>
  ('i, 'd) Timeout \<Rightarrow> 'w \<Rightarrow> (('a, ('e, 'x) TimeoutError) rresult Async \<times> ('i, 'd) Timeout \<times> 'w) outcome" where
  "Timeout_poll tm poll_inner this w =
     obind (poll_inner (to_inner this) w) (\<lambda>(polled, inner, w).
     let this = this\<lparr>to_inner := inner\<rparr> in
     case polled of
       NotReady \<Rightarrow>
         let this = (if to_delay this = None
                     then this\<lparr>to_delay := Some (tm_new tm (tm_now tm w + to_timeout this))\<rparr> else this) in
         obind (expect ''delay'' (to_delay this)) (\<lambda>delay.
         let (fired, delay, w) = tm_poll tm delay w;
             this = this\<lparr>to_delay := Some delay\<rparr> in
         Done (case fired of
             NotReady \<Rightarrow> NotReady
           | Ready (Ok _) \<Rightarrow> Ready (Err TimeoutElapsed)
           | Ready (Err e) \<Rightarrow> Ready (Err (TimeoutTimer e)), this, w))
     | Ready r \<Rightarrow> Done (Ready (map_err TimeoutInner r), this\<lparr>to_delay := None\<rparr>, w))"

text \<open>\<open>TryFutureExt::timeout\<close>, an extension of every future.\<close>

definition TryFutureExt_timeout :: "'i \<Rightarrow> nat \<Rightarrow> ('i, 'd) Timeout" where
  "TryFutureExt_timeout self timeout = Timeout_new self timeout"

section \<open>Connections\<close>

text \<open>\<open>Vec::resize_with(512, Default::default)\<close> and \<open>Vec::truncate\<close>.\<close>

definition resize_default :: "nat \<Rightarrow> u8 list \<Rightarrow> u8 list" where
  "resize_default n buf = (if length buf < n then buf @ replicate (n - length buf) 0 else take n buf)"

definition vec_truncate :: "nat \<Rightarrow> u8 list \<Rightarrow> u8 list" where
  "vec_truncate n buf = (if n < length buf then take n buf else buf)"

text \<open>
  \<open>con.read(\<dots>).timeout(\<dots>)\<close> and \<open>con.write(\<dots>)\<close>, awaited: they take connection and buffer and give
  both back with a count, or fail with an error, which \<open>?\<close> turns into an \<open>io::Error\<close>. \<open>sh\<close> renders an
  error of the timer.
\<close>

type_synonym ('e, 'c, 'w) transfer = "u8 list \<Rightarrow> 'c \<Rightarrow> 'w \<Rightarrow> ((usize \<times> u8 list \<times> 'c, 'e) rresult \<times> 'w) awaited"
type_synonym ('x, 'c, 'w) timed_read = "(((u8 list, 'c) AsyncError, 'x) TimeoutError, 'c, 'w) transfer"
type_synonym ('c, 'w) plain_write = "((u8 list, 'c) AsyncError, 'c, 'w) transfer"

type_synonym ('c, 'w) con_state = "u8 list option \<times> 'c option \<times> 'w"

definition connection_body :: "('x \<Rightarrow> string) \<Rightarrow> ('x, 'c, 'w) timed_read \<Rightarrow> ('c, 'w) plain_write \<Rightarrow> ('c, 'w) con_state \<Rightarrow>
  (('c, 'w) con_state + (unit, io_error) rresult \<times> 'w) awaited" where
  "connection_body sh rd wr st =
     (let (storage, connection, w) = st;
          buf = (case storage of Some buf \<Rightarrow> buf | None \<Rightarrow> []) in
      case connection of
        None \<Rightarrow> Some (Panic ''connection missing'')
      | Some con \<Rightarrow>
          let buf = resize_default 512 buf in
          abind (rd buf con w) (\<lambda>(r, w). case r of
             Err e \<Rightarrow> Some (Done (Inr (Err (TimeoutError_into_io AsyncError_into_io sh e), w)))
           | Ok (n, buf, con) \<Rightarrow>
               if n = 0 then Some (Done (Inr (Ok (), w)))
               else
                 let buf = vec_truncate (unat n) buf in
                 abind (wr buf con w) (\<lambda>(r, w). case r of
                    Err e \<Rightarrow> Some (Done (Inr (Err (AsyncWriteError_into_io e), w)))
                  | Ok (_, buf, con) \<Rightarrow> Some (Done (Inl (Some buf, Some con, w))))))"

partial_function (option) connection_loop :: "('x \<Rightarrow> string) \<Rightarrow> ('x, 'c, 'w) timed_read \<Rightarrow> ('c, 'w) plain_write \<Rightarrow> ('c, 'w) con_state \<Rightarrow>
  ((unit, io_error) rresult \<times> 'w) awaited" where
  "connection_loop sh rd wr st = Option.bind (connection_body sh rd wr st) (\<lambda>b. case b of
       Done (Inl st') \<Rightarrow> connection_loop sh rd wr st' | Done (Inr r) \<Rightarrow> Some (Done r)
     | Panic m \<Rightarrow> Some (Panic m) | Undefined m \<Rightarrow> Some (Undefined m) | Blocks m \<Rightarrow> Some (Blocks m))"

definition handle_connection :: "('x \<Rightarrow> string) \<Rightarrow> ('x, 'c, 'w) timed_read \<Rightarrow> ('c, 'w) plain_write \<Rightarrow> 'c \<Rightarrow> 'w \<Rightarrow>
  ((unit, io_error) rresult \<times> 'w) awaited" where
  "handle_connection sh rd wr c w = connection_loop sh rd wr (None, Some c, w)"

text \<open>
  The example for futures 0.1. There the timeout wraps an operation that fails with an \<open>io::Error\<close>
  already; a connection makes one read and one write, and its errors are only printed.
\<close>

definition read_error :: "(io_error, 'x) TimeoutError \<Rightarrow> io_error" where
  "read_error e = (case e of TimeoutInner e \<Rightarrow> e | _ \<Rightarrow> CustomError KindTimedOut ''timeout'')"

definition connection_task :: "((io_error, 'x) TimeoutError, 'c, 'w) transfer \<Rightarrow> ('c, 'w) plain_write \<Rightarrow> 'c \<Rightarrow> 'w \<Rightarrow>
  ((unit, io_error) rresult \<times> 'w) awaited" where
  "connection_task rd wr c w =
     (let buf = resize_default 512 [] in
      abind (rd buf c w) (\<lambda>(r, w). case r of
        Err e \<Rightarrow> Some (Done (Err (read_error e), w))
      | Ok (n, buf, c) \<Rightarrow>
          abind (wr (vec_truncate (unat n) buf) c w) (\<lambda>(r, w). case r of
             Err e \<Rightarrow> Some (Done (Err (AsyncWriteError_into_io e), w))
           | Ok _ \<Rightarrow> Some (Done (Ok (), w)))))"

definition connection_handler :: "((io_error, 'x) TimeoutError, 'c, 'w) transfer \<Rightarrow> ('c, 'w) plain_write \<Rightarrow> 'c \<Rightarrow> 'w \<Rightarrow>
  ((unit, unit) rresult \<times> 'w) awaited" where
  "connection_handler rd wr c w =
     abind (connection_task rd wr c w) (\<lambda>(r, w). Some (Done (map_err (\<lambda>_. ()) r, w)))"

section \<open>Serving\<close>

text \<open>
  \<open>serve\<close>: each accepted connection is handed to a task of its own, started with \<open>spawn\<close>; the first
  error ends the loop. \<open>next\<close> is \<open>i.try_next().timeout(30 s)\<close>, awaited.
\<close>

partial_function (option) serve_loop :: "('w \<Rightarrow> ((('c \<times> 'a) option, io_error) rresult \<times> 'w) awaited) \<Rightarrow> ('c \<times> 'a \<Rightarrow> 'w \<Rightarrow> 'w) \<Rightarrow>
  'w \<Rightarrow> (io_error \<times> 'w) awaited" where
  "serve_loop next_con spawn w = Option.bind (next_con w) (\<lambda>x. case x of
       Done (Err e, w) \<Rightarrow> Some (Done (e, w))
     | Done (Ok None, w) \<Rightarrow> Some (Panic ''called `Option::unwrap()` on a `None` value'')
     | Done (Ok (Some con), w) \<Rightarrow> serve_loop next_con spawn (spawn con w)
     | Panic m \<Rightarrow> Some (Panic m) | Undefined m \<Rightarrow> Some (Undefined m) | Blocks m \<Rightarrow> Some (Blocks m))"

text \<open>
  The listening task of the example: \<open>for_each\<close> over the stream of connections, each handed to a task;
  an error of the stream panics, and running out of time ends the task with \<open>Err(())\<close>.
\<close>

partial_function (option) listen_loop :: "('w \<Rightarrow> (('c option, (io_error, 'x) TimeoutError) rresult \<times> 'w) awaited) \<Rightarrow> ('c \<Rightarrow> 'w \<Rightarrow> 'w) \<Rightarrow>
  'w \<Rightarrow> ((unit, unit) rresult \<times> 'w) awaited" where
  "listen_loop next_con spawn w = Option.bind (next_con w) (\<lambda>x. case x of
       Done (Err (TimeoutInner e), w) \<Rightarrow> Some (Panic ''Box<Any>'')
     | Done (Err _, w) \<Rightarrow> Some (Done (Err (), w))
     | Done (Ok None, w) \<Rightarrow> Some (Done (Ok (), w))
     | Done (Ok (Some con), w) \<Rightarrow> listen_loop next_con spawn (spawn con w)
     | Panic m \<Rightarrow> Some (Panic m) | Undefined m \<Rightarrow> Some (Undefined m) | Blocks m \<Rightarrow> Some (Blocks m))"

text \<open>The task of a connection: an error of the handler goes to the error handler, and the task succeeds.\<close>

definition serve_task :: "('c \<Rightarrow> 'a \<Rightarrow> 'w \<Rightarrow> ((unit, io_error) rresult \<times> 'w) awaited) \<Rightarrow> (io_error \<Rightarrow> 'a \<Rightarrow> 'w \<Rightarrow> 'w) \<Rightarrow>
  'c \<times> 'a \<Rightarrow> 'w \<Rightarrow> ((unit, unit) rresult \<times> 'w) awaited" where
  "serve_task handle_con handle_err con w =
     (let (c, addr) = con in
      abind (handle_con c addr w) (\<lambda>(r, w). Some (Done (case r of Ok u \<Rightarrow> (Ok u, w) | Err e \<Rightarrow> (Ok (), handle_err e addr w)))))"

section \<open>Specifications\<close>

text \<open>
  \<open>tokio_timer\<close>: a delay is ready, without error, exactly from its deadline on; polling it does not
  move the clock.
\<close>

definition timer_laws :: "('d, 'x, 'w) timer \<Rightarrow> ('d \<Rightarrow> nat) \<Rightarrow> bool" where
  "timer_laws tm deadline \<longleftrightarrow> (\<forall>t. deadline (tm_new tm t) = t) \<and>
     (\<forall>d w. case tm_poll tm d w of (r, d', w') \<Rightarrow>
        r = (if deadline d \<le> tm_now tm w then Ready (Ok ()) else NotReady) \<and> deadline d' = deadline d \<and> tm_now tm w' = tm_now tm w)"

text \<open>Polling a timeout at the instants of a list, until it is ready.\<close>

primrec timeout_polls :: "('d, 'x, 'w) timer \<Rightarrow> ('i \<Rightarrow> 'w \<Rightarrow> (('a, 'e) rresult Async \<times> 'i \<times> 'w) outcome) \<Rightarrow> (nat \<Rightarrow> 'w \<Rightarrow> 'w) \<Rightarrow>
  nat list \<Rightarrow> ('i, 'd) Timeout \<Rightarrow> 'w \<Rightarrow> (('a, ('e, 'x) TimeoutError) rresult Async \<times> ('i, 'd) Timeout \<times> 'w) outcome" where
  "timeout_polls tm poll_inner set_now [] this w = Done (NotReady, this, w)"
| "timeout_polls tm poll_inner set_now (t # ts) this w =
     obind (Timeout_poll tm poll_inner this (set_now t w)) (\<lambda>(r, this, w).
       case r of NotReady \<Rightarrow> timeout_polls tm poll_inner set_now ts this w | Ready x \<Rightarrow> Done (Ready x, this, w))"

text \<open>
  What a connection does with its awaited operations. A read into a buffer of 512 bytes returns the
  buffer with the received bytes in front and their number, 0 at the end of the stream; a write is
  offered a buffer and gives it back. \<open>m\<close> bounds how often the peer still sends something.
\<close>

definition echo_laws :: "('e, 'c, 'w) transfer \<Rightarrow> ('f, 'c, 'w) transfer \<Rightarrow> ('w \<Rightarrow> u8 list) \<Rightarrow> ('w \<Rightarrow> u8 list) \<Rightarrow> ('w \<Rightarrow> nat) \<Rightarrow> bool" where
  "echo_laws rd wr received offered m \<longleftrightarrow>
     (\<forall>buf c w. length buf = 512 \<longrightarrow> (case rd buf c w of
          Some (Done (Ok (n, buf', c'), w')) \<Rightarrow> length buf' = 512 \<and> unat n \<le> 512 \<and> received w' = received w @ take (unat n) buf' \<and>
            offered w' = offered w \<and> (n \<noteq> 0 \<longrightarrow> m w' < m w)
        | Some (Done (Err e, w')) \<Rightarrow> received w' = received w \<and> offered w' = offered w
        | _ \<Rightarrow> False)) \<and>
     (\<forall>buf c w. case wr buf c w of
          Some (Done (Ok (n, buf', c'), w')) \<Rightarrow> buf' = buf \<and> offered w' = offered w @ buf \<and> received w' = received w \<and> m w' \<le> m w
        | Some (Done (Err e, w')) \<Rightarrow> offered w' = offered w @ buf \<and> received w' = received w
        | _ \<Rightarrow> False)"

text \<open>A channel: chunks to be read, the bytes received, offered and sent, and how much one write takes.\<close>

record channel =
  ch_in :: "u8 list list"
  ch_received :: "u8 list"
  ch_offered :: "u8 list"
  ch_sent :: "u8 list"
  ch_room :: nat

definition channel_read :: "('e, unit, channel) transfer" where
  "channel_read buf c w = (case ch_in w of
       [] \<Rightarrow> Some (Done (Ok (0, buf, c), w))
     | x # xs \<Rightarrow> let x = take 512 x in
         Some (Done (Ok (of_nat (length x), x @ drop (length x) buf, c), w\<lparr>ch_in := xs, ch_received := ch_received w @ x\<rparr>)))"

definition channel_write :: "('e, unit, channel) transfer" where
  "channel_write buf c w = Some (Done (Ok (of_nat (min (length buf) (ch_room w)), buf, c),
     w\<lparr>ch_offered := ch_offered w @ buf, ch_sent := ch_sent w @ take (ch_room w) buf\<rparr>))"

text \<open>A timer whose delays are their deadlines, on a world that is the clock.\<close>

definition demo_timer :: "(nat, unit, nat) timer" where
  "demo_timer = \<lparr>tm_new = (\<lambda>t. t), tm_poll = (\<lambda>d w. (if d \<le> w then Ready (Ok ()) else NotReady, d, w)), tm_now = (\<lambda>w. w)\<rparr>"

section \<open>Lemmas\<close>

lemma abind_simps [simp]:
  "abind None f = None" "abind (Some (Done x)) f = f x" "abind (Some (Panic m)) f = Some (Panic m)"
  "abind (Some (Undefined m)) f = Some (Undefined m)" "abind (Some (Blocks m)) f = Some (Blocks m)"
  by (simp_all add: abind_def)

lemma abind_Done_iff: "abind x f = Some (Done y) \<longleftrightarrow> (\<exists>z. x = Some (Done z) \<and> f z = Some (Done y))"
  by (cases x) (auto simp: abind_def split: outcome.splits)

lemma Timeout_poll_ready:
  assumes "poll_inner (to_inner this) w = Done (Ready r, i', w')"
  shows "Timeout_poll tm poll_inner this w = Done (Ready (map_err TimeoutInner r), this\<lparr>to_inner := i', to_delay := None\<rparr>, w')"
  using assms by (simp add: Timeout_poll_def Let_def)

text \<open>A poll with the inner future pending, at time \<open>now\<close>: the deadline is fixed by the first one.\<close>

lemma Timeout_poll_pending:
  assumes laws: "timer_laws tm deadline" and inner: "poll_inner (to_inner this) w = Done (NotReady, i', w1)" "tm_now tm w1 = tm_now tm w"
  defines "D \<equiv> (case to_delay this of None \<Rightarrow> tm_now tm w + to_timeout this | Some d \<Rightarrow> deadline d)"
  shows "\<exists>this' d' w'. Timeout_poll tm poll_inner this w =
      Done (if D \<le> tm_now tm w then Ready (Err TimeoutElapsed) else NotReady, this', w') \<and>
    to_delay this' = Some d' \<and> deadline d' = D \<and> to_timeout this' = to_timeout this"
proof -
  define d where "d = (case to_delay this of None \<Rightarrow> tm_new tm (tm_now tm w1 + to_timeout this) | Some d \<Rightarrow> d)"
  have dl: "deadline d = D" using laws inner(2) by (simp add: d_def D_def timer_laws_def split: option.split)
  obtain r d' w' where p: "tm_poll tm d w1 = (r, d', w')" by (cases "tm_poll tm d w1") auto
  have "case tm_poll tm d w1 of (r, d', w') \<Rightarrow>
      r = (if deadline d \<le> tm_now tm w1 then Ready (Ok ()) else NotReady) \<and> deadline d' = deadline d \<and> tm_now tm w' = tm_now tm w1"
    using laws [unfolded timer_laws_def, THEN conjunct2, THEN spec [of _ d], THEN spec [of _ w1]] .
  then have r: "r = (if D \<le> tm_now tm w then Ready (Ok ()) else NotReady)" "deadline d' = D"
    using p dl inner(2) by simp_all
  then show ?thesis using inner(1) p d_def by (cases "to_delay this") (auto simp: Timeout_poll_def Let_def)
qed

lemma timeout_polls_armed:
  assumes laws: "timer_laws tm deadline" and clock: "\<And>t w. tm_now tm (set_now t w) = t"
    and inner: "\<And>i w. \<exists>i' w'. poll_inner i w = Done (NotReady, i', w') \<and> tm_now tm w' = tm_now tm w"
    and "to_delay this = Some d"
  shows "\<exists>this' w'. timeout_polls tm poll_inner set_now ts this w =
    Done (if \<exists>t \<in> set ts. deadline d \<le> t then Ready (Err TimeoutElapsed) else NotReady, this', w')"
  using assms(4)
proof (induction ts arbitrary: this d w)
  case (Cons t ts)
  obtain i' w1 where i: "poll_inner (to_inner this) (set_now t w) = Done (NotReady, i', w1)" "tm_now tm w1 = tm_now tm (set_now t w)"
    using inner by blast
  from Timeout_poll_pending [where poll_inner = poll_inner and this = this and w = "set_now t w", OF laws i] Cons.prems obtain this' d' w' where
    p: "Timeout_poll tm poll_inner this (set_now t w) =
      Done (if deadline d \<le> t then Ready (Err TimeoutElapsed) else NotReady, this', w')"
    "to_delay this' = Some d'" "deadline d' = deadline d" by (auto simp: clock)
  from Cons.IH [OF p(2), of w'] p show ?case by auto
qed simp

lemma resize_default_length [simp]: "length (resize_default n buf) = n"
  by (simp add: resize_default_def)

lemma vec_truncate_take: "vec_truncate n buf = take n buf"
  by (simp add: vec_truncate_def)

text \<open>What the laws say of one read and one write.\<close>

lemma transfer_cases:
  fixes x :: "((usize \<times> u8 list \<times> 'c, 'e) rresult \<times> 'w) awaited"
  obtains "x = None" | n b c w where "x = Some (Done (Ok (n, b, c), w))" | e w where "x = Some (Done (Err e, w))"
  | m where "x = Some (Panic m)" | m where "x = Some (Undefined m)" | m where "x = Some (Blocks m)"
  by (metis option.exhaust outcome.exhaust rresult.exhaust prod_cases3 surj_pair)

lemma echo_read [consumes 2, case_names failed read]:
  fixes rd :: "('e, 'c, 'w) transfer" and c :: 'c and w :: 'w
  assumes "echo_laws rd wr received offered m" "length buf = 512"
  obtains (failed) e w' where "rd buf c w = Some (Done (Err e, w'))" "received w' = received w" "offered w' = offered w"
  | (read) n buf' c' w' where "rd buf c w = Some (Done (Ok (n, buf', c'), w'))" "unat n \<le> 512"
      "received w' = received w @ take (unat n) buf'" "offered w' = offered w" "n \<noteq> 0 \<longrightarrow> m w' < m w"
  using assms(1) [unfolded echo_laws_def, THEN conjunct1, rule_format, where buf = buf and c = c and w = w, OF assms(2)] that
  by (cases "rd buf c w" rule: transfer_cases) auto

lemma echo_write [consumes 1, case_names failed written]:
  fixes wr :: "('e, 'c, 'w) transfer" and c :: 'c and w :: 'w
  assumes "echo_laws rd wr received offered m"
  obtains (failed) e w' where "wr buf c w = Some (Done (Err e, w'))" "received w' = received w" "offered w' = offered w @ buf"
  | (written) n c' w' where "wr buf c w = Some (Done (Ok (n, buf, c'), w'))" "received w' = received w"
      "offered w' = offered w @ buf" "m w' \<le> m w"
  using assms [unfolded echo_laws_def, THEN conjunct2, rule_format, where buf = buf and c = c and w = w] that
  by (cases "wr buf c w" rule: transfer_cases) auto

text \<open>One round of a connection: it ends with everything received offered back, or goes round with less to come.\<close>

lemma connection_round:
  assumes laws: "echo_laws rd wr received offered m" and eq: "received w = offered w"
  shows "\<exists>b. connection_body sh rd wr (storage, Some con, w) = Some (Done b) \<and> (case b of
      Inl (storage', connection', w') \<Rightarrow> connection' \<noteq> None \<and> received w' = offered w' \<and> m w' < m w
    | Inr (x, w') \<Rightarrow> received w' = offered w')"
proof -
  let ?buf = "resize_default 512 (case storage of Some buf \<Rightarrow> buf | None \<Rightarrow> [])"
  have "length ?buf = 512" by simp
  with laws show ?thesis
  proof (cases rule: echo_read [where c = con and w = w])
    case (failed e w')
    then show ?thesis using eq by (simp add: connection_body_def Let_def)
  next
    case (read n buf' c' w1)
    show ?thesis
    proof (cases "n = 0")
      case True
      then show ?thesis using read eq by (simp add: connection_body_def Let_def)
    next
      case False
      from laws show ?thesis
        by (cases rule: echo_write [where buf = "vec_truncate (unat n) buf'" and c = c' and w = w1])
          (use False read eq in \<open>simp_all add: connection_body_def Let_def vec_truncate_take\<close>)
    qed
  qed
qed

lemma connection_loop_ok:
  assumes laws: "echo_laws rd wr received offered m"
  shows "received w = offered w \<Longrightarrow>
    \<exists>x w'. connection_loop sh rd wr (storage, Some con, w) = Some (Done (x, w')) \<and> received w' = offered w'"
proof (induction w arbitrary: storage con rule: measure_induct_rule [of m])
  case (less w)
  from connection_round [where sh = sh and storage = storage and con = con, OF laws less.prems] obtain b where
    b: "connection_body sh rd wr (storage, Some con, w) = Some (Done b)" "case b of
      Inl (storage', connection', w') \<Rightarrow> connection' \<noteq> None \<and> received w' = offered w' \<and> m w' < m w
    | Inr (x, w') \<Rightarrow> received w' = offered w'" by blast
  note loop = connection_loop.simps [of sh rd wr "(storage, Some con, w)"]
  show ?case
  proof (cases b)
    case (Inl st')
    with b(2) obtain storage' con' w' where st': "st' = (storage', Some con', w')" "received w' = offered w'" "m w' < m w"
      by (auto split: prod.splits)
    from less.IH [OF st'(3) st'(2), of storage' con'] Inl st'(1) b(1) show ?thesis by (simp add: loop)
  next
    case (Inr r)
    with b show ?thesis by (cases r) (simp add: loop)
  qed
qed

lemma connection_handler_ok:
  assumes laws: "echo_laws rd wr received offered m" and eq: "received w = offered w"
  shows "\<exists>x w'. connection_handler rd wr con w = Some (Done (x, w')) \<and> received w' = offered w'"
proof -
  have "length (resize_default 512 []) = 512" by simp
  with laws show ?thesis
  proof (cases rule: echo_read [where c = con and w = w])
  case (failed e w')
  then show ?thesis using eq by (simp add: connection_handler_def connection_task_def)
next
  case (read n buf' c' w1)
  from laws show ?thesis
    by (cases rule: echo_write [where buf = "vec_truncate (unat n) buf'" and c = c' and w = w1])
      (use read eq in \<open>simp_all add: connection_handler_def connection_task_def vec_truncate_take\<close>)
  qed
qed

lemma serve_loop_spawns:
  assumes "\<And>w. next_con w = Some (Done (case upcoming w of [] \<Rightarrow> (Err e, w) | x # xs \<Rightarrow> (Ok (Some x), accepted w)))"
    and "\<And>w x xs. upcoming w = x # xs \<Longrightarrow> upcoming (spawn x (accepted w)) = xs \<and> spawned (spawn x (accepted w)) = spawned w @ [x]"
  shows "\<exists>w'. serve_loop next_con spawn w = Some (Done (e, w')) \<and> spawned w' = spawned w @ upcoming w"
proof (induction "upcoming w" arbitrary: w)
  case Nil
  then show ?case using assms(1) [of w] by (simp add: serve_loop.simps)
next
  case (Cons x xs)
  then have up: "upcoming w = x # xs" by simp
  note s = assms(2) [OF up]
  from Cons.hyps(1) [of "spawn x (accepted w)"] s obtain w' where
    "serve_loop next_con spawn (spawn x (accepted w)) = Some (Done (e, w'))" "spawned w' = spawned w @ [x] @ xs" by auto
  with up assms(1) [of w] show ?case by (simp add: serve_loop.simps [of _ _ w])
qed

lemma serve_task_succeeds: "serve_task handle_con handle_err con w \<noteq> Some (Done (Err x, w'))"
  by (auto simp: serve_task_def abind_Done_iff split: prod.split_asm rresult.split_asm) (metis (full_types) old.unit.exhaust rresult.exhaust)

text \<open>The example's listening task does the same, but an error of the stream is a panic.\<close>

lemma listen_loop_spawns:
  assumes "\<And>w. next_con w = Some (Done (case upcoming w of [] \<Rightarrow> (Err e, w) | x # xs \<Rightarrow> (Ok (Some x), accepted w)))"
    and "\<And>w x xs. upcoming w = x # xs \<Longrightarrow> upcoming (spawn x (accepted w)) = xs \<and> spawned (spawn x (accepted w)) = spawned w @ [x]"
  shows "\<exists>w'. listen_loop next_con spawn w = Some (case e of TimeoutInner _ \<Rightarrow> Panic ''Box<Any>'' | _ \<Rightarrow> Done (Err (), w')) \<and>
    spawned w' = spawned w @ upcoming w"
proof (induction "upcoming w" arbitrary: w)
  case Nil
  then show ?case using assms(1) [of w] by (cases e) (auto simp: listen_loop.simps [of _ _ w])
next
  case (Cons x xs)
  then have up: "upcoming w = x # xs" by simp
  from Cons.hyps(1) [of "spawn x (accepted w)"] assms(2) [OF up] up assms(1) [of w] show ?case
    by (simp add: listen_loop.simps [of _ _ w])
qed

section \<open>Properties\<close>

text \<open>
  C35. A timeout fires at the first poll at or after the deadline, never before. The deadline is the
  instant of the first unready poll plus the duration; polled at any list of instants while the inner future
  stays pending, the result is \<open>TimeoutElapsed\<close> exactly if one of them reaches it. A result of the inner
  future takes precedence, even after the deadline, and resets the delay.
\<close>

theorem timeout_fires:
  fixes tm :: "('d, 'x, 'w) timer" and i :: 'i
  assumes "timer_laws tm deadline" "\<And>t w. tm_now tm (set_now t w) = t"
    and "\<And>i w. \<exists>i' w'. pending i w = Done (NotReady, i', w') \<and> tm_now tm w' = tm_now tm w"
  shows "(\<exists>this' w'. timeout_polls tm pending set_now (t # ts) (Timeout_new i duration) w =
      Done (if \<exists>x \<in> set (t # ts). t + duration \<le> x then Ready (Err TimeoutElapsed) else NotReady, this', w')) \<and>
    (\<forall>poll_inner this r i' w'. poll_inner (to_inner this) w = Done (Ready r, i', w') \<longrightarrow>
      Timeout_poll tm poll_inner this w = Done (Ready (map_err TimeoutInner r), this\<lparr>to_inner := i', to_delay := None\<rparr>, w'))"
proof
  obtain i' w1 where i: "pending i (set_now t w) = Done (NotReady, i', w1)" "tm_now tm w1 = tm_now tm (set_now t w)"
    using assms(3) by blast
  let ?T = "Timeout_new i duration :: ('i, 'd) Timeout"
  have new: "to_inner ?T = i" "to_delay ?T = None"
    "to_timeout ?T = duration" by (simp_all add: Timeout_new_def)
  have "pending (to_inner ?T) (set_now t w) = Done (NotReady, i', w1)" using i(1) new(1) by simp
  from Timeout_poll_pending [where poll_inner = pending and this = "?T" and w = "set_now t w", OF assms(1) this i(2)] new
  obtain this' d' w' where p: "Timeout_poll tm pending ?T (set_now t w) =
      Done (if t + duration \<le> t then Ready (Err TimeoutElapsed) else NotReady, this', w')"
    "to_delay this' = Some d'" "deadline d' = t + duration" by (auto simp: assms(2))
  from timeout_polls_armed [where poll_inner = pending and ts = ts and w = w', OF assms p(2)] p
  show "\<exists>this' w'. timeout_polls tm pending set_now (t # ts) (Timeout_new i duration) w =
      Done (if \<exists>x \<in> set (t # ts). t + duration \<le> x then Ready (Err TimeoutElapsed) else NotReady, this', w')"
    by auto
qed (simp add: Timeout_poll_ready)

lemma demo_timer_laws: "timer_laws demo_timer (\<lambda>d. d)"
  by (simp add: timer_laws_def demo_timer_def)

theorem timeout_fires_witness:
  "\<exists>this' w'. timeout_polls demo_timer (\<lambda>i w. Done (NotReady :: (nat, nat) rresult Async, i, w)) (\<lambda>t w. t) [5, 7, 9] (Timeout_new () 3) 0 =
     Done (Ready (Err TimeoutElapsed), this', w')"
proof -
  have "tm_now demo_timer ((\<lambda>t w. t) t w) = t" for t w by (simp add: demo_timer_def)
  from timeout_fires [OF demo_timer_laws this, of "\<lambda>i w. Done (NotReady :: (nat, nat) rresult Async, i, w)" 5 "[7, 9]" "()" 3 0]
  have "\<exists>this' w'. timeout_polls demo_timer (\<lambda>i w. Done (NotReady :: (nat, nat) rresult Async, i, w)) (\<lambda>t w. t) (5 # [7, 9]) (Timeout_new () 3) 0 =
     Done (if \<exists>x \<in> set (5 # [7, 9]). (5 :: nat) + 3 \<le> x then Ready (Err TimeoutElapsed) else NotReady, this', w')" by blast
  moreover have "\<exists>x \<in> set (5 # [7, 9]). 5 + 3 \<le> (x :: nat)" by simp
  ultimately show ?thesis by (simp only: if_True)
qed


lemma channel_laws: "echo_laws channel_read channel_write ch_received ch_offered (\<lambda>w. length (ch_in w))"
proof -
  have "unat (of_nat (min (length x) 512) :: usize) = min (length x) 512" for x :: "u8 list"
    by (simp add: unat_of_nat take_bit_nat_eq_self)
  moreover have "take 512 x = take (min (length x) 512) x" for x :: "u8 list" by (simp add: min_def)
  ultimately show ?thesis
    by (auto simp: echo_laws_def channel_read_def channel_write_def Let_def split: list.splits)
qed



end
