(* ===== verification/Runtime.thy ===== *)
theory Runtime
  imports Reactor_Safety
begin

text \<open>
  \<open>tokio-uring/src/lib.rs\<close>, the runtime: an executor on a timer on a reactor, entered and left around every
  run, and the thread-local \<open>CURRENT_REACTOR\<close>; and \<open>with_default\<close> of \<open>tokio-uring-reactor/src/lib.rs\<close>.

  The crates \<open>tokio_executor\<close>, \<open>tokio_timer\<close> and \<open>tokio_current_thread\<close> are the parameter \<open>tokio\<close>. The
  executor runs the tasks of the program; it gets the state of the thread, which has the
  thread-local and everything else, \<open>'w\<close>. Since guards are dropped on unwinding as well, a computation ends
  with the state it leaves behind in both cases; it may also not end at all.
\<close>

section \<open>Computations\<close>

datatype ('a, 's) ended = Returned 'a 's | Unwound string 's | Hangs

primrec ebind :: "('a, 's) ended \<Rightarrow> ('a \<Rightarrow> 's \<Rightarrow> ('b, 's) ended) \<Rightarrow> ('b, 's) ended" where
  "ebind (Returned x s) f = f x s"
| "ebind (Unwound m s) f = Unwound m s"
| "ebind Hangs f = Hangs"

text \<open>The drop of a guard at the end of its scope, and the state left behind.\<close>

primrec on_drop :: "('s \<Rightarrow> 's) \<Rightarrow> ('a, 's) ended \<Rightarrow> ('a, 's) ended" where
  "on_drop g (Returned x s) = Returned x (g s)"
| "on_drop g (Unwound m s) = Unwound m (g s)"
| "on_drop g Hangs = Hangs"

primrec left_state :: "('a, 's) ended \<Rightarrow> 's option" where
  "left_state (Returned x s) = Some s"
| "left_state (Unwound m s) = Some s"
| "left_state Hangs = None"

section \<open>State\<close>

text \<open>A reactor is a reference counted allocation, here its address; a handle is a weak reference to it.\<close>

record Reactor =
  re_inner :: u64

datatype Handle = Handle u64

definition Reactor_handle :: "Reactor \<Rightarrow> Handle" where
  "Reactor_handle r = Handle (re_inner r)"

record 'ex Runtime =
  rt_executor :: 'ex

text \<open>A thread: \<open>CURRENT_REACTOR\<close>, and the rest.\<close>

record 'w thread =
  th_current :: "Handle option"
  th_world :: 'w

type_synonym ('a, 'ex, 'w) execution = "'ex \<times> 'w thread \<Rightarrow> ('a, 'ex \<times> 'w thread) ended"
type_synonym ('a, 'ex, 'w) running = "'ex Runtime \<times> 'w thread \<Rightarrow> ('a, 'ex Runtime \<times> 'w thread) ended"

text \<open>
  The crates of tokio: \<open>enter\<close> and the drop of \<open>Enter\<close>; setting and resetting the default timer, the two
  halves of \<open>tokio_timer::with_default\<close>; and \<open>CurrentThread<Timer<Reactor>>\<close>, with the reactor and the
  timer handle it contains. \<open>None\<close> stands for the error of \<open>enter\<close> and the panic of \<open>with_default\<close>. Errors of
  the event loop are of type \<open>'e\<close>, those of \<open>block_on\<close> of type \<open>'b\<close>.
\<close>

record ('ex, 't, 'f, 'i, 'b, 'e, 'w) tokio =
  tk_enter :: "'w \<Rightarrow> 'w option"
  tk_leave :: "'w \<Rightarrow> 'w"
  tk_timer_set :: "'t \<Rightarrow> 'w \<Rightarrow> 'w option"
  tk_timer_reset :: "'w \<Rightarrow> 'w"
  tk_new_with_park :: "Reactor \<Rightarrow> 'ex"
  tk_reactor :: "'ex \<Rightarrow> Reactor"
  tk_timer_handle :: "'ex \<Rightarrow> 't"
  tk_spawn :: "'f \<Rightarrow> 'ex \<Rightarrow> 'ex"
  tk_is_idle :: "'ex \<Rightarrow> bool"
  tk_run :: "((unit, 'e) rresult, 'ex, 'w) execution"
  tk_run_timeout :: "nat \<Rightarrow> ((unit, 'e) rresult, 'ex, 'w) execution"
  tk_block_on :: "'f \<Rightarrow> (('i, 'b) rresult, 'ex, 'w) execution"
  tk_turn :: "nat option \<Rightarrow> ((bool, 'e) rresult, 'ex, 'w) execution"

section \<open>The current reactor\<close>

definition current_reactor_handle :: "'w thread \<Rightarrow> Handle option" where
  "current_reactor_handle th = th_current th"

definition with_default :: "Handle \<Rightarrow> ('s \<Rightarrow> ('a, 's) ended) \<Rightarrow> 's \<Rightarrow> ('a, 's) ended" where
  "with_default handle f s = f s"

definition reset_current :: "'ex Runtime \<times> 'w thread \<Rightarrow> 'ex Runtime \<times> 'w thread" where
  "reset_current = (\<lambda>(rt, th). (rt, th\<lparr>th_current := None\<rparr>))"

definition with_reactor_handle :: "Handle \<Rightarrow> ('a, 'ex, 'w) running \<Rightarrow> ('a, 'ex, 'w) running" where
  "with_reactor_handle handle f = (\<lambda>(rt, th).
     on_drop reset_current (with_default handle f (rt, th\<lparr>th_current := Some handle\<rparr>)))"

text \<open>\<open>tokio_timer::with_default\<close> and \<open>tokio_executor::enter().unwrap()\<close>, around a computation.\<close>

definition with_timer :: "('ex, 't, 'f, 'i, 'b, 'e, 'w) tokio \<Rightarrow> 't \<Rightarrow> ('a, 'ex, 'w) running \<Rightarrow> ('a, 'ex, 'w) running" where
  "with_timer tk t f = (\<lambda>(rt, th). case tk_timer_set tk t (th_world th) of
       None \<Rightarrow> Unwound ''default Tokio timer already set for execution context'' (rt, th)
     | Some w \<Rightarrow> on_drop (\<lambda>(rt, th). (rt, th\<lparr>th_world := tk_timer_reset tk (th_world th)\<rparr>)) (f (rt, th\<lparr>th_world := w\<rparr>)))"

definition with_enter :: "('ex, 't, 'f, 'i, 'b, 'e, 'w) tokio \<Rightarrow> ('a, 'ex, 'w) running \<Rightarrow> ('a, 'ex, 'w) running" where
  "with_enter tk f = (\<lambda>(rt, th). case tk_enter tk (th_world th) of
       None \<Rightarrow> Unwound ''called `Result::unwrap()` on an `Err` value'' (rt, th)
     | Some w \<Rightarrow> on_drop (\<lambda>(rt, th). (rt, th\<lparr>th_world := tk_leave tk (th_world th)\<rparr>)) (f (rt, th\<lparr>th_world := w\<rparr>)))"

section \<open>Entered\<close>

text \<open>\<open>Borrow\<close>: the executor is taken out of the runtime for the time of the call.\<close>

primrec put_back :: "'ex Runtime \<Rightarrow> ('a, 'ex \<times> 'w thread) ended \<Rightarrow> ('a, 'ex Runtime \<times> 'w thread) ended" where
  "put_back rt (Returned x s) = Returned x (rt\<lparr>rt_executor := fst s\<rparr>, snd s)"
| "put_back rt (Unwound m s) = Unwound m (rt\<lparr>rt_executor := fst s\<rparr>, snd s)"
| "put_back rt Hangs = Hangs"

definition Borrow_executor :: "('a, 'ex, 'w) execution \<Rightarrow> ('a, 'ex, 'w) running" where
  "Borrow_executor f = (\<lambda>(rt, th). put_back rt (f (rt_executor rt, th)))"

definition Entered_with :: "('ex, 't, 'f, 'i, 'b, 'e, 'w) tokio \<Rightarrow> ('a, 'ex, 'w) execution \<Rightarrow> ('a, 'ex, 'w) running" where
  "Entered_with tk f = (\<lambda>(rt, th).
     let reactor_handle = Reactor_handle (tk_reactor tk (rt_executor rt));
         timer_handle = tk_timer_handle tk (rt_executor rt) in
     with_reactor_handle reactor_handle (with_timer tk timer_handle (Borrow_executor f)) (rt, th))"

definition Entered_spawn :: "('ex, 't, 'f, 'i, 'b, 'e, 'w) tokio \<Rightarrow> 'f \<Rightarrow> 'ex Runtime \<Rightarrow> 'ex Runtime" where
  "Entered_spawn tk future rt = rt\<lparr>rt_executor := tk_spawn tk future (rt_executor rt)\<rparr>"

definition Entered_run :: "('ex, 't, 'f, 'i, 'b, 'e, 'w) tokio \<Rightarrow> ((unit, 'e) rresult, 'ex, 'w) running" where
  "Entered_run tk = Entered_with tk (tk_run tk)"

definition Entered_run_timeout :: "('ex, 't, 'f, 'i, 'b, 'e, 'w) tokio \<Rightarrow> nat \<Rightarrow> ((unit, 'e) rresult, 'ex, 'w) running" where
  "Entered_run_timeout tk duration = Entered_with tk (tk_run_timeout tk duration)"

definition block_on_all_body :: "('ex, 't, 'f, 'i, 'b, 'e, 'w) tokio \<Rightarrow> 'f \<Rightarrow> (('i, 'b) rresult, 'ex, 'w) execution" where
  "block_on_all_body tk future s =
     ebind (tk_block_on tk future s) (\<lambda>ret s.
     ebind (tk_run tk s) (\<lambda>r s. case r of
       Ok _ \<Rightarrow> Returned ret s
     | Err _ \<Rightarrow> Unwound ''called `Result::unwrap()` on an `Err` value'' s))"

definition Entered_block_on_all :: "('ex, 't, 'f, 'i, 'b, 'e, 'w) tokio \<Rightarrow> 'f \<Rightarrow> (('i, 'b) rresult, 'ex, 'w) running" where
  "Entered_block_on_all tk future = Entered_with tk (block_on_all_body tk future)"

definition Entered_turn :: "('ex, 't, 'f, 'i, 'b, 'e, 'w) tokio \<Rightarrow> nat option \<Rightarrow> ((bool, 'e) rresult, 'ex, 'w) running" where
  "Entered_turn tk duration = Entered_with tk (tk_turn tk duration)"

definition Entered_is_idle :: "('ex, 't, 'f, 'i, 'b, 'e, 'w) tokio \<Rightarrow> 'ex Runtime \<Rightarrow> bool" where
  "Entered_is_idle tk rt = tk_is_idle tk (rt_executor rt)"

section \<open>Runtime\<close>

text \<open>\<open>a\<close> is the address of the new allocation of the reactor, whose content is returned beside the runtime.\<close>

definition Runtime_new :: "('ex, 't, 'f, 'i, 'b, 'e, 'w) tokio \<Rightarrow> profile \<Rightarrow> ('v, 'z) posix_scheme \<Rightarrow> ('v \<Rightarrow> (i32, io_error) rresult \<times> 'v) \<Rightarrow>
  nat \<Rightarrow> u64 \<Rightarrow> u64 \<Rightarrow> u64 \<Rightarrow> 'v \<Rightarrow> (('ex Runtime \<times> 'd Reactor_Inner, io_error) rresult \<times> 'v) outcome" where
  "Runtime_new tk p os timerfd_new cap pp buf a v =
     obind (Reactor_new p os timerfd_new cap pp buf v) (\<lambda>(r, v).
     case r of
       Err e \<Rightarrow> Done (Err e, v)
     | Ok s \<Rightarrow> Done (Ok (\<lparr>rt_executor = tk_new_with_park tk \<lparr>re_inner = a\<rparr>\<rparr>, s), v))"

definition Runtime_spawn :: "('ex, 't, 'f, 'i, 'b, 'e, 'w) tokio \<Rightarrow> 'f \<Rightarrow> 'ex Runtime \<Rightarrow> 'ex Runtime" where
  "Runtime_spawn tk future rt = rt\<lparr>rt_executor := tk_spawn tk future (rt_executor rt)\<rparr>"

definition Runtime_run :: "('ex, 't, 'f, 'i, 'b, 'e, 'w) tokio \<Rightarrow> ((unit, 'e) rresult, 'ex, 'w) running" where
  "Runtime_run tk = with_enter tk (Entered_run tk)"

definition Runtime_run_timeout :: "('ex, 't, 'f, 'i, 'b, 'e, 'w) tokio \<Rightarrow> nat \<Rightarrow> ((unit, 'e) rresult, 'ex, 'w) running" where
  "Runtime_run_timeout tk duration = with_enter tk (Entered_run_timeout tk duration)"

definition Runtime_block_on_all :: "('ex, 't, 'f, 'i, 'b, 'e, 'w) tokio \<Rightarrow> 'f \<Rightarrow> (('i, 'b) rresult, 'ex, 'w) running" where
  "Runtime_block_on_all tk future = with_enter tk (Entered_block_on_all tk future)"

definition Runtime_turn :: "('ex, 't, 'f, 'i, 'b, 'e, 'w) tokio \<Rightarrow> nat option \<Rightarrow> ((bool, 'e) rresult, 'ex, 'w) running" where
  "Runtime_turn tk duration = with_enter tk (Entered_turn tk duration)"

definition Runtime_is_idle :: "('ex, 't, 'f, 'i, 'b, 'e, 'w) tokio \<Rightarrow> 'ex Runtime \<Rightarrow> bool" where
  "Runtime_is_idle tk rt = tk_is_idle tk (rt_executor rt)"

definition Runtime_reactor_handle :: "('ex, 't, 'f, 'i, 'b, 'e, 'w) tokio \<Rightarrow> 'ex Runtime \<Rightarrow> Handle" where
  "Runtime_reactor_handle tk rt = Reactor_handle (tk_reactor tk (rt_executor rt))"

definition Runtime_timer_handle :: "('ex, 't, 'f, 'i, 'b, 'e, 'w) tokio \<Rightarrow> 'ex Runtime \<Rightarrow> 't" where
  "Runtime_timer_handle tk rt = tk_timer_handle tk (rt_executor rt)"

section \<open>Specifications\<close>

text \<open>
  What the crates document of execution contexts: \<open>entered\<close> says that the thread is inside an executor,
  \<open>timer_of\<close> is its default timer. Entering fails on a thread that is entered, and \<open>with_default\<close>
  panics on a thread that has a default timer already.
\<close>

definition tokio_laws :: "('ex, 't, 'f, 'i, 'b, 'e, 'w) tokio \<Rightarrow> ('w \<Rightarrow> bool) \<Rightarrow> ('w \<Rightarrow> 't option) \<Rightarrow> bool" where
  "tokio_laws tk entered timer_of \<longleftrightarrow>
     (\<forall>w. case tk_enter tk w of None \<Rightarrow> entered w | Some w' \<Rightarrow> \<not> entered w \<and> entered w' \<and> timer_of w' = timer_of w) \<and>
     (\<forall>w. \<not> entered (tk_leave tk w) \<and> timer_of (tk_leave tk w) = timer_of w) \<and>
     (\<forall>t w. case tk_timer_set tk t w of None \<Rightarrow> timer_of w \<noteq> None
        | Some w' \<Rightarrow> timer_of w = None \<and> timer_of w' = Some t \<and> entered w' = entered w) \<and>
     (\<forall>w. timer_of (tk_timer_reset tk w) = None \<and> entered (tk_timer_reset tk w) = entered w)"

text \<open>The executor keeps the park it was built with.\<close>

definition keeps_reactor :: "('ex, 't, 'f, 'i, 'b, 'e, 'w) tokio \<Rightarrow> ('a, 'ex, 'w) execution \<Rightarrow> bool" where
  "keeps_reactor tk f \<longleftrightarrow> (\<forall>s s'. left_state (f s) = Some s' \<longrightarrow> tk_reactor tk (fst s') = tk_reactor tk (fst s))"

definition executor_laws :: "('ex, 't, 'f, 'i, 'b, 'e, 'w) tokio \<Rightarrow> bool" where
  "executor_laws tk \<longleftrightarrow> (\<forall>r. tk_reactor tk (tk_new_with_park tk r) = r) \<and>
     (\<forall>f ex. tk_reactor tk (tk_spawn tk f ex) = tk_reactor tk ex) \<and> keeps_reactor tk (tk_run tk) \<and>
     (\<forall>d. keeps_reactor tk (tk_run_timeout tk d)) \<and> (\<forall>f. keeps_reactor tk (tk_block_on tk f)) \<and> (\<forall>d. keeps_reactor tk (tk_turn tk d))"

text \<open>A thread outside every execution context, and the context in which tasks run.\<close>

definition thread_idle :: "('w \<Rightarrow> bool) \<Rightarrow> ('w \<Rightarrow> 't option) \<Rightarrow> 'w thread \<Rightarrow> bool" where
  "thread_idle entered timer_of th \<longleftrightarrow> \<not> entered (th_world th) \<and> timer_of (th_world th) = None"

definition in_context :: "('ex, 't, 'f, 'i, 'b, 'e, 'w) tokio \<Rightarrow> ('w \<Rightarrow> bool) \<Rightarrow> ('w \<Rightarrow> 't option) \<Rightarrow> 'ex Runtime \<Rightarrow> 'w thread \<Rightarrow> bool" where
  "in_context tk entered timer_of rt th \<longleftrightarrow> current_reactor_handle th = Some (Runtime_reactor_handle tk rt) \<and>
     entered (th_world th) \<and> timer_of (th_world th) = Some (Runtime_timer_handle tk rt)"

definition leave_context :: "('ex, 't, 'f, 'i, 'b, 'e, 'w) tokio \<Rightarrow> 'ex Runtime \<times> 'w thread \<Rightarrow> 'ex Runtime \<times> 'w thread" where
  "leave_context tk = (\<lambda>(rt, th). (rt, th\<lparr>th_current := None, th_world := tk_leave tk (tk_timer_reset tk (th_world th))\<rparr>))"

definition context_thread :: "('ex, 't, 'f, 'i, 'b, 'e, 'w) tokio \<Rightarrow> 'ex Runtime \<Rightarrow> 'w thread \<Rightarrow> 'w thread" where
  "context_thread tk rt th = th\<lparr>th_current := Some (Runtime_reactor_handle tk rt),
     th_world := the (tk_timer_set tk (Runtime_timer_handle tk rt) (the (tk_enter tk (th_world th))))\<rparr>"

text \<open>A thread that uses a runtime; a caller may catch the panic of a call and go on.\<close>

inductive rt_step :: "('ex, 't, 'f, 'i, 'b, 'e, 'w) tokio \<Rightarrow> 'ex Runtime \<times> 'w thread \<Rightarrow> 'ex Runtime \<times> 'w thread \<Rightarrow> bool"
  for tk where
  spawn: "rt_step tk (rt, th) (Runtime_spawn tk f rt, th)"
| run: "left_state (Runtime_run tk s) = Some s' \<Longrightarrow> rt_step tk s s'"
| run_timeout: "left_state (Runtime_run_timeout tk d s) = Some s' \<Longrightarrow> rt_step tk s s'"
| block_on_all: "left_state (Runtime_block_on_all tk f s) = Some s' \<Longrightarrow> rt_step tk s s'"
| turn: "left_state (Runtime_turn tk d' s) = Some s' \<Longrightarrow> rt_step tk s s'"

text \<open>Between calls: no context is left behind, and the runtime has the reactor at \<open>a\<close>.\<close>

definition rt_ok :: "('ex, 't, 'f, 'i, 'b, 'e, 'w) tokio \<Rightarrow> ('w \<Rightarrow> bool) \<Rightarrow> ('w \<Rightarrow> 't option) \<Rightarrow> u64 \<Rightarrow> 'ex Runtime \<times> 'w thread \<Rightarrow> bool" where
  "rt_ok tk entered timer_of a s \<longleftrightarrow> tokio_laws tk entered timer_of \<and> executor_laws tk \<and>
     (case s of (rt, th) \<Rightarrow> thread_idle entered timer_of th \<and> current_reactor_handle th = None \<and>
        Runtime_reactor_handle tk rt = Handle a)"


text \<open>An executor that spawns nothing and records the current reactor of each run, and fails once it has run twice.\<close>

record demo_context =
  dc_entered :: bool
  dc_timer :: "unit option"
  dc_seen :: "Handle option list"

definition demo_run :: "((unit, unit) rresult, Reactor \<times> nat, demo_context) execution" where
  "demo_run = (\<lambda>((r, n), th). Returned (if n < 2 then Ok () else Err ())
     ((r, Suc n), th\<lparr>th_world := (th_world th)\<lparr>dc_seen := dc_seen (th_world th) @ [th_current th]\<rparr>\<rparr>))"

definition demo_tokio :: "(Reactor \<times> nat, unit, nat, nat, unit, unit, demo_context) tokio" where
  "demo_tokio = \<lparr>tk_enter = (\<lambda>w. if dc_entered w then None else Some (w\<lparr>dc_entered := True\<rparr>)),
     tk_leave = (\<lambda>w. w\<lparr>dc_entered := False\<rparr>),
     tk_timer_set = (\<lambda>t w. if dc_timer w = None then Some (w\<lparr>dc_timer := Some t\<rparr>) else None),
     tk_timer_reset = (\<lambda>w. w\<lparr>dc_timer := None\<rparr>), tk_new_with_park = (\<lambda>r. (r, 0)), tk_reactor = fst, tk_timer_handle = (\<lambda>_. ()),
     tk_spawn = (\<lambda>f ex. ex), tk_is_idle = (\<lambda>_. True), tk_run = demo_run, tk_run_timeout = (\<lambda>_. demo_run),
     tk_block_on = (\<lambda>f s. ebind (demo_run s) (\<lambda>_ s. Returned (Ok f) s)),
     tk_turn = (\<lambda>_ s. ebind (demo_run s) (\<lambda>_ s. Returned (Ok True) s))\<rparr>"

definition demo_thread :: "demo_context thread" where
  "demo_thread = \<lparr>th_current = None, th_world = \<lparr>dc_entered = False, dc_timer = None, dc_seen = []\<rparr>\<rparr>"

definition demo_runtime :: "(Reactor \<times> nat) Runtime" where
  "demo_runtime = \<lparr>rt_executor = (\<lparr>re_inner = 64\<rparr>, 1)\<rparr>"

section \<open>Lemmas\<close>

lemma on_drop_on_drop: "on_drop g (on_drop h x) = on_drop (\<lambda>s. g (h s)) x"
  by (cases x) simp_all

lemma left_state_on_drop [simp]: "left_state (on_drop g x) = map_option g (left_state x)"
  by (cases x) simp_all

lemma left_state_put_back [simp]: "left_state (put_back rt x) = map_option (\<lambda>s. (rt\<lparr>rt_executor := fst s\<rparr>, snd s)) (left_state x)"
  by (cases x) simp_all

lemma left_state_ebind:
  "left_state (ebind x f) = Some s' \<Longrightarrow> left_state x = Some s' \<or> (\<exists>y s. x = Returned y s \<and> left_state (f y s) = Some s')"
  by (cases x) auto

lemma context_ok:
  assumes "tokio_laws tk entered timer_of" "thread_idle entered timer_of th"
  obtains w1 w2 where "tk_enter tk (th_world th) = Some w1" "tk_timer_set tk (Runtime_timer_handle tk rt) w1 = Some w2"
    "in_context tk entered timer_of rt (context_thread tk rt th)"
proof -
  let ?t = "Runtime_timer_handle tk rt"
  have "case tk_enter tk (th_world th) of None \<Rightarrow> entered (th_world th)
      | Some w' \<Rightarrow> \<not> entered (th_world th) \<and> entered w' \<and> timer_of w' = timer_of (th_world th)"
    using assms(1) unfolding tokio_laws_def by blast
  with assms(2) obtain w1 where w1: "tk_enter tk (th_world th) = Some w1" "entered w1" "timer_of w1 = None"
    by (auto simp: thread_idle_def split: option.splits)
  have "case tk_timer_set tk ?t w1 of None \<Rightarrow> timer_of w1 \<noteq> None
      | Some w' \<Rightarrow> timer_of w1 = None \<and> timer_of w' = Some ?t \<and> entered w' = entered w1"
    using assms(1) unfolding tokio_laws_def by blast
  with w1 obtain w2 where w2: "tk_timer_set tk ?t w1 = Some w2" "entered w2" "timer_of w2 = Some ?t"
    by (auto split: option.splits)
  with w1 have "in_context tk entered timer_of rt (context_thread tk rt th)"
    by (simp add: in_context_def context_thread_def current_reactor_handle_def)
  with w1 w2 show ?thesis by (blast intro: that)
qed

lemma entry_runs:
  assumes "tokio_laws tk entered timer_of" "thread_idle entered timer_of th"
  shows "with_enter tk (Entered_with tk f) (rt, th) = on_drop (leave_context tk) (Borrow_executor f (rt, context_thread tk rt th))"
proof -
  obtain w1 w2 where w: "tk_enter tk (th_world th) = Some w1" "tk_timer_set tk (Runtime_timer_handle tk rt) w1 = Some w2"
    using context_ok [OF assms] by metis
  have lc: "leave_context tk = (\<lambda>s. (\<lambda>(rt, th). (rt, th\<lparr>th_world := tk_leave tk (th_world th)\<rparr>))
      (reset_current ((\<lambda>(rt, th). (rt, th\<lparr>th_world := tk_timer_reset tk (th_world th)\<rparr>)) s)))"
    by (rule ext) (simp add: leave_context_def reset_current_def split: prod.split)
  have "context_thread tk rt th = th\<lparr>th_world := w1, th_current := Some (Runtime_reactor_handle tk rt), th_world := w2\<rparr>"
    using w by (simp add: context_thread_def)
  with w show ?thesis unfolding lc
    by (simp add: with_enter_def Entered_with_def with_reactor_handle_def with_default_def with_timer_def
        on_drop_on_drop Runtime_reactor_handle_def Runtime_timer_handle_def Let_def)
qed

lemma entry_refused:
  assumes "tokio_laws tk entered timer_of" "entered (th_world th)"
  shows "with_enter tk f (rt, th) = Unwound ''called `Result::unwrap()` on an `Err` value'' (rt, th)"
proof -
  have "case tk_enter tk (th_world th) of None \<Rightarrow> entered (th_world th)
      | Some w' \<Rightarrow> \<not> entered (th_world th) \<and> entered w' \<and> timer_of w' = timer_of (th_world th)"
    using assms(1) unfolding tokio_laws_def by blast
  with assms(2) show ?thesis by (simp add: with_enter_def split: option.splits)
qed

lemma leave_context_idle:
  assumes "tokio_laws tk entered timer_of" "leave_context tk s = (rt, th)"
  shows "thread_idle entered timer_of th \<and> current_reactor_handle th = None \<and> rt = fst s"
  using assms by (cases s) (auto simp: leave_context_def tokio_laws_def thread_idle_def current_reactor_handle_def)

lemmas entry_defs = Runtime_run_def Runtime_run_timeout_def Runtime_block_on_all_def Runtime_turn_def
  Entered_run_def Entered_run_timeout_def Entered_block_on_all_def Entered_turn_def

lemma keeps_reactorD: "keeps_reactor tk f \<Longrightarrow> left_state (f s) = Some s' \<Longrightarrow> tk_reactor tk (fst s') = tk_reactor tk (fst s)"
  unfolding keeps_reactor_def by blast

lemma keeps_reactor_ebind:
  assumes "keeps_reactor tk f" "\<And>x. keeps_reactor tk (g x)"
  shows "keeps_reactor tk (\<lambda>s. ebind (f s) g)"
  unfolding keeps_reactor_def
proof (intro allI impI)
  fix s s' assume "left_state (ebind (f s) g) = Some s'"
  then show "tk_reactor tk (fst s') = tk_reactor tk (fst s)"
    using keeps_reactorD [OF assms(1), of s] keeps_reactorD [OF assms(2)] by (cases "f s") auto
qed

lemma keeps_reactor_unwrap: "keeps_reactor tk (\<lambda>s. case r of Ok _ \<Rightarrow> Returned ret s | Err _ \<Rightarrow> Unwound m s)"
  by (cases r) (simp_all add: keeps_reactor_def)

lemma keeps_reactor_block_on_all:
  assumes "executor_laws tk"
  shows "keeps_reactor tk (block_on_all_body tk f)"
proof -
  have "block_on_all_body tk f = (\<lambda>s. ebind (tk_block_on tk f s) (\<lambda>ret s. ebind (tk_run tk s) (\<lambda>r s. case r of
      Ok _ \<Rightarrow> Returned ret s | Err _ \<Rightarrow> Unwound ''called `Result::unwrap()` on an `Err` value'' s)))"
    by (rule ext) (simp add: block_on_all_body_def)
  with assms show ?thesis by (auto simp: executor_laws_def intro!: keeps_reactor_ebind keeps_reactor_unwrap)
qed

lemma entry_keeps:
  assumes ok: "rt_ok tk entered timer_of a s" and "keeps_reactor tk f"
    and "left_state (with_enter tk (Entered_with tk f) s) = Some s'"
  shows "rt_ok tk entered timer_of a s'"
proof -
  obtain rt th rt' th' where s: "s = (rt, th)" "s' = (rt', th')" by fastforce
  from ok s have laws: "tokio_laws tk entered timer_of" "thread_idle entered timer_of th" by (simp_all add: rt_ok_def)
  from assms(3) entry_runs [OF laws, of f rt] s obtain ex1 th1 where
    r: "left_state (f (rt_executor rt, context_thread tk rt th)) = Some (ex1, th1)" "(rt', th') = leave_context tk (rt\<lparr>rt_executor := ex1\<rparr>, th1)"
    by (auto simp: Borrow_executor_def)
  from leave_context_idle [OF laws(1) r(2) [symmetric]] have "thread_idle entered timer_of th'" "current_reactor_handle th' = None"
    "rt' = rt\<lparr>rt_executor := ex1\<rparr>" by simp_all
  moreover have "tk_reactor tk ex1 = tk_reactor tk (rt_executor rt)" using assms(2) r(1) by (fastforce simp: keeps_reactor_def)
  ultimately show ?thesis using ok s by (simp add: rt_ok_def Runtime_reactor_handle_def)
qed

lemma rt_step_ok:
  assumes ok: "rt_ok tk entered timer_of a s" and "rt_step tk s s'"
  shows "rt_ok tk entered timer_of a s'"
proof -
  from ok have ex: "executor_laws tk" by (simp add: rt_ok_def)
  show ?thesis using assms(2)
  proof cases
    case (spawn rt th f)
    with ok ex show ?thesis by (simp add: rt_ok_def executor_laws_def Runtime_spawn_def Runtime_reactor_handle_def)
  qed (use ex in \<open>auto simp: entry_defs executor_laws_def intro: entry_keeps [OF ok] keeps_reactor_block_on_all [OF ex]\<close>)
qed

interpretation rt: step_invariant "rt_ok tk entered timer_of a" "rt_step tk" "rt_ok tk entered timer_of a" for tk entered timer_of a
  by unfold_locales (assumption, fact rt_step_ok)

section \<open>Properties\<close>

text \<open>
  C22. Tasks run in the context of their runtime, and no entry point leaves it behind. On a thread outside every
  execution context, \<open>run\<close>, \<open>run_timeout\<close>, \<open>turn\<close> and \<open>block_on_all\<close> hand the executor a thread that is entered,
  whose \<open>current_reactor_handle\<close> is the handle of this runtime's reactor and whose default timer is this
  runtime's; when the executor is done, with a value, an error or a panic, the current reactor is \<open>None\<close> again
  and the thread is outside every context. On a thread that is entered already they panic and change nothing.
\<close>

theorem runtime_context:
  assumes "tokio_laws tk entered timer_of"
  shows "(thread_idle entered timer_of th \<longrightarrow> (\<exists>th0. in_context tk entered timer_of rt th0 \<and>
      Runtime_run tk (rt, th) = on_drop (leave_context tk) (Borrow_executor (tk_run tk) (rt, th0)) \<and>
      Runtime_run_timeout tk d (rt, th) = on_drop (leave_context tk) (Borrow_executor (tk_run_timeout tk d) (rt, th0)) \<and>
      Runtime_turn tk d' (rt, th) = on_drop (leave_context tk) (Borrow_executor (tk_turn tk d') (rt, th0)) \<and>
      Runtime_block_on_all tk f (rt, th) = on_drop (leave_context tk) (Borrow_executor (block_on_all_body tk f) (rt, th0)))) \<and>
    (case leave_context tk s of (rt', th') \<Rightarrow> thread_idle entered timer_of th' \<and> current_reactor_handle th' = None \<and> rt' = fst s) \<and>
    (entered (th_world th) \<longrightarrow>
      left_state (Runtime_run tk (rt, th)) = Some (rt, th) \<and> (\<forall>r s'. Runtime_run tk (rt, th) \<noteq> Returned r s') \<and>
      left_state (Runtime_run_timeout tk d (rt, th)) = Some (rt, th) \<and> (\<forall>r s'. Runtime_run_timeout tk d (rt, th) \<noteq> Returned r s') \<and>
      left_state (Runtime_turn tk d' (rt, th)) = Some (rt, th) \<and> (\<forall>r s'. Runtime_turn tk d' (rt, th) \<noteq> Returned r s') \<and>
      left_state (Runtime_block_on_all tk f (rt, th)) = Some (rt, th) \<and> (\<forall>r s'. Runtime_block_on_all tk f (rt, th) \<noteq> Returned r s'))"
proof (intro conjI)
  show "thread_idle entered timer_of th \<longrightarrow> (\<exists>th0. in_context tk entered timer_of rt th0 \<and>
      Runtime_run tk (rt, th) = on_drop (leave_context tk) (Borrow_executor (tk_run tk) (rt, th0)) \<and>
      Runtime_run_timeout tk d (rt, th) = on_drop (leave_context tk) (Borrow_executor (tk_run_timeout tk d) (rt, th0)) \<and>
      Runtime_turn tk d' (rt, th) = on_drop (leave_context tk) (Borrow_executor (tk_turn tk d') (rt, th0)) \<and>
      Runtime_block_on_all tk f (rt, th) = on_drop (leave_context tk) (Borrow_executor (block_on_all_body tk f) (rt, th0)))"
  proof (intro impI exI conjI)
    assume idle: "thread_idle entered timer_of th"
    show "in_context tk entered timer_of rt (context_thread tk rt th)" using context_ok [OF assms idle] by metis
  qed (simp_all only: entry_defs entry_runs [OF assms])
  show "case leave_context tk s of (rt', th') \<Rightarrow> thread_idle entered timer_of th' \<and> current_reactor_handle th' = None \<and> rt' = fst s"
    using leave_context_idle [OF assms, of s] by (simp split: prod.split)
qed (simp add: entry_defs entry_refused [OF assms])

lemma demo_tokio_laws: "tokio_laws demo_tokio dc_entered dc_timer"
  by (simp add: tokio_laws_def demo_tokio_def)

lemma demo_executor_laws: "executor_laws demo_tokio"
  by (auto simp: executor_laws_def keeps_reactor_def demo_tokio_def demo_run_def)

lemma demo_thread_idle: "thread_idle dc_entered dc_timer demo_thread" "current_reactor_handle demo_thread = None"
  by (simp_all add: thread_idle_def demo_thread_def current_reactor_handle_def)

theorem runtime_context_witness:
  "\<exists>th0. in_context demo_tokio dc_entered dc_timer demo_runtime th0 \<and>
    Runtime_run demo_tokio (demo_runtime, demo_thread) =
      on_drop (leave_context demo_tokio) (Borrow_executor (tk_run demo_tokio) (demo_runtime, th0))"
  using runtime_context [OF demo_tokio_laws, of demo_thread demo_runtime, THEN conjunct1, rule_format, OF demo_thread_idle(1)]
  by blast

text \<open>
  C23. Every use of a runtime leaves the thread as it was. For any sequence of calls, with panics caught or not,
  between two calls there is no current reactor, the thread is outside every execution context,
  and \<open>reactor_handle\<close> is the handle of the reactor the runtime was built on, so handles taken earlier
  and handles seen by tasks are the same.
\<close>

theorem runtime_reusable:
  fixes inner :: "'d Reactor_Inner"
  assumes "tokio_laws tk entered timer_of" "executor_laws tk" "thread_idle entered timer_of th" "current_reactor_handle th = None"
    and "Runtime_new tk p os timerfd_new cap pp buf a v = Done (Ok (rt, inner), v')" "(rt_step tk)\<^sup>*\<^sup>* (rt, th) (rt', th')"
  shows "thread_idle entered timer_of th' \<and> current_reactor_handle th' = None \<and> Runtime_reactor_handle tk rt' = Handle a"
proof -
  from assms(5) obtain r :: "('d Reactor_Inner, io_error) rresult" and v1 where "Reactor_new p os timerfd_new cap pp buf v = Done (r, v1)" by (auto simp: Runtime_new_def)
  with assms(5) have "rt = \<lparr>rt_executor = tk_new_with_park tk \<lparr>re_inner = a\<rparr>\<rparr>" by (cases r) (auto simp: Runtime_new_def)
  with assms(1-4) have "rt_ok tk entered timer_of a (rt, th)"
    by (simp add: rt_ok_def Runtime_reactor_handle_def Reactor_handle_def executor_laws_def)
  from rt.inv_reachable [OF this assms(6)] show ?thesis by (simp add: rt_ok_def)
qed

theorem runtime_reusable_witness:
  "\<exists>rt (inner :: nat Reactor_Inner) v' s'.
     Runtime_new demo_tokio Debug demo_posix2 (\<lambda>w. (Ok 6, w)) 65536 0x500 0x600 64 demo_world0 = Done (Ok (rt, inner), v') \<and>
     left_state (Runtime_run demo_tokio (rt, demo_thread)) = Some s' \<and>
     current_reactor_handle (snd s') = None \<and> Runtime_reactor_handle demo_tokio (fst s') = Handle 64"
proof -
  obtain inner :: "nat Reactor_Inner" and v' where
    "Reactor_new Debug demo_posix2 (\<lambda>w. (Ok 6, w)) 65536 0x500 0x600 demo_world0 = Done (Ok inner, v')" by (rule demo_reactor_built)
  then have new: "Runtime_new demo_tokio Debug demo_posix2 (\<lambda>w. (Ok 6, w)) 65536 0x500 0x600 64 demo_world0 =
      Done (Ok (\<lparr>rt_executor = (\<lparr>re_inner = 64\<rparr>, 0)\<rparr>, inner), v')" by (simp add: Runtime_new_def demo_tokio_def)
  have "tk_run demo_tokio = demo_run" by (simp add: demo_tokio_def)
  then have "left_state (Runtime_run demo_tokio (\<lparr>rt_executor = (\<lparr>re_inner = 64\<rparr>, 0)\<rparr>, demo_thread)) \<noteq> None"
    by (simp add: entry_defs entry_runs [OF demo_tokio_laws demo_thread_idle(1)] Borrow_executor_def demo_run_def)
  then obtain rt' th' where run: "left_state (Runtime_run demo_tokio (\<lparr>rt_executor = (\<lparr>re_inner = 64\<rparr>, 0)\<rparr>, demo_thread)) = Some (rt', th')"
    by fast
  then have "(rt_step demo_tokio)\<^sup>*\<^sup>* (\<lparr>rt_executor = (\<lparr>re_inner = 64\<rparr>, 0)\<rparr>, demo_thread) (rt', th')" by (blast intro: rt_step.run)
  from runtime_reusable [OF demo_tokio_laws demo_executor_laws demo_thread_idle new this] new run show ?thesis by fastforce
qed

text \<open>
  C38. An error of the event loop after the future is finished is a panic. \<open>block_on_all\<close> waits for the future and then
  runs the remaining tasks; if that run fails, the result of the future is lost and the call
  panics, although its \<open>Result\<close> is documented to report errors of the event loop; otherwise
  the result is the future's.
\<close>

theorem block_on_all_outcomes:
  assumes "tokio_laws tk entered timer_of" "thread_idle entered timer_of th"
  shows "\<exists>th0. in_context tk entered timer_of rt th0 \<and>
    (\<forall>ret s1 r ex2 th2. tk_block_on tk f (rt_executor rt, th0) = Returned ret s1 \<longrightarrow> tk_run tk s1 = Returned r (ex2, th2) \<longrightarrow>
      Runtime_block_on_all tk f (rt, th) = (case r of
          Ok _ \<Rightarrow> Returned ret (leave_context tk (rt\<lparr>rt_executor := ex2\<rparr>, th2))
        | Err _ \<Rightarrow> Unwound ''called `Result::unwrap()` on an `Err` value'' (leave_context tk (rt\<lparr>rt_executor := ex2\<rparr>, th2))))"
proof (intro exI conjI)
  show "in_context tk entered timer_of rt (context_thread tk rt th)" using context_ok [OF assms] by metis
qed (simp add: entry_defs entry_runs [OF assms] Borrow_executor_def block_on_all_body_def split: rresult.split)

theorem block_on_all_outcomes_witness:
  "\<exists>m s'. Runtime_block_on_all demo_tokio 7 (demo_runtime, demo_thread) = Unwound m s'"
proof -
  from block_on_all_outcomes [OF demo_tokio_laws demo_thread_idle(1), of demo_runtime 7] obtain th0 where
    b: "tk_block_on demo_tokio 7 (rt_executor demo_runtime, th0) = Returned ret s1 \<Longrightarrow> tk_run demo_tokio s1 = Returned (Err ()) (ex2, th2) \<Longrightarrow>
      Runtime_block_on_all demo_tokio 7 (demo_runtime, demo_thread) =
        Unwound ''called `Result::unwrap()` on an `Err` value'' (leave_context demo_tokio (demo_runtime\<lparr>rt_executor := ex2\<rparr>, th2))"
    for ret s1 ex2 th2 by fastforce
  let ?see = "\<lambda>th. th\<lparr>th_world := (th_world th)\<lparr>dc_seen := dc_seen (th_world th) @ [th_current th]\<rparr>\<rparr>"
  have "tk_block_on demo_tokio 7 (rt_executor demo_runtime, th0) = Returned (Ok 7) ((\<lparr>re_inner = 64\<rparr>, 2), ?see th0)"
    by (simp add: demo_tokio_def demo_runtime_def demo_run_def)
  moreover have "tk_run demo_tokio ((\<lparr>re_inner = 64\<rparr>, 2), ?see th0) = Returned (Err ()) ((\<lparr>re_inner = 64\<rparr>, 3), ?see (?see th0))"
    by (simp add: demo_tokio_def demo_run_def)
  ultimately show ?thesis using b by blast
qed

end
