(* ===== verification/Awaiting.thy ===== *)
theory Awaiting
  imports Echo
begin

text \<open>
  The awaited operations of the echo servers, down to the reactor: a future is polled, and each time it is not ready
  the task is suspended until it is polled again. Reads, writes and the next connection are the futures of the
  reactor, with the timeouts of \<open>echo-async/src/timeout.rs\<close> around them, as \<open>main.rs\<close> and \<open>serve_tcp.rs\<close> of \<open>echo-async\<close>
  use them. What happens while a task is suspended (other tasks, the reactor being parked, time passing) is the
  parameter \<open>te_resume\<close>.
\<close>

section \<open>Awaiting a future\<close>

partial_function (option) await_loop :: "('i \<Rightarrow> 'w \<Rightarrow> ('r Async \<times> 'i \<times> 'w) outcome) \<Rightarrow> ('w \<Rightarrow> 'w) \<Rightarrow> 'i \<Rightarrow> 'w \<Rightarrow> ('r \<times> 'i \<times> 'w) awaited" where
  "await_loop pollf resume fut w = (case pollf fut w of
       Done (NotReady, fut, w) \<Rightarrow> await_loop pollf resume fut (resume w)
     | Done (Ready r, fut, w) \<Rightarrow> Some (Done (r, fut, w))
     | Panic m \<Rightarrow> Some (Panic m) | Undefined m \<Rightarrow> Some (Undefined m) | Blocks m \<Rightarrow> Some (Blocks m))"

text \<open>\<open>Duration::from_secs\<close>, in nanoseconds.\<close>

definition Duration_from_secs :: "nat \<Rightarrow> nat" where
  "Duration_from_secs n = n * 1000000000"

text \<open>The environment of a task. Its state is the reactor and the rest of the world.\<close>

record ('t, 'f, 'd, 'x, 'w) task_env =
  te_profile :: profile
  te_ops :: "('t, 'f) op_env"
  te_lc :: libc_poll
  te_timer :: "('d, 'x, 'w) timer"
  te_waker :: task
  te_resume :: "('t, 'f) any_rx \<times> 'w \<Rightarrow> ('t, 'f) any_rx \<times> 'w"

definition task_timer :: "('d, 'x, 'w) timer \<Rightarrow> ('d, 'x, 's \<times> 'w) timer" where
  "task_timer tm = \<lparr>tm_new = tm_new tm, tm_poll = (\<lambda>d (s, w). let (r, d, w) = tm_poll tm d w in (r, d, s, w)), tm_now = (\<lambda>(s, w). tm_now tm w)\<rparr>"

section \<open>Reading and writing\<close>

definition on_heap :: "('t, 'f) any_rx \<times> 'w \<Rightarrow> (('t, 'f) any_data rc_heap \<Rightarrow> ('r \<times> 'i \<times> ('t, 'f) any_data rc_heap) outcome) \<Rightarrow>
  ('r \<times> 'i \<times> ('t, 'f) any_rx \<times> 'w) outcome" where
  "on_heap sw f = (case sw of (s, w) \<Rightarrow> obind (f (rx_heap s)) (\<lambda>(r, i, h). Done (r, i, s\<lparr>rx_heap := h\<rparr>, w)))"

definition read_poll :: "('t, 'f, 'd, 'x, 'w) task_env \<Rightarrow> ('t, 'f) op_state \<Rightarrow> ('t, 'f) any_rx \<times> 'w \<Rightarrow>
  ((usize \<times> 't \<times> 'f, ('t, 'f) AsyncError) rresult Async \<times> ('t, 'f) op_state \<times> ('t, 'f) any_rx \<times> 'w) outcome" where
  "read_poll V st sw = on_heap sw (AsyncRead_poll_async (te_profile V) (te_waker V) st)"

definition write_poll :: "('t, 'f, 'd, 'x, 'w) task_env \<Rightarrow> ('t, 'f) op_state \<Rightarrow> ('t, 'f) any_rx \<times> 'w \<Rightarrow>
  ((usize \<times> 't \<times> 'f, ('t, 'f) AsyncError) rresult Async \<times> ('t, 'f) op_state \<times> ('t, 'f) any_rx \<times> 'w) outcome" where
  "write_poll V st sw = on_heap sw (AsyncWrite_poll_async (te_profile V) (te_waker V) st)"

text \<open>The future is dropped at the end of the statement, and with it a registration it still holds.\<close>

definition finish_op :: "('t, 'f) op_state \<Rightarrow> 'r \<Rightarrow> ('t, 'f) any_rx \<times> 'w \<Rightarrow> ('r \<times> ('t, 'f) any_rx \<times> 'w) outcome" where
  "finish_op st r sw = (case sw of (s, w) \<Rightarrow> obind (op_drop st (rx_heap s)) (\<lambda>h. Done (r, s\<lparr>rx_heap := h\<rparr>, w)))"

text \<open>\<open>await!(con.read(&handle, buf).timeout(Duration::from_secs(3)))\<close> and \<open>await!(con.write(&handle, buf))\<close>.\<close>

definition con_read :: "('t, 'f, 'd, 'x, 'w) task_env \<Rightarrow> 'f \<Rightarrow> 't \<Rightarrow> ('t, 'f) any_rx \<times> 'w \<Rightarrow>
  ((usize \<times> 't \<times> 'f, (('t, 'f) AsyncError, 'x) TimeoutError) rresult \<times> ('t, 'f) any_rx \<times> 'w) awaited" where
  "con_read V con buf sw = (case sw of (s, w) \<Rightarrow>
     abind (Some (SocketRead_read (te_profile V) (te_ops V) True con buf s)) (\<lambda>(fut, s).
     abind (await_loop (Timeout_poll (task_timer (te_timer V)) (read_poll V)) (te_resume V)
         (TryFutureExt_timeout fut (Duration_from_secs 3)) (s, w)) (\<lambda>(r, fut, sw).
     Some (finish_op (to_inner fut) r sw))))"

definition con_write :: "('t, 'f, 'd, 'x, 'w) task_env \<Rightarrow> 'f \<Rightarrow> 't \<Rightarrow> ('t, 'f) any_rx \<times> 'w \<Rightarrow>
  ((usize \<times> 't \<times> 'f, ('t, 'f) AsyncError) rresult \<times> ('t, 'f) any_rx \<times> 'w) awaited" where
  "con_write V con buf sw = (case sw of (s, w) \<Rightarrow>
     abind (Some (SocketWrite_write (te_profile V) (te_ops V) True con buf s)) (\<lambda>(fut, s).
     abind (await_loop (write_poll V) (te_resume V) fut (s, w)) (\<lambda>(r, fut, sw).
     Some (finish_op fut r sw))))"

section \<open>The next connection\<close>

text \<open>\<open>i.try_next()\<close> of \<open>futures_util\<close>: \<open>tn\<close> turns an item of the stream into the result of the future.\<close>

type_synonym ('c, 'e) try_next_fn = "('c, 'e) rresult option \<Rightarrow> ('c option, 'e) rresult"

definition try_next_poll :: "('t, 'f, 'd, 'x, 'w) task_env \<Rightarrow> ('l, 's, 'a, 'w) accept_fn \<Rightarrow> ('s TcpStream \<times> 'a, io_error) try_next_fn \<Rightarrow>
  'l Incoming \<Rightarrow> ('t, 'f) any_rx \<times> 'w \<Rightarrow>
  ((('s TcpStream \<times> 'a) option, io_error) rresult Async \<times> 'l Incoming \<times> ('t, 'f) any_rx \<times> 'w) outcome" where
  "try_next_poll V accept tn self sw = (case sw of (s, w) \<Rightarrow>
     case Incoming_poll_next (te_profile V) (te_lc V) True accept (te_waker V) self s w of
       None \<Rightarrow> Blocks ''accept''
     | Some r \<Rightarrow> map_outcome (\<lambda>(polled, self, s, w).
         (case polled of NotReady \<Rightarrow> NotReady | Ready x \<Rightarrow> Ready (tn x), self, s, w)) r)"

text \<open>\<open>await!(i.try_next().timeout(Duration::from_secs(30)))\<close>.\<close>

definition serve_next :: "('t, 'f, 'd, 'x, 'w) task_env \<Rightarrow> ('l, 's, 'a, 'w) accept_fn \<Rightarrow> ('s TcpStream \<times> 'a, io_error) try_next_fn \<Rightarrow>
  'l Incoming \<times> ('t, 'f) any_rx \<times> 'w \<Rightarrow>
  ((('s TcpStream \<times> 'a) option, (io_error, 'x) TimeoutError) rresult \<times> 'l Incoming \<times> ('t, 'f) any_rx \<times> 'w) awaited" where
  "serve_next V accept tn st = (case st of (i, sw) \<Rightarrow>
     abind (await_loop (Timeout_poll (task_timer (te_timer V)) (try_next_poll V accept tn)) (te_resume V)
         (TryFutureExt_timeout i (Duration_from_secs 30)) sw) (\<lambda>(r, fut, sw).
     Some (Done (r, to_inner fut, sw))))"

section \<open>Specifications\<close>

text \<open>A future of the program, among others, and the program without it.\<close>

definition live :: "('t, 'f) op_env \<Rightarrow> ('t, 'f) fut \<Rightarrow> ('t, 'f) any_rx \<Rightarrow> bool" where
  "live E f s \<longleftrightarrow> (\<exists>fs k. some_beside E fs k f s)"

definition settled :: "('t, 'f) op_env \<Rightarrow> ('t, 'f) any_rx \<Rightarrow> bool" where
  "settled E s \<longleftrightarrow> (\<exists>T fs k. rx_inv k (mset (futs_addrs fs)) s \<and> client_ok E T fs (rx_inflight k s) (rx_heap s) \<and> ring_ok T s)"

text \<open>
  What a task relies on: delays are ready from their deadline on; while it is suspended the rest of the program
  keeps the invariant of \<open>Async_System\<close>, and time passes.
\<close>

definition task_laws :: "('t, 'f, 'd, 'x, 'w) task_env \<Rightarrow> ('d \<Rightarrow> nat) \<Rightarrow> bool" where
  "task_laws V deadline \<longleftrightarrow> timer_laws (te_timer V) deadline \<and>
     (\<forall>f s w. live (te_ops V) f s \<longrightarrow> (case te_resume V (s, w) of (s', w') \<Rightarrow>
        live (te_ops V) f s' \<and> tm_now (te_timer V) w < tm_now (te_timer V) w'))"

text \<open>\<open>accept\<close> is not interrupted for ever and does not turn back the clock; \<open>try_next\<close> as documented.\<close>

definition accept_laws :: "('t, 'f, 'd, 'x, 'w) task_env \<Rightarrow> ('l, 's, 'a, 'w) accept_fn \<Rightarrow> ('w \<Rightarrow> nat) \<Rightarrow> bool" where
  "accept_laws V accept m \<longleftrightarrow> interrupts_end accept m \<and>
     (\<forall>l w. tm_now (te_timer V) w \<le> tm_now (te_timer V) (snd (accept l w)))"

definition try_next_laws :: "('c, 'e) try_next_fn \<Rightarrow> bool" where
  "try_next_laws tn \<longleftrightarrow> tn None = Ok None \<and> (\<forall>x. tn (Some (Ok x)) = Ok (Some x)) \<and> (\<forall>e. tn (Some (Err e)) = Err e)"

text \<open>The connection is the one \<open>accept\<close> returned last, at the instant \<open>t\<close> or later.\<close>

definition accepted_at :: "('w \<Rightarrow> nat) \<Rightarrow> ('l, 's, 'a, 'w) accept_fn \<Rightarrow> 'l TcpListener \<Rightarrow> nat \<Rightarrow> 's TcpStream \<times> 'a \<Rightarrow> 'w \<Rightarrow> bool" where
  "accepted_at now accept l t c w \<longleftrightarrow> (\<exists>w0. t \<le> now w0 \<and> accept (listener l) w0 = (Ok (stream (fst c), snd c), w))"

definition accepted_by :: "('w \<Rightarrow> nat) \<Rightarrow> ('l, 's, 'a, 'w) accept_fn \<Rightarrow> 'l TcpListener \<Rightarrow> nat \<Rightarrow> (('s TcpStream \<times> 'a) option, 'e) rresult \<Rightarrow> 'w \<Rightarrow> bool" where
  "accepted_by now accept l t r w = (case r of Ok None \<Rightarrow> False | Ok (Some c) \<Rightarrow> accepted_at now accept l t c w | Err e \<Rightarrow> True)"

text \<open>A pass through the loop of \<open>Incoming\<close> does not turn back the clock.\<close>

definition clock_kept :: "('w \<Rightarrow> nat) \<Rightarrow> ('l, 's, 'a, 'w) accept_fn \<Rightarrow> 'w \<Rightarrow> ('l, 'r, 'w) in_state + ('l, 's, 'a, 'r, 'w) in_result \<Rightarrow> bool" where
  "clock_kept now accept w b = (case b of Inl st \<Rightarrow> now w \<le> now (snd (snd st))
     | Inr r \<Rightarrow> (case r of
           Done (res, self, s, w') \<Rightarrow> now w \<le> now w' \<and>
             (case res of Ok (Ready c) \<Rightarrow> accepted_at now accept (in_inner self) (now w) c w' | _ \<Rightarrow> True)
         | _ \<Rightarrow> True))"

text \<open>How a timed wait ends: with a result of the future, or with the time used up; never with an error of the timer.\<close>

definition timed_result :: "(('a, 'e) rresult \<Rightarrow> bool) \<Rightarrow> nat \<Rightarrow> nat \<Rightarrow> ('a, ('e, 'x) TimeoutError) rresult \<Rightarrow> bool" where
  "timed_result Q limit now r = (case r of
       Ok x \<Rightarrow> Q (Ok x) | Err (TimeoutInner e) \<Rightarrow> Q (Err e) | Err TimeoutElapsed \<Rightarrow> limit \<le> now | Err (TimeoutTimer e) \<Rightarrow> False)"

definition await_ok :: "('i \<Rightarrow> 'w \<Rightarrow> bool) \<Rightarrow> (('a, 'e) rresult \<Rightarrow> 'w \<Rightarrow> bool) \<Rightarrow> ('d, 'x, 'w) timer \<Rightarrow> string set \<Rightarrow> nat \<Rightarrow>
  (('a, ('e, 'x) TimeoutError) rresult \<times> ('i, 'd) Timeout \<times> 'w) outcome \<Rightarrow> bool" where
  "await_ok I Q tm panics limit r = (case r of
       Done (res, this, w) \<Rightarrow> I (to_inner this) w \<and> timed_result (\<lambda>r. Q r w) limit (tm_now tm w) res
     | Panic m \<Rightarrow> m \<in> panics | Undefined m \<Rightarrow> False | Blocks m \<Rightarrow> False)"

text \<open>An example: the clock is the world, and nothing else happens while a task is suspended.\<close>

definition demo_task :: "(nat, nat, nat, unit, nat) task_env" where
  "demo_task = \<lparr>te_profile = Debug, te_ops = demo_env, te_lc = demo_lc, te_timer = demo_timer, te_waker = 4, te_resume = (\<lambda>(s, w). (s, Suc w))\<rparr>"

definition demo_accept :: "(i32, nat, nat, nat) accept_fn" where
  "demo_accept l w = (Ok (9, 7), w)"

definition demo_try_next :: "(nat TcpStream \<times> nat, io_error) try_next_fn" where
  "demo_try_next x = (case x of None \<Rightarrow> Ok None | Some (Ok c) \<Rightarrow> Ok (Some c) | Some (Err e) \<Rightarrow> Err e)"

section \<open>Futures under a timeout\<close>

lemma timed_result_mono: "timed_result Q D n r \<Longrightarrow> L \<le> D \<Longrightarrow> timed_result Q L n r"
  by (auto simp: timed_result_def split: rresult.splits TimeoutError.splits)

locale timed_future =
  fixes I :: "'i \<Rightarrow> 'w \<Rightarrow> bool" and pollf :: "'i \<Rightarrow> 'w \<Rightarrow> (('a, 'e) rresult Async \<times> 'i \<times> 'w) outcome" and Q :: "('a, 'e) rresult \<Rightarrow> 'w \<Rightarrow> bool"
    and resume :: "'w \<Rightarrow> 'w" and tm :: "('d, 'x, 'w) timer" and deadline :: "'d \<Rightarrow> nat" and panics :: "string set"
  assumes polled: "I i w \<Longrightarrow> (\<exists>r i' w'. pollf i w = Done (r, i', w') \<and> I i' w' \<and> tm_now tm w \<le> tm_now tm w' \<and> (\<forall>x. r = Ready x \<longrightarrow> Q x w')) \<or>
      (\<exists>m \<in> panics. pollf i w = Panic m)"
    and resumed: "I i w \<Longrightarrow> I i (resume w) \<and> tm_now tm w < tm_now tm (resume w)"
    and timed: "I i w \<Longrightarrow> timer_laws tm deadline"
    and timer_kept: "I i w \<Longrightarrow> I i (snd (snd (tm_poll tm d w)))"
begin

text \<open>One poll: the deadline is at least \<open>D\<close>, and once there is one it does not move.\<close>

lemma timeout_step:
  assumes I: "I (to_inner this) w"
  defines "D \<equiv> (case to_delay this of None \<Rightarrow> tm_now tm w + to_timeout this | Some d \<Rightarrow> deadline d)"
  shows "(\<exists>m \<in> panics. Timeout_poll tm pollf this w = Panic m) \<or>
    (\<exists>r this' w'. Timeout_poll tm pollf this w = Done (Ready r, this', w') \<and> I (to_inner this') w' \<and> timed_result (\<lambda>r. Q r w') D (tm_now tm w') r) \<or>
    (\<exists>this' w' d. Timeout_poll tm pollf this w = Done (NotReady, this', w') \<and> I (to_inner this') w' \<and> to_delay this' = Some d \<and>
      tm_now tm w \<le> tm_now tm w' \<and> tm_now tm w' < deadline d \<and> D \<le> deadline d \<and> (to_delay this \<noteq> None \<longrightarrow> deadline d = D))"
  using polled [OF I]
proof (elim disjE exE conjE bexE)
  fix m assume "m \<in> panics" "pollf (to_inner this) w = Panic m"
  then show ?thesis by (auto simp: Timeout_poll_def)
next
  fix r i' w1 assume p: "pollf (to_inner this) w = Done (r, i', w1)" "I i' w1" "tm_now tm w \<le> tm_now tm w1" "\<forall>x. r = Ready x \<longrightarrow> Q x w1"
  show ?thesis
  proof (cases r)
    case (Ready x)
    with Timeout_poll_ready [of pollf this w x i' w1 tm] p show ?thesis by (cases x) (auto simp: timed_result_def)
  next
    case NotReady
    define d where "d = (case to_delay this of None \<Rightarrow> tm_new tm (tm_now tm w1 + to_timeout this) | Some d \<Rightarrow> d)"
    have dl: "D \<le> deadline d" "to_delay this \<noteq> None \<longrightarrow> deadline d = D"
      using timed [OF I] p(3) by (auto simp: d_def D_def timer_laws_def split: option.split)
    obtain x d' w2 where t: "tm_poll tm d w1 = (x, d', w2)" by (cases "tm_poll tm d w1") auto
    have "case tm_poll tm d w1 of (r, d', w') \<Rightarrow>
        r = (if deadline d \<le> tm_now tm w1 then Ready (Ok ()) else NotReady) \<and> deadline d' = deadline d \<and> tm_now tm w' = tm_now tm w1"
      using timed [OF I, unfolded timer_laws_def, THEN conjunct2, THEN spec [of _ d], THEN spec [of _ w1]] .
    then have x: "x = (if deadline d \<le> tm_now tm w1 then Ready (Ok ()) else NotReady)" "deadline d' = deadline d" "tm_now tm w2 = tm_now tm w1"
      using t by simp_all
    have "I i' w2" using timer_kept [OF p(2), of d] t by simp
    moreover have "Timeout_poll tm pollf this w = Done (if deadline d \<le> tm_now tm w1 then Ready (Err TimeoutElapsed) else NotReady,
        this\<lparr>to_inner := i', to_delay := Some d'\<rparr>, w2)"
      using p(1) NotReady t x(1) d_def by (cases "to_delay this") (auto simp: Timeout_poll_def Let_def)
    ultimately show ?thesis using dl x p(3) by (auto simp: timed_result_def)
  qed
qed

lemma await_armed:
  "I (to_inner this) w \<Longrightarrow> to_delay this = Some d \<Longrightarrow> L \<le> deadline d \<Longrightarrow>
    \<exists>r. await_loop (Timeout_poll tm pollf) resume this w = Some r \<and> await_ok I Q tm panics L r"
proof (induction "deadline d - tm_now tm w" arbitrary: this w d rule: less_induct)
  case less
  note loop = await_loop.simps [of "Timeout_poll tm pollf" resume this w]
  from timeout_step [OF less.prems(1)] less.prems(2) consider
      m where "m \<in> panics" "Timeout_poll tm pollf this w = Panic m"
    | r this' w' where "Timeout_poll tm pollf this w = Done (Ready r, this', w')" "I (to_inner this') w'" "timed_result (\<lambda>r. Q r w') (deadline d) (tm_now tm w') r"
    | this' w' d' where "Timeout_poll tm pollf this w = Done (NotReady, this', w')" "I (to_inner this') w'" "to_delay this' = Some d'"
        "tm_now tm w \<le> tm_now tm w'" "tm_now tm w' < deadline d'" "deadline d' = deadline d" by auto
  then show ?case
  proof cases
    case 1
    then show ?thesis by (simp add: loop await_ok_def)
  next
    case 2
    then show ?thesis using timed_result_mono [OF _ less.prems(3)] by (simp add: loop await_ok_def)
  next
    case 3
    from resumed [OF 3(2)] have r: "I (to_inner this') (resume w')" "tm_now tm w' < tm_now tm (resume w')" by simp_all
    then have "deadline d' - tm_now tm (resume w') < deadline d - tm_now tm w" using 3(4,5,6) by linarith
    from less.hyps [OF this r(1) 3(3)] 3 less.prems(3) show ?thesis by (simp add: loop)
  qed
qed

lemma await_returns:
  assumes I: "I i w"
  shows "\<exists>r. await_loop (Timeout_poll tm pollf) resume (TryFutureExt_timeout i n) w = Some r \<and> await_ok I Q tm panics (tm_now tm w + n) r"
proof -
  let ?t = "TryFutureExt_timeout i n :: ('i, 'd) Timeout"
  have t: "to_inner ?t = i" "to_delay ?t = None" "to_timeout ?t = n" by (simp_all add: TryFutureExt_timeout_def Timeout_new_def)
  note loop = await_loop.simps [of "Timeout_poll tm pollf" resume ?t w]
  from timeout_step [of ?t w] I t consider
      m where "m \<in> panics" "Timeout_poll tm pollf ?t w = Panic m"
    | r this' w' where "Timeout_poll tm pollf ?t w = Done (Ready r, this', w')" "I (to_inner this') w'" "timed_result (\<lambda>r. Q r w') (tm_now tm w + n) (tm_now tm w') r"
    | this' w' d' where "Timeout_poll tm pollf ?t w = Done (NotReady, this', w')" "I (to_inner this') w'" "to_delay this' = Some d'"
        "tm_now tm w + n \<le> deadline d'" by auto
  then show ?thesis
  proof cases
    case 3
    from await_armed [OF _ 3(3,4), of "resume w'"] resumed [OF 3(2)] 3(1) show ?thesis by (simp add: loop)
  qed (simp_all add: loop await_ok_def)
qed

end

section \<open>The futures of the servers\<close>

lemma task_timer_simps [simp]:
  "tm_now (task_timer tm) (s, w) = tm_now tm w" "tm_now (task_timer tm) sw = tm_now tm (snd sw)"
  "fst (snd (snd (tm_poll (task_timer tm) d sw))) = fst sw"
  by (simp_all add: task_timer_def split: prod.split)

lemma task_timer_laws: "timer_laws tm deadline \<Longrightarrow> timer_laws (task_timer tm) deadline"
  unfolding timer_laws_def task_timer_def by (simp add: Let_def case_prod_unfold)

lemma task_lawsD:
  assumes "task_laws V deadline"
  shows "timer_laws (task_timer (te_timer V)) deadline"
    and "live (te_ops V) f s \<Longrightarrow> live (te_ops V) f (fst (te_resume V (s, w))) \<and>
      tm_now (te_timer V) w < tm_now (te_timer V) (snd (te_resume V (s, w)))"
  using assms by (auto simp: task_laws_def case_prod_unfold intro: task_timer_laws)

lemma read_polled:
  assumes "live (te_ops V) (FutRead i) s"
  shows "(\<exists>r i' s'. read_poll V i (s, w) = Done (r, i', s', w) \<and> live (te_ops V) (FutRead i') s') \<or>
    (\<exists>m \<in> async_panics. read_poll V i (s, w) = Panic m)"
proof -
  obtain T fs k where b: "beside (te_ops V) T fs k (FutRead i) s" using assms by (auto simp: live_def some_beside_def)
  from fut_poll_beside(2) [OF b, of "te_profile V" "te_lc V" True "te_waker V"] show ?thesis
    by (cases "AsyncRead_poll_async (te_profile V) (te_waker V) i (rx_heap s)")
      (auto simp: fut_poll_async_def fut_step_ok_def read_poll_def on_heap_def live_def)
qed

interpretation timed_read: timed_future "\<lambda>i sw. task_laws V deadline \<and> live (te_ops V) (FutRead i) (fst sw)" "read_poll V" "\<lambda>_ _. True"
    "te_resume V" "task_timer (te_timer V)" deadline async_panics for V :: "('t, 'f, 'd, 'x, 'w) task_env" and deadline
proof
  fix i and sw :: "('t, 'f) any_rx \<times> 'w"
  assume I: "task_laws V deadline \<and> live (te_ops V) (FutRead i) (fst sw)"
  then have l: "live (te_ops V) (FutRead i) (fst sw)" and laws: "task_laws V deadline" by simp_all
  from read_polled [OF l, of "snd sw"] laws
  show "(\<exists>r i' w'. read_poll V i sw = Done (r, i', w') \<and> (task_laws V deadline \<and> live (te_ops V) (FutRead i') (fst w')) \<and>
        tm_now (task_timer (te_timer V)) sw \<le> tm_now (task_timer (te_timer V)) w' \<and> (\<forall>x. r = Ready x \<longrightarrow> True)) \<or>
      (\<exists>m \<in> async_panics. read_poll V i sw = Panic m)" by (cases sw) fastforce
  from task_lawsD(2) [OF laws l, of "snd sw"] laws
  show "(task_laws V deadline \<and> live (te_ops V) (FutRead i) (fst (te_resume V sw))) \<and>
      tm_now (task_timer (te_timer V)) sw < tm_now (task_timer (te_timer V)) (te_resume V sw)" by simp
qed (simp_all add: task_lawsD(1))

text \<open>Only \<open>accept\<close> touches the world in the loop of \<open>Incoming\<close>.\<close>

lemma incoming_wait_clock:
  "(now w0 :: nat) \<le> now w \<Longrightarrow> clock_kept now accept w0 (incoming_wait pollf (self, s, w))"
  by (cases "pollf (in_poll self) s") (auto simp: clock_kept_def incoming_wait_def Let_def split: rresult.split Async.split option.split)

lemma incoming_body_clock:
  assumes "\<forall>l w. (now w :: nat) \<le> now (snd (accept l w))"
  shows "clock_kept now accept w (incoming_body pollf accept (self, s, w))"
proof (cases "in_blocked self")
  case True
  then show ?thesis by (simp add: incoming_body_def incoming_wait_clock)
next
  case False
  obtain x w' where a: "accept (listener (in_inner self)) w = (x, w')" by fastforce
  then have le: "now w \<le> now w'" using assms by (metis snd_conv)
  show ?thesis
  proof (cases x)
    case (Ok c)
    with False a le show ?thesis by (cases c) (auto simp: incoming_body_def clock_kept_def accepted_at_def)
  next
    case (Err e)
    with False a le show ?thesis by (simp add: incoming_body_def incoming_wait_clock) (simp add: clock_kept_def)
  qed
qed

lemma accepted_at_later: "accepted_at now accept l t' c w \<Longrightarrow> t \<le> t' \<Longrightarrow> accepted_at now accept l t c w"
  unfolding accepted_at_def using le_trans by blast

lemma clock_kept_trans:
  assumes "now w \<le> now w1" "clock_kept now accept w1 (Inr r)"
  shows "clock_kept now accept w (Inr r)"
proof (cases r)
  case (Done x)
  obtain res self s w' where x: "x = (res, self, s, w')" by (cases x)
  then show ?thesis using assms Done accepted_at_later [OF _ assms(1)]
    by (auto simp: clock_kept_def split: rresult.split_asm Async.split_asm rresult.split Async.split)
qed (simp_all add: clock_kept_def)

lemma incoming_loop_clock:
  fixes pollf :: "'r poll_fn" and accept :: "('l, 's, 'a, 'w) accept_fn"
  assumes "incoming_loop pollf accept st = Some r"
  shows "(\<forall>l w. (now w :: nat) \<le> now (snd (accept l w))) \<longrightarrow> clock_kept now accept (snd (snd st)) (Inr r)"
proof (rule incoming_loop.raw_induct [OF _ assms], rule impI)
  fix loop and pollf :: "'r poll_fn" and accept :: "('l, 's, 'a, 'w) accept_fn" and st :: "('l, 'r, 'w) in_state" and r :: "('l, 's, 'a, 'r, 'w) in_result"
  assume 1: "\<And>pollf accept st r. loop pollf accept st = Some r \<Longrightarrow>
      (\<forall>l w. now w \<le> now (snd (accept l w))) \<longrightarrow> clock_kept now accept (snd (snd st)) (Inr r)"
    "(case incoming_body pollf accept st of Inl st' \<Rightarrow> loop pollf accept st' | Inr r \<Rightarrow> Some r) = Some r"
    and clock: "\<forall>l w. now w \<le> now (snd (accept l w))"
  obtain self s w where st: "st = (self, s, w)" by (cases st)
  note body = incoming_body_clock [OF clock, where pollf = pollf and self = self and s = s and w = w, folded st]
  show "clock_kept now accept (snd (snd st)) (Inr r)"
  proof (cases "incoming_body pollf accept st")
    case (Inl st')
    with 1(2) have "loop pollf accept st' = Some r" by simp
    from 1(1) [OF this] clock have "clock_kept now accept (snd (snd st')) (Inr r)" by simp
    moreover have "now (snd (snd st)) \<le> now (snd (snd st'))" using body Inl st by (simp add: clock_kept_def)
    ultimately show ?thesis by (rule clock_kept_trans [rotated])
  qed (use 1(2) body st in auto)
qed


lemma next_polled:
  assumes laws: "accept_laws V accept m" "try_next_laws tn" and l: "live (te_ops V) (FutPoll (in_poll self)) s"
  shows "(\<exists>r self' s' w'. try_next_poll V accept tn self (s, w) = Done (r, self', s', w') \<and> in_inner self' = in_inner self \<and>
      live (te_ops V) (FutPoll (in_poll self')) s' \<and> tm_now (te_timer V) w \<le> tm_now (te_timer V) w' \<and>
      (\<forall>x. r = Ready x \<longrightarrow> accepted_by (tm_now (te_timer V)) accept (in_inner self) (tm_now (te_timer V) w) x w')) \<or>
    (\<exists>m \<in> async_panics. try_next_poll V accept tn self (s, w) = Panic m)"
proof -
  obtain fs k where b: "some_beside (te_ops V) fs k (FutPoll (in_poll self)) s" using l by (auto simp: live_def)
  have intr: "interrupts_end accept m" and clock: "\<forall>l w. tm_now (te_timer V) w \<le> tm_now (te_timer V) (snd (accept l w))"
    using laws(1) by (simp_all add: accept_laws_def)
  from listen_async.loop_returns [OF intr b, where p = "te_profile V" and lc = "te_lc V" and t = "te_waker V" and w = w] obtain r where
    r: "incoming_loop (poll_fn_async (te_profile V) (te_lc V) True (te_waker V)) accept (self, s, w) = Some r"
    and good: "incoming_good (\<lambda>ap s. some_beside (te_ops V) fs k (FutPoll ap) s) (poll_armed k (New (te_waker V))) async_panics accept (in_inner self) r"
    by blast
  have run: "try_next_poll V accept tn self (s, w) = map_outcome (\<lambda>(res, self, s, w).
      (case poll_next_result res of NotReady \<Rightarrow> NotReady | Ready x \<Rightarrow> Ready (tn x), self, s, w)) r"
    by (cases r) (auto simp: try_next_poll_def Incoming_poll_next_def r split: prod.splits)
  show ?thesis
  proof (cases r)
    case (Done x)
    obtain res self' s' w' where x: "x = (res, self', s', w')" by (cases x)
    have c: "tm_now (te_timer V) w \<le> tm_now (te_timer V) w'"
      "case res of Ok (Ready c) \<Rightarrow> accepted_at (tm_now (te_timer V)) accept (in_inner self') (tm_now (te_timer V) w) c w' | _ \<Rightarrow> True"
      using incoming_loop_clock [OF r, of "tm_now (te_timer V)"] clock Done x by (simp_all add: clock_kept_def)
    moreover have "in_inner self' = in_inner self" "live (te_ops V) (FutPoll (in_poll self')) s'"
      using good Done x by (auto simp: incoming_good_def live_def)
    moreover have "\<forall>y. (case poll_next_result res of NotReady \<Rightarrow> NotReady | Ready x \<Rightarrow> Ready (tn x)) = Ready y \<longrightarrow>
        accepted_by (tm_now (te_timer V)) accept (in_inner self') (tm_now (te_timer V) w) y w'"
      using c(2) laws(2) by (auto simp: poll_next_result_def accepted_by_def try_next_laws_def split: rresult.splits Async.splits)
    ultimately show ?thesis using Done x run by simp
  qed (use good run in \<open>simp_all add: incoming_good_def\<close>)
qed

lemma accepted_by_later: "accepted_by now accept l t' r w \<Longrightarrow> t \<le> t' \<Longrightarrow> accepted_by now accept l t r w"
  by (auto simp: accepted_by_def split: rresult.splits option.splits intro: accepted_at_later)

lemma task_timer_clock:
  assumes "task_laws V deadline"
  shows "tm_now (te_timer V) (snd (snd (snd (tm_poll (task_timer (te_timer V)) d sw)))) = tm_now (te_timer V) (snd sw)"
  using assms by (cases sw) (auto simp: task_laws_def timer_laws_def task_timer_def split: prod.splits)

interpretation timed_next: timed_future "\<lambda>self sw. task_laws V deadline \<and> accept_laws V accept m \<and> try_next_laws tn \<and> in_inner self = l \<and>
      live (te_ops V) (FutPoll (in_poll self)) (fst sw) \<and> t \<le> tm_now (te_timer V) (snd sw)" "try_next_poll V accept tn"
    "\<lambda>r sw. accepted_by (tm_now (te_timer V)) accept l t r (snd sw)"
    "te_resume V" "task_timer (te_timer V)" deadline async_panics for V :: "('t, 'f, 'd, 'x, 'w) task_env" and deadline m tn
    and accept :: "('l, 's, 'a, 'w) accept_fn" and l t
proof
  fix self :: "'l Incoming" and sw :: "('t, 'f) any_rx \<times> 'w"
  assume I: "task_laws V deadline \<and> accept_laws V accept m \<and> try_next_laws tn \<and> in_inner self = l \<and>
      live (te_ops V) (FutPoll (in_poll self)) (fst sw) \<and> t \<le> tm_now (te_timer V) (snd sw)"
  then have lv: "live (te_ops V) (FutPoll (in_poll self)) (fst sw)" and laws: "task_laws V deadline" "accept_laws V accept m" "try_next_laws tn"
    by simp_all
  from next_polled [where V = V and accept = accept and m = m and tn = tn and self = self and s = "fst sw" and w = "snd sw", OF laws(2,3) lv] I
  show "(\<exists>r i' w'. try_next_poll V accept tn self sw = Done (r, i', w') \<and> (task_laws V deadline \<and> accept_laws V accept m \<and>
          try_next_laws tn \<and> in_inner i' = l \<and> live (te_ops V) (FutPoll (in_poll i')) (fst w') \<and> t \<le> tm_now (te_timer V) (snd w')) \<and>
        tm_now (task_timer (te_timer V)) sw \<le> tm_now (task_timer (te_timer V)) w' \<and> (\<forall>x. r = Ready x \<longrightarrow> accepted_by (tm_now (te_timer V)) accept l t x (snd w'))) \<or>
      (\<exists>m \<in> async_panics. try_next_poll V accept tn self sw = Panic m)" using accepted_by_later by (cases sw) fastforce
  from task_lawsD(2) [OF laws(1) lv, of "snd sw"] I
  show "(task_laws V deadline \<and> accept_laws V accept m \<and> try_next_laws tn \<and> in_inner self = l \<and>
        live (te_ops V) (FutPoll (in_poll self)) (fst (te_resume V sw)) \<and> t \<le> tm_now (te_timer V) (snd (te_resume V sw))) \<and>
      tm_now (task_timer (te_timer V)) sw < tm_now (task_timer (te_timer V)) (te_resume V sw)" by simp
qed (auto simp: task_lawsD(1) task_timer_clock [where deadline = deadline])

text \<open>Starting a read and dropping its future at the end.\<close>

lemma read_started:
  assumes "settled E s" "alloc_ok (oe_alloc E) (rx_heap s)"
  shows "\<exists>st s'. SocketRead_read p E True con buf s = Done (st, s') \<and> live E (FutRead st) s'"
proof -
  obtain T fs k where st: "rx_inv k (mset (futs_addrs fs)) s" "client_ok E T fs (rx_inflight k s) (rx_heap s)" "ring_ok T s"
    using assms(1) by (auto simp: settled_def)
  have "\<exists>st s'. AsyncRead_new p E True con 0 buf s = Done (st, s') \<and> some_beside E fs k (FutRead st) s'"
    unfolding AsyncRead_new_def
    by (rule op_new_beside [OF st(1,2) assms(2), where p = p and
          rq = "\<lambda>fd off iov. ReqReadv PrioNone (FD fd) off ReadWriteFlags_default iov"]) (simp_all add: queue_async_read_def st(3))
  then show ?thesis by (auto simp: SocketRead_read_def Handle_async_read_def live_def)
qed

lemma read_finished:
  assumes "live E (FutRead st) s"
  shows "\<exists>s'. finish_op st r (s, w) = Done (r, s', w) \<and> settled E s'"
proof -
  obtain T fs k where b: "beside E T fs k (FutRead st) s" using assms by (auto simp: live_def some_beside_def)
  then have "ring_ok T s" by (simp add: beside_def)
  with fut_drop_beside [OF b] show ?thesis by (fastforce simp: fut_drop_def finish_op_def settled_def)
qed

text \<open>The two timed waits of the servers.\<close>

lemma con_read_ends:
  assumes laws: "task_laws V deadline" and "settled (te_ops V) s" "alloc_ok (oe_alloc (te_ops V)) (rx_heap s)"
  shows "\<exists>r. con_read V con buf (s, w) = Some r \<and> (case r of
         Done (res, s', w') \<Rightarrow> settled (te_ops V) s' \<and>
           timed_result (\<lambda>_. True) (tm_now (te_timer V) w + 3000000000) (tm_now (te_timer V) w') res
       | Panic m \<Rightarrow> m \<in> async_panics | _ \<Rightarrow> False)"
proof -
  from read_started [OF assms(2,3), of "te_profile V" con buf] obtain st s1 where
    st: "SocketRead_read (te_profile V) (te_ops V) True con buf s = Done (st, s1)" "live (te_ops V) (FutRead st) s1" by blast
  from timed_read.await_returns [where i = st and V = V and deadline = deadline and w = "(s1, w)" and n = 3000000000] laws st(2) obtain r where
    r: "await_loop (Timeout_poll (task_timer (te_timer V)) (read_poll V)) (te_resume V) (TryFutureExt_timeout st 3000000000) (s1, w) = Some r"
      "await_ok (\<lambda>i sw. task_laws V deadline \<and> live (te_ops V) (FutRead i) (fst sw)) (\<lambda>_ _. True) (task_timer (te_timer V)) async_panics
        (tm_now (te_timer V) w + 3000000000) r" by auto
  have run: "con_read V con buf (s, w) = abind (Some r) (\<lambda>(r, fut, sw). Some (finish_op (to_inner fut) r sw))"
    using r(1) by (simp add: con_read_def st(1) Duration_from_secs_def)
  show ?thesis
  proof (cases r)
    case (Done x)
    obtain res fut s2 w2 where x: "x = (res, fut, s2, w2)" by (cases x)
    from r(2) Done x have "live (te_ops V) (FutRead (to_inner fut)) s2" by (simp add: await_ok_def)
    from read_finished [OF this, of res w2] r(2) Done x run show ?thesis by (auto simp: await_ok_def)
  qed (use r(2) run in \<open>simp_all add: await_ok_def\<close>)
qed

lemma serve_next_ends:
  assumes "task_laws V deadline" "accept_laws V accept m" "try_next_laws tn" "live (te_ops V) (FutPoll (in_poll self)) s"
  shows "\<exists>r. serve_next V accept tn (self, s, w) = Some r \<and> (case r of
         Done (res, self', s', w') \<Rightarrow> in_inner self' = in_inner self \<and> live (te_ops V) (FutPoll (in_poll self')) s' \<and>
           timed_result (\<lambda>r. accepted_by (tm_now (te_timer V)) accept (in_inner self) (tm_now (te_timer V) w) r w') (tm_now (te_timer V) w + 30000000000) (tm_now (te_timer V) w') res
       | Panic m \<Rightarrow> m \<in> async_panics | _ \<Rightarrow> False)"
proof -
  from assms timed_next.await_returns [where i = self and l = "in_inner self" and V = V and deadline = deadline and accept = accept and tn = tn and m = m and
      w = "(s, w)" and t = "tm_now (te_timer V) w" and n = 30000000000] obtain r where
    r: "await_loop (Timeout_poll (task_timer (te_timer V)) (try_next_poll V accept tn)) (te_resume V) (TryFutureExt_timeout self 30000000000) (s, w) = Some r"
      "await_ok (\<lambda>i sw. task_laws V deadline \<and> accept_laws V accept m \<and> try_next_laws tn \<and> in_inner i = in_inner self \<and>
         live (te_ops V) (FutPoll (in_poll i)) (fst sw) \<and> tm_now (te_timer V) w \<le> tm_now (te_timer V) (snd sw))
        (\<lambda>r sw. accepted_by (tm_now (te_timer V)) accept (in_inner self) (tm_now (te_timer V) w) r (snd sw)) (task_timer (te_timer V)) async_panics
        (tm_now (te_timer V) w + 30000000000) r" by auto
  then have "serve_next V accept tn (self, s, w) = abind (Some r) (\<lambda>(r, fut, sw). Some (Done (r, to_inner fut, sw)))"
    by (simp add: serve_next_def Duration_from_secs_def)
  with r(2) show ?thesis
    by (cases r) (auto simp: await_ok_def split: prod.splits)
qed

section \<open>Properties\<close>


lemma demo_task_laws: "task_laws demo_task (\<lambda>d. d)"
  by (simp add: task_laws_def demo_task_def demo_timer_laws) (simp add: demo_timer_def)

lemma demo_settled: "settled demo_env demo_arx"
  unfolding settled_def using demo_arx_inv demo_client by (intro exI [of _ "[]"] exI [of _ "{#}"] exI) auto


end
