(* ===== verification/Servers.thy ===== *)
theory Servers
  imports Awaiting Runtime
begin

text \<open>
  The echo servers put together: \<open>serve\<close> of \<open>echo-async/src/serve_tcp.rs\<close> with the task it spawns on the runtime, and
  the \<open>main\<close> functions of \<open>echo-async/src/main.rs\<close> and \<open>tokio-uring/examples/echo.rs\<close>. The standard library's
  \<open>bind\<close>, the executor's \<open>spawn\<close>, \<open>Compat\<close> and, in the example, the stream under a timeout of \<open>tokio_timer\<close> are
  parameters.
\<close>

section \<open>The serving task\<close>

type_synonym ('t, 'f, 'w) task_state = "('t, 'f) any_rx \<times> 'w"
type_synonym ('t, 'f, 'w) task_fn = "('t, 'f, 'w) task_state \<Rightarrow> ((unit, unit) rresult \<times> ('t, 'f, 'w) task_state) awaited"

record ('t, 'f, 's, 'l, 'a, 'd, 'x, 'w) serve_env =
  sv_task :: "('t, 'f, 'd, 'x, 'w) task_env"
  sv_os :: "'w posix"
  sv_raw_fd :: "'l \<Rightarrow> i32"
  sv_accept :: "('l, 's, 'a, 'w) accept_fn"
  sv_try_next :: "('s TcpStream \<times> 'a, io_error) try_next_fn"
  sv_show :: "'x \<Rightarrow> string"
  sv_spawn :: "('t, 'f, 'w) task_fn \<Rightarrow> 'w \<Rightarrow> 'w"
  sv_report :: "io_error \<Rightarrow> 'w \<Rightarrow> 'w"

text \<open>The end of an \<open>Incoming\<close>: its poll gives up its registration, and the listener is closed.\<close>

definition Incoming_drop :: "('w, 'z) posix_scheme \<Rightarrow> ('l \<Rightarrow> i32) \<Rightarrow> 'l Incoming \<Rightarrow> ('t, 'f, 'w) task_state \<Rightarrow> ('t, 'f, 'w) task_state outcome" where
  "Incoming_drop os as_raw_fd i sw = (case sw of (s, w) \<Rightarrow>
     obind (AsyncPoll_drop (in_poll i) (rx_heap s)) (\<lambda>h.
     Done (s\<lparr>rx_heap := h\<rparr>, os_close os (as_raw_fd (listener (in_inner i))) w)))"

text \<open>The wait for a connection with its \<open>?\<close>: errors become \<open>io::Error\<close>.\<close>

definition serve_accept :: "('t, 'f, 's, 'l, 'a, 'd, 'x, 'w) serve_env \<Rightarrow> 'l Incoming \<times> ('t, 'f, 'w) task_state \<Rightarrow>
  ((('s TcpStream \<times> 'a) option, io_error) rresult \<times> 'l Incoming \<times> ('t, 'f, 'w) task_state) awaited" where
  "serve_accept S st = abind (serve_next (sv_task S) (sv_accept S) (sv_try_next S) st) (\<lambda>(r, st).
     Some (Done (map_err (TimeoutError_into_io (\<lambda>e. e) (sv_show S)) r, st)))"

definition serve_async :: "('t, 'f, 's, 'l, 'a, 'd, 'x, 'w) serve_env \<Rightarrow>
  (Handle \<Rightarrow> 's TcpStream \<Rightarrow> 'a \<Rightarrow> ('t, 'f, 'w) task_state \<Rightarrow> ((unit, io_error) rresult \<times> ('t, 'f, 'w) task_state) awaited) \<Rightarrow>
  (Handle \<Rightarrow> io_error \<Rightarrow> 'a \<Rightarrow> ('t, 'f, 'w) task_state \<Rightarrow> ('t, 'f, 'w) task_state) \<Rightarrow> Handle \<Rightarrow> 'l \<Rightarrow> ('t, 'f, 'w) task_fn" where
  "serve_async S handle_con handle_err handle l sw = (case sw of (s, w) \<Rightarrow>
     let (l, w) = TcpListener_from (sv_os S) (sv_raw_fd S) l w;
         (i, h) = TcpListener_incoming (te_ops (sv_task S)) (te_lc (sv_task S)) (sv_raw_fd S) l (rx_heap s)
     in
     abind (serve_loop (serve_accept S)
         (\<lambda>con (i, s, w). (i, s, sv_spawn S (serve_task (handle_con handle) (handle_err handle) con) w))
         (i, s\<lparr>rx_heap := h\<rparr>, w)) (\<lambda>(e, i, sw).
     abind (Some (Incoming_drop (sv_os S) (sv_raw_fd S) i sw)) (\<lambda>(s, w).
     Some (Done (Ok (), s, sv_report S e w)))))"

text \<open>\<open>compat_new\<close> is \<open>Compat::new(Box::pin(..))\<close>.\<close>

definition serve :: "('ex, 'tm, 'u, 'i, 'b, 'e, 'v) tokio \<Rightarrow> (('t, 'f, 'w) task_fn \<Rightarrow> 'u) \<Rightarrow> ('t, 'f, 's, 'l, 'a, 'd, 'x, 'w) serve_env \<Rightarrow>
  (Handle \<Rightarrow> 's TcpStream \<Rightarrow> 'a \<Rightarrow> ('t, 'f, 'w) task_state \<Rightarrow> ((unit, io_error) rresult \<times> ('t, 'f, 'w) task_state) awaited) \<Rightarrow>
  (Handle \<Rightarrow> io_error \<Rightarrow> 'a \<Rightarrow> ('t, 'f, 'w) task_state \<Rightarrow> ('t, 'f, 'w) task_state) \<Rightarrow> 'l \<Rightarrow> 'ex Runtime \<Rightarrow> 'ex Runtime" where
  "serve tk compat_new S handle_con handle_err l runtime =
     (let handle = Runtime_reactor_handle tk runtime in
      Runtime_spawn tk (compat_new (serve_async S handle_con handle_err handle l)) runtime)"

text \<open>
  The listening task of the example; \<open>next_con\<close> is the stream of connections under a timeout of \<open>tokio_timer\<close>, and
  \<open>handler\<close> the task of a connection.
\<close>

definition listen_task :: "('w, 'z) posix_scheme \<Rightarrow> ('l \<Rightarrow> i32) \<Rightarrow>
  ('l Incoming \<times> ('t, 'f, 'w) task_state \<Rightarrow> ((('s TcpStream \<times> 'a) option, (io_error, 'x) TimeoutError) rresult \<times> 'l Incoming \<times> ('t, 'f, 'w) task_state) awaited) \<Rightarrow>
  (('t, 'f, 'w) task_fn \<Rightarrow> 'w \<Rightarrow> 'w) \<Rightarrow> ('s TcpStream \<Rightarrow> ('t, 'f, 'w) task_fn) \<Rightarrow> 'l Incoming \<Rightarrow> ('t, 'f, 'w) task_fn" where
  "listen_task os as_raw_fd next_con spawn handler i sw =
     abind (listen_loop next_con (\<lambda>(c, a) (i, s, w). (i, s, spawn (handler c) w)) (i, sw)) (\<lambda>(r, i, sw).
     abind (Some (Incoming_drop os as_raw_fd i sw)) (\<lambda>sw. Some (Done (r, sw))))"

section \<open>Main\<close>

text \<open>
  The parts common to both: the listener is bound, the runtime is created (\<open>expect\<close> unwinds and drops the listener
  if that fails), and \<open>start\<close> spawns the server; the state is the operating system \<open>'v\<close>. \<open>listen\<close> is what is done to
  the listener before.
\<close>

definition main_setup :: "('ex, 'tm, 'u, 'i, 'b, 'e, 'w) tokio \<Rightarrow> profile \<Rightarrow> ('v, 'z) posix_scheme \<Rightarrow> ('v \<Rightarrow> (i32, io_error) rresult \<times> 'v) \<Rightarrow>
  nat \<Rightarrow> u64 \<Rightarrow> u64 \<Rightarrow> u64 \<Rightarrow> (string \<Rightarrow> 'v \<Rightarrow> ('l, io_error) rresult \<times> 'v) \<Rightarrow> ('l \<Rightarrow> i32) \<Rightarrow> ('l \<Rightarrow> 'v \<Rightarrow> 'k \<times> 'v) \<Rightarrow>
  ('k \<Rightarrow> 'ex Runtime \<Rightarrow> ('t, 'f) any_rx \<Rightarrow> 'ex Runtime \<times> ('t, 'f) any_rx) \<Rightarrow> 'v \<Rightarrow> ('ex Runtime \<times> ('t, 'f) any_rx, 'v) ended outcome" where
  "main_setup tk p os timerfd_new cap pp buf a bind as_raw_fd listen start v =
     (case bind ''[::]:22'' v of
        (Err e, v) \<Rightarrow> Done (Unwound ''bind'' v)
      | (Ok l, v) \<Rightarrow>
          let (k, v) = listen l v in
          obind (Runtime_new tk p os timerfd_new cap pp buf a v) (\<lambda>(r, v). case r of
            Err e \<Rightarrow> Done (Unwound ''new runtime'' (os_close os (as_raw_fd l) v))
          | Ok (runtime, inner) \<Rightarrow> Done (Returned (start k runtime inner) v)))"

text \<open>\<open>runtime.run().expect("runtime run")\<close>, on a thread; the runtime is dropped at the end.\<close>

definition expect_run :: "((unit, 'e) rresult, 'ex Runtime \<times> 'w thread) ended \<Rightarrow> (unit, 'w thread) ended" where
  "expect_run x = (case x of
       Returned r (_, th) \<Rightarrow> (case r of Ok _ \<Rightarrow> Returned () th | Err _ \<Rightarrow> Unwound ''runtime run'' th)
     | Unwound m (_, th) \<Rightarrow> Unwound m th
     | Hangs \<Rightarrow> Hangs)"

definition main_run :: "('ex, 'tm, 'u, 'i, 'b, 'e, 'w) tokio \<Rightarrow> 'ex Runtime \<Rightarrow> 'w thread \<Rightarrow> (unit, 'w thread) ended" where
  "main_run tk runtime th = expect_run (Runtime_run tk (runtime, th))"

text \<open>The transfers of a connection get the handle of the reactor; its error is only printed.\<close>

definition echo_async_setup where
  "echo_async_setup tk p os timerfd_new cap pp buf a bind as_raw_fd compat_new S rd' wr' v =
     main_setup tk p os timerfd_new cap pp buf a bind as_raw_fd (\<lambda>l v. (l, v))
       (\<lambda>l runtime inner. (serve tk compat_new S (\<lambda>handle c addr. handle_connection (sv_show S) (rd' handle) (wr' handle) c)
          (\<lambda>handle e addr sw. sw) l runtime, inner)) v"

text \<open>
  The example asks for the stream of connections before it runs. \<open>into_task\<close> makes a task of the executor; \<open>os'\<close> is the
  operating system as the tasks see it, \<open>rd\<close> and \<open>wr\<close> are the transfers of a connection.
\<close>

definition echo_setup where
  "echo_setup tk p os timerfd_new cap pp buf a bind as_raw_fd E lc into_task os' next_con spawn rd wr v =
     main_setup tk p os timerfd_new cap pp buf a bind as_raw_fd (\<lambda>l v. TcpListener_from os as_raw_fd l v)
       (\<lambda>l runtime inner.
          let (i, h) = TcpListener_incoming E lc as_raw_fd l (rx_heap inner) in
          (Runtime_spawn tk (into_task (listen_task os' as_raw_fd next_con spawn (connection_handler rd wr) i)) runtime, inner\<lparr>rx_heap := h\<rparr>)) v"

text \<open>The whole of a \<open>main\<close>: the state is the operating system as its first part leaves it and the thread.\<close>

definition server_main :: "('ex, 'tm, 'u, 'i, 'b, 'e, 'w) tokio \<Rightarrow> ('ex Runtime \<times> 'r, 'v) ended outcome \<Rightarrow> 'w thread \<Rightarrow>
  (unit, 'v option \<times> 'w thread) ended outcome" where
  "server_main tk prepared th = obind prepared (\<lambda>r. Done (case r of
       Unwound m v \<Rightarrow> Unwound m (Some v, th)
     | Hangs \<Rightarrow> Hangs
     | Returned (runtime, inner) v \<Rightarrow> (case main_run tk runtime th of
           Returned u th \<Rightarrow> Returned u (None, th) | Unwound m th \<Rightarrow> Unwound m (None, th) | Hangs \<Rightarrow> Hangs)))"

section \<open>Specifications\<close>

text \<open>
  What the serving task relies on besides its waits: accepting takes time, nobody connects from the instant \<open>T\<close> on,
  and spawning a task does not turn back the clock.
\<close>

definition clients_stop :: "('t, 'f, 's, 'l, 'a, 'd, 'x, 'w) serve_env \<Rightarrow> nat \<Rightarrow> bool" where
  "clients_stop S T \<longleftrightarrow> (let now = tm_now (te_timer (sv_task S)) in
     (\<forall>l w. case sv_accept S l w of (Ok c, w') \<Rightarrow> now w < now w' \<and> now w < T | (Err e, w') \<Rightarrow> True) \<and>
     (\<forall>f w. now w \<le> now (sv_spawn S f w)))"

text \<open>\<open>bind\<close> holds the listener's descriptor if it succeeds.\<close>

definition bind_laws :: "(string \<Rightarrow> 'v \<Rightarrow> ('l, io_error) rresult \<times> 'v) \<Rightarrow> ('l \<Rightarrow> i32) \<Rightarrow> ('v \<Rightarrow> resource multiset) \<Rightarrow> bool" where
  "bind_laws bind as_raw_fd held \<longleftrightarrow> (\<forall>addr v. case bind addr v of
       (Ok l, v') \<Rightarrow> held v' = held v + {#ResFd (as_raw_fd l)#} | (Err e, v') \<Rightarrow> held v' = held v)"

text \<open>
  Examples: a server on a clock whose clients come until the instant 5, and mains on the example operating system and
  executor, which bind a listener with descriptor 9.
\<close>

definition demo_clock_os :: "nat posix" where
  "demo_clock_os =
     \<lparr>os_syscall = (\<lambda>nr args w. (0, w)), os_mmap = (\<lambda>hint len prot fl fd off w. (0, w)),
      os_munmap = (\<lambda>a len w. (0, w)), os_close = (\<lambda>fd w. w), os_errno = (\<lambda>w. 0),
      os_PROT_READ = 1, os_PROT_WRITE = 2, os_MAP_SHARED = 1, os_MAP_POPULATE = 0x8000,
      os_MAP_FAILED = - 1, os_sigset_size = 128, mem_load_u32 = (\<lambda>w a. 0), mem_store_u32 = (\<lambda>a v w. w),
      mem_load_params = (\<lambda>w a. SetupParameters_new 0), mem_store_params = (\<lambda>a v w. w),
      mem_load_sqe = (\<lambda>w a. zeroed_entry),
      mem_load_cqe = (\<lambda>w a. \<lparr>ce_user_data = 0, ce_res = 0, ce_flags = 0\<rparr>),
      px_pipe2 = (\<lambda>fl w. ((0, 4, 5), w)), px_fcntl = (\<lambda>fd cmd arg w. (0, w)),
      px_O_CLOEXEC = 0x80000, px_O_NONBLOCK = 0x800, px_F_GETFL = 3, px_F_SETFL = 4\<rparr>"

definition demo_server :: "(nat, nat, nat, i32, nat, nat, unit, nat) serve_env" where
  "demo_server = \<lparr>sv_task = demo_task, sv_os = demo_clock_os, sv_raw_fd = (\<lambda>l. l),
     sv_accept = (\<lambda>l w. if w < 5 then (Ok (9, 7), Suc w) else (Err (RawOsError 11), w)), sv_try_next = demo_try_next,
     sv_show = (\<lambda>_. []), sv_spawn = (\<lambda>f w. w), sv_report = (\<lambda>e w. w)\<rparr>"

definition demo_into_task :: "(nat, nat, nat) task_fn \<Rightarrow> nat" where
  "demo_into_task f = 7"

definition demo_stream :: "i32 Incoming \<times> (nat, nat, nat) task_state \<Rightarrow>
  (((nat TcpStream \<times> nat) option, (io_error, unit) TimeoutError) rresult \<times> i32 Incoming \<times> (nat, nat, nat) task_state) awaited" where
  "demo_stream st = Some (Done (Ok None, st))"

definition demo_rd :: "((io_error, unit) TimeoutError, nat TcpStream, (nat, nat, nat) task_state) transfer" where
  "demo_rd buf c st = Some (Done (Ok (0, buf, c), st))"

definition demo_wr :: "(nat TcpStream, (nat, nat, nat) task_state) plain_write" where
  "demo_wr buf c st = Some (Done (Ok (0, buf, c), st))"

definition demo_bind :: "string \<Rightarrow> demo_world \<Rightarrow> (i32, io_error) rresult \<times> demo_world" where
  "demo_bind addr w = (Ok 9, w\<lparr>dw_held := dw_held w + {#ResFd 9#}\<rparr>)"

section \<open>Serving\<close>

lemma settled_live:
  assumes "live E f s"
  shows "\<exists>h. fut_drop f (rx_heap s) = Done h \<and> settled E (s\<lparr>rx_heap := h\<rparr>)"
proof -
  obtain T fs k where b: "beside E T fs k f s" using assms by (auto simp: live_def some_beside_def)
  then have "ring_ok T s" by (simp add: beside_def)
  with fut_drop_beside [OF b] show ?thesis by (fastforce simp: settled_def)
qed

lemma incoming_live:
  assumes "settled E s" "alloc_ok (oe_alloc E) (rx_heap s)" "TcpListener_incoming E lc as_raw_fd l (rx_heap s) = (i, h)"
  shows "live E (FutPoll (in_poll i)) (s\<lparr>rx_heap := h\<rparr>)" "in_inner i = l"
proof -
  obtain T fs k where st: "rx_inv k (mset (futs_addrs fs)) s" "client_ok E T fs (rx_inflight k s) (rx_heap s)" "ring_ok T s"
    using assms(1) by (auto simp: settled_def)
  obtain ap where ap: "AsyncPoll_new E (as_raw_fd (listener l)) (PollFlags_IN lc) (rx_heap s) = (ap, h)"
    "i = \<lparr>in_inner = l, in_blocked = True, in_poll = ap\<rparr>"
    using assms(3) by (auto simp: TcpListener_incoming_def Handle_async_poll_def split: prod.splits)
  from some_besideI [OF AsyncPoll_new_beside [OF st(1,2) assms(2) ap(1) st(3)]] ap(2)
  show "live E (FutPoll (in_poll i)) (s\<lparr>rx_heap := h\<rparr>)" "in_inner i = l" by (auto simp: live_def)
qed

lemma serve_loop_ends:
  assumes laws: "task_laws (sv_task S) deadline" "accept_laws (sv_task S) (sv_accept S) m" "try_next_laws (sv_try_next S)" "clients_stop S T"
    and spawn: "\<And>con i s w. \<exists>f. spawn con (i, s, w) = (i, s, sv_spawn S f w)"
  shows "live (te_ops (sv_task S)) (FutPoll (in_poll i)) s \<Longrightarrow>
    \<exists>r. serve_loop (serve_accept S) spawn (i, s, w) = Some r \<and> (case r of
        Done (e, i', s', w') \<Rightarrow> in_inner i' = in_inner i \<and> live (te_ops (sv_task S)) (FutPoll (in_poll i')) s'
      | Panic m \<Rightarrow> m \<in> async_panics | _ \<Rightarrow> False)"
proof (induction "T - tm_now (te_timer (sv_task S)) w" arbitrary: i s w rule: less_induct)
  case less
  let ?now = "tm_now (te_timer (sv_task S))"
  note loop = serve_loop.simps [of "serve_accept S" spawn "(i, s, w)"]
  from serve_next_ends [OF laws(1-3) less.prems, of w] obtain r where
    r: "serve_next (sv_task S) (sv_accept S) (sv_try_next S) (i, s, w) = Some r"
    and ok: "case r of
         Done (res, i', s', w') \<Rightarrow> in_inner i' = in_inner i \<and> live (te_ops (sv_task S)) (FutPoll (in_poll i')) s' \<and>
           timed_result (\<lambda>r. accepted_by ?now (sv_accept S) (in_inner i) (?now w) r w') (?now w + 30000000000) (?now w') res
       | Panic m \<Rightarrow> m \<in> async_panics | _ \<Rightarrow> False" by blast
  show ?case
  proof (cases r)
    case (Done x)
    obtain res i' s' w' where x: "x = (res, i', s', w')" by (cases x)
    note ok = ok [unfolded Done x, simplified]
    show ?thesis
    proof (cases res)
      case (Err e)
      with r ok Done x show ?thesis by (simp add: loop serve_accept_def)
    next
      case (Ok c)
      with ok obtain con where con: "c = Some con" "accepted_at ?now (sv_accept S) (in_inner i) (?now w) con w'"
        by (cases c) (auto simp: timed_result_def accepted_by_def)
      then obtain w0 where w0: "?now w \<le> ?now w0" "sv_accept S (listener (in_inner i)) w0 = (Ok (stream (fst con), snd con), w')"
        by (auto simp: accepted_at_def)
      have "case sv_accept S (listener (in_inner i)) w0 of (Ok c, w') \<Rightarrow> ?now w0 < ?now w' \<and> ?now w0 < T | (Err e, w') \<Rightarrow> True"
        using laws(4) [unfolded clients_stop_def Let_def, THEN conjunct1, THEN spec [of _ "listener (in_inner i)"], THEN spec [of _ w0]] .
      with w0(2) have "?now w0 < ?now w'" "?now w0 < T" by simp_all
      moreover obtain f where f: "spawn con (i', s', w') = (i', s', sv_spawn S f w')" using spawn by blast
      moreover have "?now w' \<le> ?now (sv_spawn S f w')" using laws(4) by (simp add: clients_stop_def Let_def)
      ultimately have "T - ?now (sv_spawn S f w') < T - ?now w" using w0(1) by linarith
      moreover have i': "in_inner i' = in_inner i" "live (te_ops (sv_task S)) (FutPoll (in_poll i')) s'" using ok by simp_all
      ultimately show ?thesis using less.hyps [of "sv_spawn S f w'" i' s', unfolded i'(1)] r Done x Ok con f by (simp add: loop serve_accept_def)
    qed
  qed (use r ok in \<open>simp_all add: loop serve_accept_def\<close>)
qed

section \<open>Properties\<close>



lemma main_setup_ends:
  fixes start :: "'k \<Rightarrow> 'ex Runtime \<Rightarrow> ('t, 'f) any_rx \<Rightarrow> 'ex Runtime \<times> ('t, 'f) any_rx"
  assumes acc: "posix_accounting os timerfd_new held" and bind: "bind_laws bind as_raw_fd held"
    and listen: "\<And>l v k v'. listen l v = (k, v') \<Longrightarrow> held v' = held v"
    and start: "\<And>k rt inner. reactor_resources (snd (start k rt inner)) = reactor_resources inner"
    and run: "main_setup tk p os timerfd_new cap pp buf a bind as_raw_fd listen start v = Done r"
  shows "(\<exists>m v'. r = Unwound m v' \<and> m \<in> {''bind'', ''new runtime''} \<and> held v' = held v) \<or>
    (\<exists>l k inner rt inner' v'. r = Returned (rt, inner') v' \<and> (rt, inner') = start k \<lparr>rt_executor = tk_new_with_park tk \<lparr>re_inner = a\<rparr>\<rparr> inner \<and>
      held v' = held v + {#ResFd (as_raw_fd l)#} + reactor_resources inner')"
proof -
  obtain x v1 where b: "bind ''[::]:22'' v = (x, v1)" by fastforce
  have B: "case bind ''[::]:22'' v of (Ok l, v') \<Rightarrow> held v' = held v + {#ResFd (as_raw_fd l)#} | (Err e, v') \<Rightarrow> held v' = held v"
    using bind [unfolded bind_laws_def, THEN spec, THEN spec] .
  show ?thesis
  proof (cases x)
    case (Err e)
    with run b B show ?thesis by (auto simp: main_setup_def)
  next
    case (Ok l)
    obtain k v2 where l: "listen l v1 = (k, v2)" by fastforce
    from run b Ok l obtain y :: "('ex Runtime \<times> ('t, 'f) any_rx, io_error) rresult" and v3 where y: "Runtime_new tk p os timerfd_new cap pp buf a v2 = Done (y, v3)"
      by (auto simp: main_setup_def)
    then obtain z :: "(('t, 'f) any_rx, io_error) rresult" and v4 where
      z: "Inner_build p os timerfd_new cap pp buf v2 = Done (z, v4)" by (auto simp: Runtime_new_def Reactor_new_def)
    have h: "held v4 = held v + {#ResFd (as_raw_fd l)#} + (case z of Ok s \<Rightarrow> reactor_resources s | Err e \<Rightarrow> {#})"
      using Inner_build_accounting [OF acc z] listen [OF l] B b Ok by simp
    have close: "held (os_close os fd w) = held w - {#ResFd fd#}" for fd w
      using acc os_accountingD(4) by (auto simp: posix_accounting_def)
    show ?thesis
    proof (cases z)
      case (Err e)
      with y z have "y = Err e" "v3 = v4" by (auto simp: Runtime_new_def Reactor_new_def)
      with run b Ok l y h Err show ?thesis by (auto simp: main_setup_def close)
    next
      case (Ok s)
      with y z have yy: "y = Ok (\<lparr>rt_executor = tk_new_with_park tk \<lparr>re_inner = a\<rparr>\<rparr>, Inner_init s)" "v3 = v4"
        by (auto simp: Runtime_new_def Reactor_new_def)
      let ?rt = "\<lparr>rt_executor = tk_new_with_park tk \<lparr>re_inner = a\<rparr>\<rparr>"
      have "r = Returned (start k ?rt (Inner_init s)) v4" using run b \<open>x = Ok l\<close> l y yy by (simp add: main_setup_def)
      moreover have "held v4 = held v + {#ResFd (as_raw_fd l)#} + reactor_resources (snd (start k ?rt (Inner_init s)))"
        using h Ok start by (simp add: reactor_resources_def Inner_init_def)
      ultimately show ?thesis by (intro disjI2 exI [of _ l] exI [of _ k] exI [of _ "Inner_init s"]) (auto simp: prod_eq_iff)
    qed
  qed
qed


lemma demo_bind_laws: "bind_laws demo_bind (\<lambda>l. l) dw_held"
  by (simp add: bind_laws_def demo_bind_def)

lemmas demo_setup_defs = echo_setup_def main_setup_def Runtime_new_def Reactor_new_def Inner_build_def demo_posix2_def os.defs posix.defs
  demo_new_defs Let_def CompletionState_new_def Park_new_def set_non_block_def demo_bind_def TcpListener_from_def


end
