(* ===== verification/Debug_Fmt.thy ===== *)
theory Debug_Fmt
  imports Async_System Runtime
begin

text \<open>
  What the \<open>Debug\<close> implementations of the crates print, in the format of \<open>{:?}\<close>: those written by hand
  (\<open>RawOperation\<close>, \<open>SubmissionEntryOperationFlags\<close>, \<open>SubmissionEntryExtraData\<close>, \<open>MappedMemory\<close>, \<open>Registration\<close>, the futures and their
  states, \<open>Reactor\<close>, \<open>Handle\<close>, \<open>Runtime\<close> and \<open>Entered\<close>), and the derived ones they are printed through. Printing may read
  memory: the cell of a registration, and the members of a union, whose other bytes are not initialised. The \<open>Debug\<close>
  implementations of other crates are parameters.
\<close>

section \<open>Numbers\<close>

fun digits_of :: "nat \<Rightarrow> nat \<Rightarrow> nat list" where
  "digits_of b n = (if b < 2 \<or> n < b then [n] else digits_of b (n div b) @ [n mod b])"

declare digits_of.simps [simp del]

definition digit_char :: "nat \<Rightarrow> char" where
  "digit_char d = char_of (if d < 10 then 48 + d else 87 + d)"

definition char_digit :: "char \<Rightarrow> nat" where
  "char_digit c = (let n = of_char c in if n < 58 then n - 48 else n - 87)"

definition show_dec :: "nat \<Rightarrow> string" where
  "show_dec n = map digit_char (digits_of 10 n)"

definition show_hex :: "nat \<Rightarrow> string" where
  "show_hex n = map digit_char (digits_of 16 n)"

definition show_int :: "int \<Rightarrow> string" where
  "show_int i = (if i < 0 then ''-'' @ show_dec (nat (- i)) else show_dec (nat i))"

definition show_bool :: "bool \<Rightarrow> string" where
  "show_bool b = (if b then ''true'' else ''false'')"

text \<open>Reading a number back.\<close>

definition read_digits :: "nat \<Rightarrow> string \<Rightarrow> nat" where
  "read_digits b s = foldl (\<lambda>n c. b * n + char_digit c) 0 s"

section \<open>The builders of \<open>std::fmt\<close>\<close>

fun joined :: "string list \<Rightarrow> string" where
  "joined [] = []"
| "joined [s] = s"
| "joined (s # ss) = s @ '', '' @ joined ss"

definition debug_tuple :: "string \<Rightarrow> string list \<Rightarrow> string" where
  "debug_tuple name fs = (if fs = [] then name else name @ ''('' @ joined fs @ '')'')"

definition debug_struct :: "string \<Rightarrow> (string \<times> string) list \<Rightarrow> string" where
  "debug_struct name fs =
     (if fs = [] then name else name @ '' { '' @ joined (map (\<lambda>(f, v). f @ '': '' @ v) fs) @ '' }'')"

section \<open>Entries\<close>

primrec Operation_fmt :: "Operation \<Rightarrow> string" where
  "Operation_fmt Nop = ''Nop''"
| "Operation_fmt Readv = ''Readv''"
| "Operation_fmt Writev = ''Writev''"
| "Operation_fmt Fsync = ''Fsync''"
| "Operation_fmt ReadFixed = ''ReadFixed''"
| "Operation_fmt WriteFixed = ''WriteFixed''"
| "Operation_fmt PollAdd = ''PollAdd''"
| "Operation_fmt PollRemove = ''PollRemove''"

definition RawOperation_fmt :: "RawOperation \<Rightarrow> string" where
  "RawOperation_fmt r = (case RawOperation_decode r of
       Some op \<Rightarrow> Operation_fmt op
     | None \<Rightarrow> debug_tuple ''RawOperation'' [show_dec (unat (raw_op r))])"

text \<open>
  Reading a member of the union: the three members of 32 bits share their bytes; \<open>poll_events\<close> has the first two of them
  (the low ones on the little-endian targets), so that a value written through it leaves the other two bytes uninitialised, and reading
  an integer with uninitialised bytes is undefined behaviour.
\<close>

definition op_flags_u32 :: "SubmissionEntryOperationFlags \<Rightarrow> u32 outcome" where
  "op_flags_u32 fl = (case fl of
       OpRaw x \<Rightarrow> Done x | OpRwFlags x \<Rightarrow> Done x | OpFsyncFlags x \<Rightarrow> Done x
     | OpPollEvents x \<Rightarrow> Undefined ''read of uninitialised bytes'')"

definition op_flags_u16 :: "SubmissionEntryOperationFlags \<Rightarrow> u16 outcome" where
  "op_flags_u16 fl = (case fl of
       OpRaw x \<Rightarrow> Done (ucast x) | OpRwFlags x \<Rightarrow> Done (ucast x) | OpFsyncFlags x \<Rightarrow> Done (ucast x) | OpPollEvents x \<Rightarrow> Done x)"

text \<open>The \<open>Debug\<close> implementations that \<open>bitflags!\<close> generates.\<close>

record flags_fmt =
  ff_entry :: "u8 \<Rightarrow> string"
  ff_rw :: "u32 \<Rightarrow> string"
  ff_fsync :: "u32 \<Rightarrow> string"
  ff_poll :: "u16 \<Rightarrow> string"

definition OperationFlags_fmt :: "flags_fmt \<Rightarrow> SubmissionEntryOperationFlags \<Rightarrow> string outcome" where
  "OperationFlags_fmt F fl =
     obind (op_flags_u32 fl) (\<lambda>raw.
     obind (op_flags_u32 fl) (\<lambda>rw_flags.
     obind (op_flags_u32 fl) (\<lambda>fsync_flags.
     obind (op_flags_u16 fl) (\<lambda>poll_events.
       Done (debug_struct ''SubmissionEntryOperationFlags''
         [(''raw'', show_dec (unat raw)), (''rw_flags'', ff_rw F rw_flags),
          (''fsync_flags'', ff_fsync F fsync_flags), (''poll_events'', ff_poll F poll_events)])))))"

definition FixedOp_fmt :: "u16 \<Rightarrow> string" where
  "FixedOp_fmt buf_index = debug_struct ''SubmissionEntryFixedOp'' [(''buf_index'', show_dec (unat buf_index))]"

definition ExtraData_fmt :: "SubmissionEntryExtraData \<Rightarrow> string" where
  "ExtraData_fmt x = debug_struct ''SubmissionEntryExtraData'' [(''fixed'', FixedOp_fmt (ex_buf_index x))]"

text \<open>\<open>derive(Debug)\<close> of \<open>SubmissionEntry\<close>.\<close>

definition SubmissionEntry_fmt :: "flags_fmt \<Rightarrow> SubmissionEntry \<Rightarrow> string outcome" where
  "SubmissionEntry_fmt F e = obind (OperationFlags_fmt F (se_op_flags e)) (\<lambda>op_flags.
     Done (debug_struct ''SubmissionEntry''
       [(''opcode'', RawOperation_fmt (se_opcode e)), (''flags'', ff_entry F (se_flags e)),
        (''ioprio'', debug_tuple ''EncodedIoPriority'' [show_dec (unat (prio_bits (se_ioprio e)))]),
        (''fd'', show_int (sint (se_fd e))), (''off'', show_dec (unat (se_off e))), (''addr'', show_dec (unat (se_addr e))),
        (''len'', show_dec (unat (se_len e))), (''op_flags'', op_flags), (''user_data'', show_dec (unat (se_user_data e))),
        (''extra'', ExtraData_fmt (se_extra e))]))"

definition CompletionEntry_fmt :: "CompletionEntry \<Rightarrow> string" where
  "CompletionEntry_fmt e = debug_struct ''CompletionEntry''
     [(''user_data'', show_dec (unat (ce_user_data e))), (''res'', show_int (sint (ce_res e))), (''flags'', show_dec (unat (ce_flags e)))]"

definition MappedMemory_fmt :: "MappedMemory \<Rightarrow> string" where
  "MappedMemory_fmt m = ''MappedMemory{addr: 0x'' @ show_hex (unat (mm_addr m)) @ '', len: '' @ show_dec (unat (mm_len m)) @ ''}''"

section \<open>Registrations and futures\<close>

definition UringResult_fmt :: "UringResult \<Rightarrow> string" where
  "UringResult_fmt r = debug_struct ''UringResult''
     [(''result'', show_int (sint (ur_result r))), (''flags'', show_dec (unat (ur_flags r)))]"

definition Registration_fmt :: "u64 \<Rightarrow> 'd rc_heap \<Rightarrow> string outcome" where
  "Registration_fmt a h =
     obind (rc_get a h) (\<lambda>inner.
     obind (Registration_user_data a) (\<lambda>user_data.
       Done (debug_struct ''Registration''
         [(''user_data'', show_dec (unat user_data)), (''finished'', show_bool (ri_finished inner)),
          (''result'', UringResult_fmt (ri_result inner))])))"

text \<open>The two \<open>State\<close> types, which have the same code, and the futures around them; \<open>io_fmt\<close> is the \<open>Debug\<close> of \<open>io::Error\<close>.\<close>

definition read_state_fmt :: "(io_error \<Rightarrow> string) \<Rightarrow> ('t, 'f) op_state \<Rightarrow> 'd rc_heap \<Rightarrow> string outcome" where
  "read_state_fmt io_fmt st h = (case st of
       Pending reg \<Rightarrow> obind (Registration_fmt reg h) (\<lambda>p. Done (debug_tuple ''Pending'' [p]))
     | InitFailed e \<Rightarrow> Done (debug_tuple ''InitFailed'' [io_fmt (ae_error e)])
     | Closed \<Rightarrow> Done (debug_tuple ''Closed'' []))"

definition write_state_fmt :: "(io_error \<Rightarrow> string) \<Rightarrow> ('t, 'f) op_state \<Rightarrow> 'd rc_heap \<Rightarrow> string outcome" where
  "write_state_fmt io_fmt st h = (case st of
       Pending reg \<Rightarrow> obind (Registration_fmt reg h) (\<lambda>p. Done (debug_tuple ''Pending'' [p]))
     | InitFailed e \<Rightarrow> Done (debug_tuple ''InitFailed'' [io_fmt (ae_error e)])
     | Closed \<Rightarrow> Done (debug_tuple ''Closed'' []))"

definition AsyncRead_fmt :: "(io_error \<Rightarrow> string) \<Rightarrow> ('t, 'f) op_state \<Rightarrow> 'd rc_heap \<Rightarrow> string outcome" where
  "AsyncRead_fmt io_fmt st h = obind (read_state_fmt io_fmt st h) (\<lambda>s. Done (debug_tuple ''AsyncRead'' [s]))"

definition AsyncWrite_fmt :: "(io_error \<Rightarrow> string) \<Rightarrow> ('t, 'f) op_state \<Rightarrow> 'd rc_heap \<Rightarrow> string outcome" where
  "AsyncWrite_fmt io_fmt st h = obind (write_state_fmt io_fmt st h) (\<lambda>s. Done (debug_tuple ''AsyncWrite'' [s]))"

definition Reactor_fmt :: string where
  "Reactor_fmt = ''Reactor {..}''"

definition Handle_fmt :: string where
  "Handle_fmt = ''Handle {..}''"

text \<open>\<open>derive(Debug)\<close> of \<open>AsyncPoll\<close>.\<close>

definition AsyncPoll_fmt :: "(u16 \<Rightarrow> string) \<Rightarrow> AsyncPoll \<Rightarrow> 'd rc_heap \<Rightarrow> string outcome" where
  "AsyncPoll_fmt poll_fmt ap h = obind (Registration_fmt (ap_registration ap) h) (\<lambda>reg.
     Done (debug_struct ''AsyncPoll''
       [(''handle'', Handle_fmt), (''fd'', show_int (sint (ap_fd ap))), (''active'', show_bool (ap_active ap)),
        (''flags'', poll_fmt (ap_flags ap)), (''registration'', reg)]))"

definition fut_fmt :: "(io_error \<Rightarrow> string) \<Rightarrow> (u16 \<Rightarrow> string) \<Rightarrow> ('t, 'f) fut \<Rightarrow> 'd rc_heap \<Rightarrow> string outcome" where
  "fut_fmt io_fmt poll_fmt f h = (case f of
       FutRead st \<Rightarrow> AsyncRead_fmt io_fmt st h | FutWrite st \<Rightarrow> AsyncWrite_fmt io_fmt st h | FutPoll ap \<Rightarrow> AsyncPoll_fmt poll_fmt ap h)"

text \<open>Both print \<open>executor.get_park()\<close>, a \<open>Timer\<close> of \<open>tokio_timer\<close> around the reactor, which is told how to print a reactor.\<close>

definition Runtime_fmt :: "((Reactor \<Rightarrow> string) \<Rightarrow> 'ex \<Rightarrow> string) \<Rightarrow> 'ex Runtime \<Rightarrow> string" where
  "Runtime_fmt park_fmt rt = park_fmt (\<lambda>_. Reactor_fmt) (rt_executor rt)"

definition Entered_fmt :: "((Reactor \<Rightarrow> string) \<Rightarrow> 'ex \<Rightarrow> string) \<Rightarrow> 'ex Runtime \<Rightarrow> string" where
  "Entered_fmt park_fmt rt = park_fmt (\<lambda>_. Reactor_fmt) (rt_executor rt)"

section \<open>Numbers are read back\<close>

lemma digits_of_less: "2 \<le> b \<Longrightarrow> d \<in> set (digits_of b n) \<Longrightarrow> d < b"
proof (induction b n rule: digits_of.induct)
  case (1 b n)
  show ?case
  proof (cases "n < b")
    case True
    with 1 show ?thesis by (simp add: digits_of.simps [of b n])
  next
    case False
    then have "d \<in> set (digits_of b (n div b)) \<or> d = n mod b" using 1(2,3) by (auto simp: digits_of.simps [of b n])
    with 1(1,2) False show ?thesis by auto
  qed
qed

lemma char_digit_char: "d < 16 \<Longrightarrow> char_digit (digit_char d) = d"
  by (simp add: char_digit_def digit_char_def Let_def)

lemma foldl_digits: "2 \<le> b \<Longrightarrow> foldl (\<lambda>n d. b * n + d) 0 (digits_of b n) = n"
proof (induction b n rule: digits_of.induct)
  case (1 b n)
  show ?case
  proof (cases "n < b")
    case True
    then show ?thesis by (simp add: digits_of.simps [of b n])
  next
    case False
    with 1 show ?thesis by (simp add: digits_of.simps [of b n])
  qed
qed

lemma read_digits_of:
  assumes "2 \<le> b" "b \<le> 16"
  shows "read_digits b (map digit_char (digits_of b n)) = n"
proof -
  have "foldl (\<lambda>n c. b * n + char_digit c) k (map digit_char ds) = foldl (\<lambda>n d. b * n + d) k ds"
    if "\<forall>d \<in> set ds. d < b" for ds k
    using that assms(2) by (induction ds arbitrary: k) (simp_all add: char_digit_char)
  then show ?thesis using digits_of_less [OF assms(1)] foldl_digits [OF assms(1)] by (simp add: read_digits_def)
qed

lemma read_show [simp]: "read_digits 10 (show_dec n) = n" "read_digits 16 (show_hex n) = n"
  by (simp_all add: show_dec_def show_hex_def read_digits_of)

lemma show_dec_inj [simp]: "show_dec m = show_dec n \<longleftrightarrow> m = n"
  by (metis read_show(1))

section \<open>Operation codes\<close>

text \<open>
  Printing an operation code loses nothing: different raw operations, known or not, are printed differently.
\<close>

lemma RawOperation_fmt_inj: "RawOperation_fmt q = RawOperation_fmt r \<longleftrightarrow> q = r"
proof
  assume eq: "RawOperation_fmt q = RawOperation_fmt r"
  have op: "Operation_fmt x = Operation_fmt y \<longleftrightarrow> x = y" for x y by (cases x; cases y) simp_all
  have raw: "hd (drop 1 (RawOperation_fmt r)) = CHR ''a'' \<and> hd (drop 2 (RawOperation_fmt r)) = CHR ''w''"
    if "RawOperation_decode r = None" for r using that by (simp add: RawOperation_fmt_def debug_tuple_def)
  have named: "\<not> (hd (drop 1 (Operation_fmt x)) = CHR ''a'' \<and> hd (drop 2 (Operation_fmt x)) = CHR ''w'')" for x by (cases x) simp_all
  consider x y where "RawOperation_decode q = Some x" "RawOperation_decode r = Some y"
    | "RawOperation_decode q = None" "RawOperation_decode r = None"
    | x where "RawOperation_decode q = Some x" "RawOperation_decode r = None"
    | x where "RawOperation_decode q = None" "RawOperation_decode r = Some x" by (metis option.exhaust)
  then show "q = r"
  proof cases
    case 1
    with eq op have "x = y" by (simp add: RawOperation_fmt_def)
    with 1 show ?thesis by (metis RawOperation_decode_SomeD)
  next
    case 2
    with eq have "raw_op q = raw_op r" by (simp add: RawOperation_fmt_def debug_tuple_def word_unat_eq_iff)
    then show ?thesis by (rule RawOperation.expand)
  next
    case 3
    with eq raw [of r] named [of x] show ?thesis by (simp add: RawOperation_fmt_def)
  next
    case 4
    with eq raw [of q] named [of x] show ?thesis by (simp add: RawOperation_fmt_def)
  qed
qed simp

section \<open>Futures\<close>

text \<open>The text of a pending future.\<close>

definition pending_text :: "string \<Rightarrow> u64 \<Rightarrow> bool \<Rightarrow> UringResult \<Rightarrow> string" where
  "pending_text name a fin r = name @ ''(Pending(Registration { user_data: '' @ show_dec (unat a) @ '', finished: '' @
     show_bool fin @ '', result: '' @ UringResult_fmt r @ '' }))''"

lemma registered_user_data: "registered a \<Longrightarrow> Registration_user_data a = Done a"
  by (simp add: Registration_user_data_def rust_assert_def registered_def)

lemma Registration_fmt_cell:
  assumes "registered a" "rh_cells h a = Some (n, i)"
  shows "Registration_fmt a h = Done (''Registration { user_data: '' @ show_dec (unat a) @ '', finished: '' @
    show_bool (ri_finished i) @ '', result: '' @ UringResult_fmt (ri_result i) @ '' }'')"
  using assms by (simp add: Registration_fmt_def rc_get_def registered_user_data debug_struct_def)

lemma op_pending_fmt:
  assumes "registered a" "rh_cells h a = Some (n, i)"
  shows "AsyncRead_fmt io_fmt (Pending a) h = Done (pending_text ''AsyncRead'' a (ri_finished i) (ri_result i))"
    "AsyncWrite_fmt io_fmt (Pending a) h = Done (pending_text ''AsyncWrite'' a (ri_finished i) (ri_result i))"
  by (simp_all add: AsyncRead_fmt_def AsyncWrite_fmt_def read_state_fmt_def write_state_fmt_def Registration_fmt_cell [OF assms] debug_tuple_def pending_text_def)

lemma fut_fmt_done:
  assumes "fut_ok fl h f"
  shows "is_done (fut_fmt io_fmt poll_fmt f h)"
proof (cases f)
  case (FutPoll ap)
  with assms obtain i d where "registered (ap_registration ap)" "rh_cells h (ap_registration ap) = Some (Suc (count fl (ap_registration ap)), i)"
    by (auto simp: fut_ok_def elim: cell_okD)
  then show ?thesis by (simp add: FutPoll fut_fmt_def AsyncPoll_fmt_def Registration_fmt_cell)
next
  case (FutRead st)
  show ?thesis
  proof (cases st)
    case (Pending a)
    with assms FutRead obtain i d where c: "registered a" "rh_cells h a = Some (Suc (count fl a), i)"
      by (auto simp: fut_ok_def op_ok_def elim: cell_okD)
    show ?thesis by (simp add: FutRead Pending fut_fmt_def op_pending_fmt(1) [OF c])
  qed (simp_all add: FutRead fut_fmt_def AsyncRead_fmt_def read_state_fmt_def)
next
  case (FutWrite st)
  show ?thesis
  proof (cases st)
    case (Pending a)
    with assms FutWrite obtain i d where c: "registered a" "rh_cells h a = Some (Suc (count fl a), i)"
      by (auto simp: fut_ok_def op_ok_def elim: cell_okD)
    show ?thesis by (simp add: FutWrite Pending fut_fmt_def op_pending_fmt(2) [OF c])
  qed (simp_all add: FutWrite fut_fmt_def AsyncWrite_fmt_def write_state_fmt_def)
qed

section \<open>Entries\<close>

lemma SubmissionEntry_fmt_cases:
  "(\<exists>x. se_op_flags e = OpPollEvents x) \<and> SubmissionEntry_fmt F e = Undefined ''read of uninitialised bytes'' \<or>
   (\<nexists>x. se_op_flags e = OpPollEvents x) \<and> is_done (SubmissionEntry_fmt F e)"
  by (cases "se_op_flags e") (simp_all add: SubmissionEntry_fmt_def OperationFlags_fmt_def op_flags_u32_def op_flags_u16_def)

lemma fill_entry_poll_flags: "(\<exists>x. se_op_flags (fill_entry e r) = OpPollEvents x) \<longleftrightarrow> (\<exists>fd fl. r = ReqPollAdd fd fl)"
proof -
  have iov: "se_op_flags (SubmissionEntry_iov e op pr fd off fl p) = OpRwFlags fl" for op pr fd off fl p
    by (cases fd) (simp_all add: SubmissionEntry_iov_def OperationFlags_from_rw_def set_target_def set_buf_index_def Let_def)
  have fixed: "se_op_flags (SubmissionEntry_io_fixed e op pr fd off fl i p) = OpRwFlags fl" for op pr fd off fl i p
    by (cases fd) (simp_all add: SubmissionEntry_io_fixed_def OperationFlags_from_rw_def set_target_def set_buf_index_def Let_def)
  have fsync: "se_op_flags (SubmissionEntry_fsync e fd fl off n) = OpFsyncFlags fl" for fd fl off n
    by (cases fd) (simp_all add: SubmissionEntry_fsync_def OperationFlags_from_fsync_def set_target_def set_buf_index_def Let_def)
  have poll: "se_op_flags (SubmissionEntry_poll_add e fd fl) = OpPollEvents fl" for fd fl
    by (cases fd) (simp_all add: SubmissionEntry_poll_add_def OperationFlags_from_poll_def set_target_def set_buf_index_def Let_def)
  have "se_op_flags (SubmissionEntry_poll_remove e ud) = OpRaw 0" for ud
    by (simp add: SubmissionEntry_poll_remove_def OperationFlags_from_u32_def set_buf_index_def Let_def)
  with iov fixed fsync poll show ?thesis
    by (cases r) (simp_all add: SubmissionEntry_readv_def SubmissionEntry_writev_def SubmissionEntry_read_fixed_def SubmissionEntry_write_fixed_def)
qed

section \<open>Properties\<close>

text \<open>
  C39. Printing entries. An entry filled by any method but \<open>poll_add\<close> can be printed. Printing an entry that
  \<open>poll_add\<close> filled is undefined behaviour: it reads 32-bit members of a union of which only the 16 bits of \<open>poll_events\<close> were
  initialised.
\<close>

theorem poll_entry_debug_undefined:
  "is_done (SubmissionEntry_fmt F (fill_entry e r)) = (case r of ReqPollAdd fd fl \<Rightarrow> False | _ \<Rightarrow> True) \<and>
   SubmissionEntry_fmt F (fill_entry e (ReqPollAdd fd fl)) = Undefined ''read of uninitialised bytes''"
  using SubmissionEntry_fmt_cases [of "fill_entry e r" F] SubmissionEntry_fmt_cases [of "fill_entry e (ReqPollAdd fd fl)" F]
    fill_entry_poll_flags [of e r] fill_entry_poll_flags [of e "ReqPollAdd fd fl"]
  by (cases r) auto

text \<open>
  In every state of a program all its futures can be printed, without access to freed memory. What is
  printed of a pending read or write tells whether its request is still in flight.
\<close>

theorem futures_debug_safe:
  assumes "asys_init st0" "(asys_step os p E lc)\<^sup>*\<^sup>* st0 st"
  defines "h \<equiv> rx_heap (as_rx st)"
  shows "\<exists>k. rx_inv k (mset (futs_addrs (as_futs st))) (as_rx st) \<and>
    (\<forall>f \<in> set (as_futs st). is_done (fut_fmt io_fmt poll_fmt f h)) \<and>
    (\<forall>a. FutRead (Pending a) \<in> set (as_futs st) \<longrightarrow> (\<exists>r. AsyncRead_fmt io_fmt (Pending a) h =
       Done (pending_text ''AsyncRead'' a (a \<notin># rx_inflight k (as_rx st)) r))) \<and>
    (\<forall>a. FutWrite (Pending a) \<in> set (as_futs st) \<longrightarrow> (\<exists>r. AsyncWrite_fmt io_fmt (Pending a) h =
       Done (pending_text ''AsyncWrite'' a (a \<notin># rx_inflight k (as_rx st)) r)))"
proof -
  obtain k T where inv: "asys_inv E k T st" using asys.inv_reachable [OF assms(1,2)] by blast
  let ?fl = "rx_inflight k (as_rx st)"
  from inv have "client_ok E T (as_futs st) ?fl h" by (simp add: asys_inv_def h_def)
  then have ok: "fut_ok ?fl h f" if "f \<in> set (as_futs st)" for f using that by (simp add: client_ok_def)
  have cell: "\<exists>n i. registered a \<and> rh_cells h a = Some (n, i) \<and> ri_finished i = (a \<notin># ?fl)"
    if "FutRead (Pending a) \<in> set (as_futs st) \<or> FutWrite (Pending a) \<in> set (as_futs st)" for a
    using that by (auto dest!: ok simp: fut_ok_def op_ok_def elim!: cell_okD)
  show ?thesis
  proof (intro exI [of _ k] conjI ballI allI impI)
    show "rx_inv k (mset (futs_addrs (as_futs st))) (as_rx st)" using inv by (simp add: asys_inv_def)
    show "is_done (fut_fmt io_fmt poll_fmt f h)" if "f \<in> set (as_futs st)" for f by (rule fut_fmt_done [OF ok [OF that]])
    show "\<exists>r. AsyncRead_fmt io_fmt (Pending a) h = Done (pending_text ''AsyncRead'' a (a \<notin># ?fl) r)"
      if f: "FutRead (Pending a) \<in> set (as_futs st)" for a
    proof -
      obtain m i where c: "registered a" "rh_cells h a = Some (m, i)" "ri_finished i = (a \<notin># ?fl)" using cell [OF disjI1 [OF f]] by blast
      from op_pending_fmt(1) [OF c(1,2), of io_fmt] show ?thesis unfolding c(3) by (rule exI)
    qed
    show "\<exists>r. AsyncWrite_fmt io_fmt (Pending a) h = Done (pending_text ''AsyncWrite'' a (a \<notin># ?fl) r)"
      if f: "FutWrite (Pending a) \<in> set (as_futs st)" for a
    proof -
      obtain m i where c: "registered a" "rh_cells h a = Some (m, i)" "ri_finished i = (a \<notin># ?fl)" using cell [OF disjI2 [OF f]] by blast
      from op_pending_fmt(2) [OF c(1,2), of io_fmt] show ?thesis unfolding c(3) by (rule exI)
    qed
  qed
qed

end
