(* ===== verification/Spec2Isabelle.thy ===== *)
theory Spec2Isabelle
  imports Uring_Prelude Sys_Types Sys_Submission Ring_Spec Submission_Queue Completion_Queue
    Store_Buffer Ring_Weak Ring_Loads Uring_Setup Registration Unpark Park_Weak Reactor Reactor_Safety Reactor_Lifetime
    Async_Ops Async_System Async_Data Net_Io Echo Runtime Awaiting Servers Debug_Fmt
begin

text \<open>
  A verification development for \<^emph>\<open>rust-io-uring\<close>: Rust bindings to the Linux \<open>io_uring\<close> interface, a
  reactor on top of it for the tokio runtime, and examples.

  \<^bold>\<open>The program.\<close> User space and the kernel share two rings. A request is written to a slot of the
  submission ring, published by moving a tail counter and taken by the kernel, which moves a head
  counter; when it is done the kernel appends a completion to the completion ring, from which user
  space takes it. \<open>io-uring-sys\<close> has the kernel's data structures and system calls, \<open>io-uring\<close> maps the
  rings and implements both queues, \<open>tokio-uring-reactor\<close> runs the loop: it queues requests on behalf
  of futures, each of which shares a reference counted \<^emph>\<open>registration\<close> with the kernel (the request's
  \<open>user_data\<close> is its address), parks the thread in \<open>io_uring_enter\<close>, and completes registrations.
  Other threads wake it through two flags and a pipe.

  \<^bold>\<open>Theories\<close> (source files are below \<open>src/\<close>):

    \<^item> \<open>Uring_Prelude\<close>: machine integers, the outcomes of a Rust call (a value, a panic, undefined
      behaviour, a call that blocks for ever), \<open>Result\<close>, arithmetic with and without overflow checks
      (\<open>profile\<close>), and the arithmetic of free-running \<open>u32\<close> ring counters (\<open>ring_dist\<close>, \<open>slot\<close>,
      \<open>ring_view\<close>).
    \<^item> \<open>Sys_Types\<close>: \<open>io-uring-sys/src/lib.rs\<close> and \<open>macros.rs\<close>: flags, structures, their C layout and
      the static assertion on it, operation codes.
    \<^item> \<open>Sys_Submission\<close>: \<open>io-uring-sys/src/submission.rs\<close>: priorities and the methods that fill an entry,
      with a decoder that reads entries back as the kernel does.
    \<^item> \<open>Ring_Spec\<close>: the locale \<open>ring_transport\<close>, the contract of a ring between a producer and a
      consumer, and what follows for every interleaving (first in first out, exactly once, bounded).
    \<^item> \<open>Submission_Queue\<close>, \<open>Completion_Queue\<close>: the queues of \<open>io-uring/src/lib.rs\<close>. A record holds the
      fields of the Rust struct together with the shared memory behind its pointers; every method is a
      function on it. Both interpret \<open>ring_transport\<close>, with user space and the kernel on opposite sides.
      The abstract bounded queue \<open>spec_queue\<close> is refined by \<open>submit_with\<close> and the drop of
      \<open>BulkSubmission\<close>. \<open>cq_for_each\<close> is a \<open>for\<close> loop over the completion queue with the kernel posting
      concurrently; it is total, and a fold over the completions.
    \<^item> \<open>Store_Buffer\<close>: stores with memory orderings that reach memory late and out of order; the locale
      \<open>store_buffer\<close> has what follows from stores to different locations commuting.
    \<^item> \<open>Ring_Weak\<close>: the submission queue on such a memory (the interpretation \<open>ring\<close>). The release store of the tail
      makes it behave as on a memory without buffers; a relaxed one would not.
    \<^item> \<open>Ring_Loads\<close>: the completion queue with loads that may return old values. The acquiring load of the tail
      makes every entry up to it current (the interpretation \<open>cr\<close> of \<open>ring_transport\<close>); with a relaxed one \<open>next\<close> could return a stale entry.
    \<^item> \<open>Uring_Setup\<close>: \<open>io-uring/src/mmap.rs\<close>, the constructors of the queues and of \<open>Uring\<close>,
      \<open>UringFile\<close>, and the system call wrappers. The operating system is a parameter (\<open>os\<close>).
      Construction establishes the invariants of the queues and leaks nothing on its error paths.
    \<^item> \<open>Registration\<close>: \<open>tokio-uring-reactor/src/registration.rs\<close> on an explicit heap of reference counted
      cells. The locale \<open>owned_cells\<close> is the discipline of using only handles one owns; its
      interpretation gives memory safety of every such program.
    \<^item> \<open>Unpark\<close>: \<open>unpark.rs\<close> and \<open>set_non_block\<close> of \<open>lib.rs\<close>. \<open>unpark\<close>, \<open>enter\<close> and the guard are split at
      their atomic accesses and interleaved (\<open>psys_step\<close>); the locale \<open>step_invariant\<close> gives the
      invariant of all reachable states: no wake-up is lost, no read blocks.
    \<^item> \<open>Park_Weak\<close>: the park flags on a memory with store buffers (the interpretation \<open>flags\<close>), under the orderings
      of the source. A waiting reactor with the flag set is woken; but the relaxed store that clears the flag can
      swallow an \<open>unpark\<close>. With sequentially consistent stores it is the model of \<open>Unpark\<close>.
    \<^item> \<open>Reactor\<close>: \<open>reactor.rs\<close>: completion handling, \<open>park_inner\<close>, queueing, construction. What other
      threads and the kernel do meanwhile is the argument \<open>rx_env\<close>, restricted by \<open>env_ok\<close>. The
      invariant \<open>rx_inv\<close> accounts for every request in flight: in the submission ring, in the kernel, or
      in the completion ring.
      The locale \<open>reactor_client\<close> is what a user of the reactor keeps beside \<open>rx_inv\<close>, and what it knows about the kernel's
      answers, and carries it through \<open>park\<close>.
    \<^item> \<open>Reactor_Safety\<close>: what the reactor guarantees, stated over these.
    \<^item> \<open>Reactor_Lifetime\<close>: \<open>Reactor\<close>, \<open>InnerMut\<close> and \<open>Handle\<close> of \<open>reactor.rs\<close>: the shared ownership of the reactor's
      state, its drop, and what of the memory lent to the kernel outlives it.
    \<^item> \<open>Async_Ops\<close>: the futures of \<open>reactor/async_read.rs\<close>, \<open>async_write.rs\<close> and \<open>async_poll.rs\<close>. Read and
      write have the same code for different bounds, so they are instances of \<open>op_new\<close>, \<open>op_poll\<close>,
      \<open>op_poll_async\<close> and \<open>op_drop\<close>; \<open>Handle_async_read\<close> and its siblings are the methods of \<open>Handle\<close>.
      Every branch of starting and polling, and the round trip of buffer and file.
    \<^item> \<open>Async_System\<close>: programs over these futures and the reactor, as a step relation. The main
      theorem: every request in flight designates a live registration with the caller's buffer in
      it, whatever is polled or dropped when, and also after the reactor itself was dropped. Interprets \<open>reactor_client\<close> and \<open>step_invariant\<close>.
    \<^item> \<open>Async_Data\<close>: what a pending operation keeps while the program goes on: buffer, file and \<open>iovec\<close> stay in its registration, and
      it finishes with a result the kernel posted for it. A lemma for each operation says which registration it
      leaves alone; \<open>park\<close> is an interpretation of \<open>reactor_client\<close>.
    \<^item> \<open>Net_Io\<close>: \<open>net.rs\<close> and \<open>io.rs\<close>: the stream of incoming connections, for both kinds of streams, as
      one loop over \<open>accept\<close> and a poll (locale \<open>event_source\<close>, interpreted on both polls of
      \<open>AsyncPoll\<close>), and sockets shared by two halves.
    \<^item> \<open>Echo\<close>: \<open>echo-async/src/*.rs\<close> and \<open>tokio-uring/examples/echo.rs\<close>: the timeout combinator, the
      connection handlers and the serving loops, over awaited operations that are arguments.
    \<^item> \<open>Awaiting\<close>: \<open>await\<close> as polling and suspending in turn, and the awaited operations of \<open>echo-async\<close> on the futures of
      \<open>Async_Ops\<close> and the stream of \<open>Net_Io\<close>. The locale \<open>timed_future\<close> is what a future under a timeout promises; its
      interpretations are reading from a connection and waiting for the next one. Every timed wait ends.
    \<^item> \<open>Servers\<close>: \<open>serve\<close> of \<open>serve_tcp.rs\<close> and the \<open>main\<close> functions of both servers, on the runtime: the serving task
      ends cleanly, and a \<open>main\<close> starts completely or releases what it acquired.
    \<^item> \<open>Runtime\<close>: \<open>tokio-uring/src/lib.rs\<close>: the runtime and the thread-local current reactor. Computations
      return or unwind with the state they leave, so that guards are modelled on both ways out.
    \<^item> \<open>Debug_Fmt\<close>: what the \<open>Debug\<close> implementations of all crates print in the format \<open>{:?}\<close>, and the memory they read for it: cells of
      registrations, which are alive whenever a future is printed, and members of a union, which may be uninitialised.

  \<^bold>\<open>Loops.\<close> No definition uses fuel: loops over rings terminate by a measure (\<open>cq_for_each\<close>: the rest
  of the kernel's schedule, then the distance of the ring counters), loops over ranges are structural.
  Loops whose end depends on the world (\<open>incoming_loop\<close>, \<open>connection_loop\<close>, \<open>await_loop\<close>, \<open>serve_loop\<close>, \<open>listen_loop\<close>) are
  partial functions that give \<open>None\<close> when they do not return; that they return is proved from named
  assumptions (\<open>interrupts_end\<close>, \<open>echo_laws\<close>, \<open>task_laws\<close>, \<open>clients_stop\<close>).

  \<^bold>\<open>Parameters.\<close> The operating system (\<open>os\<close>, \<open>posix\<close>), the allocator, the current task of the
  \<open>futures\<close> crate, \<open>from_bits_truncate\<close> of \<open>bitflags\<close>, the poll constants of \<open>libc\<close>, \<open>TimerFd::new\<close>,
  other threads and the kernel during \<open>park\<close>, the buffers and files of the program (\<open>op_env\<close>), \<open>accept\<close> of
  the standard library, \<open>Delay\<close> of \<open>tokio_timer\<close> (\<open>timer\<close>), the awaited operations of a connection
  (\<open>transfer\<close>) in \<open>Echo\<close>, what happens while a task is suspended (\<open>te_resume\<close>), \<open>try_next\<close> and \<open>Compat\<close> of
  \<open>futures_util\<close>, \<open>bind\<close> of the standard library, and the executor and its contexts (\<open>tokio\<close>). What is relied upon is named
  (\<open>mem_laws\<close>, \<open>os_accounting\<close>, \<open>fcntl_laws\<close>, \<open>posix_accounting\<close>, \<open>alloc_ok\<close>, \<open>threads_ok\<close>, \<open>enter_ok\<close>,
  \<open>interrupts_end\<close>, \<open>timer_laws\<close>, \<open>echo_laws\<close>, \<open>task_laws\<close>, \<open>accept_laws\<close>, \<open>try_next_laws\<close>, \<open>clients_stop\<close>, \<open>bind_laws\<close>,
  \<open>tokio_laws\<close>, \<open>executor_laws\<close>) and shown to be satisfiable on
  concrete instances.

  \<^bold>\<open>Limits.\<close> Stores to the submission ring and the park flags are delayed and reordered as their orderings allow
  (\<open>Ring_Weak\<close>, \<open>Park_Weak\<close>), and loads of the completion ring return old values as theirs allow (\<open>Ring_Loads\<close>); these are separate models, and
  all other atomic accesses are interleaved sequentially consistently. \<open>usize\<close> is 64 bits wide.
  A buffer that a task reads into is a value of
  its own type, whose bytes are in memory the kernel writes to; the handlers in \<open>Echo\<close> see lists of bytes. An \<open>async\<close> function is given by what it does between the results of its
  awaited operations, not by the state machine the compiler makes of it. In
  \<open>Async_Ops\<close> and above, strong and weak counts of the reactor itself are reduced to whether it still exists.

  \<^bold>\<open>Not modelled.\<close> Log output and the printing of the examples (pure output), the alternate format \<open>{:#?}\<close>, the \<open>Debug\<close>
  implementations of other crates (parameters of \<open>Debug_Fmt\<close>), derived \<open>Debug\<close> of types that are never printed by a hand-written one
  (\<open>SetupParameters\<close>, the ring offsets, \<open>SubmissionError\<close>, the network types), build files, and declarations without content of their own
  (imports, feature gates, empty trait implementations, which inherit the methods modelled for the trait).
\<close>

end
